(* ===== verification/Prelude.thy ===== *)
theory Prelude
  imports Complex_Main "HOL-Library.Word" "HOL-Library.Multiset" "HOL-Library.Char_ord"
begin

text \<open>
  Shared vocabulary of the development: the fact collections the component theories fill, the
  fixed-width C++ types, byte strings and the few libc / libstdc++ string routines that several
  translation units of \<^verbatim>\<open>src/src\<close> use (\<^verbatim>\<open>c_str\<close>, \<^verbatim>\<open>tolower\<close>, \<^verbatim>\<open>strcasecmp\<close>,
  \<^verbatim>\<open>std::to_string\<close>, prefix comparison), and the two interfaces that several components provide:
  a queue that is filled on one thread and swapped out on another, and a table of live objects keyed
  by ids drawn from a counter.
\<close>

named_theorems queue_simps \<open>unfolding rules for the bridge queues\<close>
named_theorems table_simps \<open>unfolding rules for the id-keyed tables\<close>
named_theorems lim_simps \<open>unfolding rules for the rate limiters\<close>
named_theorems resp_simps \<open>unfolding rules for the response setters\<close>

section \<open>C++ scalar types\<close>

type_synonym size_t = "64 word"
type_synonym uint64 = "64 word"

abbreviation NA_INTEGER :: int where "NA_INTEGER \<equiv> - 2147483648"

abbreviation INT_MAX :: int where "INT_MAX \<equiv> 2147483647"

text \<open>A counter that has not reached its last value does not wrap.\<close>

lemma unat_inc: "n \<noteq> - 1 \<Longrightarrow> unat (n + 1) = unat n + 1" for n :: "'a::len word"
  using unatSuc [of n] by (auto simp: add.commute eq_neg_iff_add_eq_0)

lemma word_less_inc: "n \<noteq> - 1 \<Longrightarrow> i < n + 1 \<longleftrightarrow> i < n \<or> i = n" for n :: "'a::len word"
  by (auto simp: word_less_nat_alt unat_inc word_unat_eq_iff)

section \<open>Byte strings\<close>

text \<open>A \<^verbatim>\<open>std::string\<close> is a list of bytes; \<^verbatim>\<open>c_str()\<close> handed to a C routine ends at the first NUL.\<close>

abbreviation NUL :: char where "NUL \<equiv> CHR 0x00"

definition c_str :: "string \<Rightarrow> string" where
  "c_str s = takeWhile (\<lambda>c. c \<noteq> NUL) s"

definition tolower :: "char \<Rightarrow> char" where
  "tolower c = (if CHR ''A'' \<le> c \<and> c \<le> CHR ''Z'' then char_of (of_char c + 32 :: nat) else c)"

definition strcasecmp_eq :: "string \<Rightarrow> string \<Rightarrow> bool" where
  "strcasecmp_eq a b \<longleftrightarrow> map tolower (c_str a) = map tolower (c_str b)"

lemma c_str_no_nul [simp]: "NUL \<notin> set s \<Longrightarrow> c_str s = s"
  by (auto simp: c_str_def takeWhile_eq_all_conv)

lemma nul_notin_c_str [simp]: "NUL \<notin> set (c_str s)"
  by (auto simp: c_str_def dest: set_takeWhileD)

lemma c_str_idem [simp]: "c_str (c_str s) = c_str s"
  by (rule c_str_no_nul) simp

text \<open>\<^verbatim>\<open>a.size() >= p.size() && a.compare(0, p.size(), p) == 0\<close>.\<close>

definition has_prefix :: "string \<Rightarrow> string \<Rightarrow> bool" where
  "has_prefix p a \<longleftrightarrow> length p \<le> length a \<and> take (length p) a = p"

lemma has_prefix_iff: "has_prefix p a \<longleftrightarrow> (\<exists>r. a = p @ r)"
  by (auto simp: has_prefix_def) (metis append_take_drop_id)

text \<open>Decimal rendering, as \<^verbatim>\<open>std::to_string\<close> and \<^verbatim>\<open>%d\<close> do it.\<close>

definition digit_char :: "nat \<Rightarrow> char" where
  "digit_char d = char_of (48 + d)"

fun nat_to_dec :: "nat \<Rightarrow> string" where
  "nat_to_dec n = (if n < 10 then [digit_char n] else nat_to_dec (n div 10) @ [digit_char (n mod 10)])"

declare nat_to_dec.simps [simp del]

definition int_to_dec :: "int \<Rightarrow> string" where
  "int_to_dec i = (if i < 0 then CHR ''-'' # nat_to_dec (nat (- i)) else nat_to_dec (nat i))"

definition is_digit :: "char \<Rightarrow> bool" where
  "is_digit c \<longleftrightarrow> CHR ''0'' \<le> c \<and> c \<le> CHR ''9''"

lemma digit_char_eval [simp]:
  "digit_char 0 = CHR ''0''" "digit_char 1 = CHR ''1''" "digit_char 2 = CHR ''2''"
  "digit_char 3 = CHR ''3''" "digit_char 4 = CHR ''4''" "digit_char 5 = CHR ''5''"
  "digit_char 6 = CHR ''6''" "digit_char 7 = CHR ''7''" "digit_char 8 = CHR ''8''"
  "digit_char 9 = CHR ''9''" "digit_char (Suc 0) = CHR ''1''"
  by (simp_all add: digit_char_def char_of_def bit_0)

lemma of_char_digit_char: "d < 10 \<Longrightarrow> (of_char (digit_char d) :: nat) = 48 + d"
  by (simp add: digit_char_def of_char_of take_bit_nat_eq_self)

lemma is_digit_digit_char [simp]: "d < 10 \<Longrightarrow> is_digit (digit_char d)"
  by (simp add: is_digit_def less_eq_char_def of_char_digit_char)

lemma nat_to_dec_nonempty [simp]: "nat_to_dec n \<noteq> []"
  by (subst nat_to_dec.simps) simp

lemma nat_to_dec_digits: "c \<in> set (nat_to_dec n) \<Longrightarrow> is_digit c"
proof (induction n rule: nat_to_dec.induct)
  case (1 n)
  then show ?case
    by (cases "n < 10") (auto simp: nat_to_dec.simps [of n])
qed

text \<open>The value of a digit string; \<open>nat_to_dec\<close> is its right inverse.\<close>

definition dec_value :: "string \<Rightarrow> nat" where
  "dec_value s = foldl (\<lambda>v c. 10 * v + (of_char c - 48)) 0 s"

lemma dec_value_snoc: "dec_value (s @ [c]) = 10 * dec_value s + (of_char c - 48)"
  by (simp add: dec_value_def)

lemma dec_value_nat_to_dec [simp]: "dec_value (nat_to_dec n) = n"
proof (induction n rule: nat_to_dec.induct)
  case (1 n)
  show ?case
  proof (cases "n < 10")
    case True
    then show ?thesis
      by (simp add: nat_to_dec.simps [of n] dec_value_def of_char_digit_char)
  next
    case False
    then show ?thesis
      using "1" by (simp add: nat_to_dec.simps [of n] dec_value_snoc of_char_digit_char)
  qed
qed

lemma nat_to_dec_inj: "nat_to_dec a = nat_to_dec b \<Longrightarrow> a = b"
  by (metis dec_value_nat_to_dec)

lemma hd_nat_to_dec: "0 < n \<Longrightarrow> hd (nat_to_dec n) \<noteq> CHR ''0''"
proof (induction n rule: nat_to_dec.induct)
  case (1 n)
  show ?case
  proof (cases "n < 10")
    case True
    have "digit_char n \<noteq> CHR ''0''"
    proof
      assume "digit_char n = CHR ''0''"
      then have "(of_char (digit_char n) :: nat) = of_char (CHR ''0'')" by simp
      with True "1.prems" show False by (simp add: of_char_digit_char)
    qed
    with True show ?thesis by (simp add: nat_to_dec.simps [of n])
  next
    case False
    with "1" have "hd (nat_to_dec (n div 10)) \<noteq> CHR ''0''" by simp
    with False show ?thesis by (simp add: nat_to_dec.simps [of n])
  qed
qed

section \<open>Multisets\<close>

lemma size_filter_mset_mono:
  "(\<And>x. x \<in># M \<Longrightarrow> P x \<Longrightarrow> Q x) \<Longrightarrow> size (filter_mset P M) \<le> size (filter_mset Q M)"
proof (induction M)
  case (add x M)
  then have "size (filter_mset P M) \<le> size (filter_mset Q M)" by simp
  with add.prems [of x] show ?case by (auto intro: le_SucI)
qed simp

section \<open>Queues filled on one thread and swapped out on another\<close>

text \<open>
  The three queues of the bridge (HTTP requests, server WebSocket events, client WebSocket events)
  have the same shape: a producer appends under a mutex, possibly being refused, and the main R
  thread swaps the whole queue out. \<open>queue_op\<close> is one such critical section, \<open>run_queue\<close> a run of
  them; it returns the items accepted, the items handed to the consumer, and the final queue.
\<close>

datatype 'a queue_op = Push 'a | Drain

fun run_queue ::
  "('a \<Rightarrow> 'q \<Rightarrow> bool \<times> 'q) \<Rightarrow> ('q \<Rightarrow> 'a list \<times> 'q) \<Rightarrow> 'a queue_op list \<Rightarrow> 'q
    \<Rightarrow> 'a list \<times> 'a list \<times> 'q" where
  "run_queue enq drain [] q = ([], [], q)"
| "run_queue enq drain (Push x # ops) q =
     (let (ok, q1) = enq x q; (acc, out, q2) = run_queue enq drain ops q1
      in (if ok then x # acc else acc, out, q2))"
| "run_queue enq drain (Drain # ops) q =
     (let (xs, q1) = drain q; (acc, out, q2) = run_queue enq drain ops q1
      in (acc, xs @ out, q2))"

locale bridge_queue =
  fixes enq :: "'a \<Rightarrow> 'q \<Rightarrow> bool \<times> 'q"
    and drain :: "'q \<Rightarrow> 'a list \<times> 'q"
    and contents :: "'q \<Rightarrow> 'a list"
  assumes enq_accepted: "enq x q = (True, q') \<Longrightarrow> contents q' = contents q @ [x]"
    and enq_refused: "enq x q = (False, q') \<Longrightarrow> contents q' = contents q"
    and drain_all: "drain q = (xs, q') \<Longrightarrow> xs = contents q \<and> contents q' = []"
begin

text \<open>Nothing is lost, duplicated or reordered, however the critical sections interleave.\<close>

lemma fifo_exact:
  "run_queue enq drain ops q = (acc, out, q') \<Longrightarrow> contents q @ acc = out @ contents q'"
proof (induction ops arbitrary: q acc out q')
  case Nil
  then show ?case by simp
next
  case (Cons op ops)
  show ?case
  proof (cases op)
    case (Push x)
    obtain ok q1 where e: "enq x q = (ok, q1)" by fastforce
    obtain a o' q2 where r: "run_queue enq drain ops q1 = (a, o', q2)"
      by (metis surj_pair)
    from Cons.IH [OF r] have ih: "contents q1 @ a = o' @ contents q2" .
    from Cons.prems Push e r have "acc = (if ok then x # a else a)" "out = o'" "q' = q2"
      by simp_all
    with ih e show ?thesis
      by (cases ok) (auto dest: enq_accepted enq_refused)
  next
    case Drain
    obtain xs q1 where d: "drain q = (xs, q1)" by fastforce
    obtain a o' q2 where r: "run_queue enq drain ops q1 = (a, o', q2)"
      by (metis surj_pair)
    from Cons.IH [OF r] have "contents q1 @ a = o' @ contents q2" .
    with Cons.prems Drain d r drain_all [OF d] show ?thesis by simp
  qed
qed

end

section \<open>Tables keyed by ids from a counter\<close>

text \<open>
  \<^verbatim>\<open>g_streams\<close>, \<^verbatim>\<open>g_wsSessions\<close> and \<^verbatim>\<open>g_wsClients\<close> are \<^verbatim>\<open>unordered_map\<close>s from an id to a shared
  object. Ids are drawn with \<^verbatim>\<open>fetch_add\<close> from an atomic \<^verbatim>\<open>uint64_t\<close> that starts at 1. The interface
  is what the rest of the bridge relies on: a fresh id does not name a live object, insertion and
  erasure are seen by lookup at that id only. The laws on freshness hold until the counter wraps.
\<close>

locale id_table =
  fixes find :: "'s \<Rightarrow> uint64 \<Rightarrow> 'v option"
    and next_id :: "'s \<Rightarrow> uint64"
    and add :: "'v \<Rightarrow> 's \<Rightarrow> 's"
    and erase :: "uint64 \<Rightarrow> 's \<Rightarrow> 's"
  assumes find_add: "find (add v s) = (find s)(next_id s \<mapsto> v)"
    and next_add: "next_id (add v s) = next_id s + 1"
    and find_erase: "find (erase i s) = (find s)(i := None)"
    and next_erase: "next_id (erase i s) = next_id s"
begin

definition ids_below :: "'s \<Rightarrow> bool" where
  "ids_below s \<longleftrightarrow> (\<forall>i v. find s i = Some v \<longrightarrow> i < next_id s)"

lemma ids_below_add: "ids_below s \<Longrightarrow> next_id s \<noteq> - 1 \<Longrightarrow> ids_below (add v s)"
  by (auto simp: ids_below_def find_add next_add word_less_inc split: if_splits)

lemma ids_below_erase: "ids_below s \<Longrightarrow> ids_below (erase i s)"
  by (auto simp: ids_below_def find_erase next_erase split: if_splits)

lemma fresh_id: "ids_below s \<Longrightarrow> find s (next_id s) = None"
  by (cases "find s (next_id s)") (auto simp: ids_below_def)

text \<open>
  An id is not reused before the counter wraps: once erased it stays unbound under any later
  insertions.
\<close>

lemma erased_stays_dead:
  "unat (next_id s) + length vs < 2 ^ 64 \<Longrightarrow> i < next_id s \<Longrightarrow> find (fold add vs (erase i s)) i = None"
proof -
  assume n: "unat (next_id s) + length vs < 2 ^ 64" and i: "i < next_id s"
  have "unat (next_id t) + length vs < 2 ^ 64 \<Longrightarrow> i < next_id t \<Longrightarrow> find t i = None \<Longrightarrow>
      find (fold add vs t) i = None" for t
  proof (induction vs arbitrary: t)
    case (Cons v vs)
    have "unat (- 1 :: uint64) = 2 ^ 64 - 1" by (simp add: unsigned_minus_1_eq_mask mask_eq_exp_minus_1)
    with Cons.prems(1) have ne: "next_id t \<noteq> - 1" by auto
    with Cons.prems have "unat (next_id (add v t)) + length vs < 2 ^ 64" "i < next_id (add v t)"
      by (simp_all add: next_add unat_inc word_less_inc)
    with Cons.IH [of "add v t"] Cons.prems show ?case by (auto simp: find_add)
  qed simp
  with n i show ?thesis by (simp add: find_erase next_erase)
qed

end

end
