(* ===== verification/RequestQueue.thy ===== *)
theory RequestQueue
  imports Prelude
begin

text \<open>
  \<^verbatim>\<open>src/src/request_queue.cpp\<close> and the POSIX half of \<^verbatim>\<open>src/src/socket_compat.h\<close>: the queue that
  carries HTTP requests from the Drogon I/O threads to the main R thread, its capacity, and the
  self-pipe that wakes the dispatcher. The second half is the wakeup protocol itself: producers on
  any number of I/O threads interleaved with the dispatcher's drain sequence.
\<close>

section \<open>The wake pipe (\<^verbatim>\<open>socket_compat.h\<close>)\<close>

text \<open>
  The kernel object behind the two non-blocking descriptors: how many bytes are buffered and how
  many fit. Interrupted system calls are an argument of the write (how many times \<^verbatim>\<open>EINTR\<close> is
  reported before the call goes through).
\<close>

record kpipe =
  kp_bytes :: nat
  kp_cap :: nat

definition makeWakePipe :: "(int \<times> int) option \<Rightarrow> int \<times> int \<Rightarrow> int \<times> (int \<times> int)" where
  "makeWakePipe os fds = (case os of None \<Rightarrow> (- 1, fds) | Some rw \<Rightarrow> (0, rw))"

definition kwrite1 :: "kpipe \<Rightarrow> kpipe" where
  "kwrite1 p = (if kp_bytes p < kp_cap p then p\<lparr>kp_bytes := Suc (kp_bytes p)\<rparr> else p)"

fun write_retry :: "nat \<Rightarrow> kpipe \<Rightarrow> kpipe" where
  "write_retry 0 p = kwrite1 p"
| "write_retry (Suc eintr) p = write_retry eintr p"

definition writeWakeByte :: "int \<Rightarrow> nat \<Rightarrow> kpipe \<Rightarrow> kpipe" where
  "writeWakeByte fd eintr p = (if fd < 0 then p else write_retry eintr p)"

fun read_loop :: "nat \<Rightarrow> nat" where
  "read_loop n = (if n = 0 then n else read_loop (n - min n 64))"

declare read_loop.simps [simp del]

definition drainWakeBytes :: "int \<Rightarrow> kpipe \<Rightarrow> kpipe" where
  "drainWakeBytes fd p = (if fd < 0 then p else p\<lparr>kp_bytes := read_loop (kp_bytes p)\<rparr>)"

lemma write_retry_eq [queue_simps]: "write_retry eintr p = kwrite1 p"
  by (induction eintr) auto

lemma read_loop_zero [simp]: "read_loop n = 0"
  by (induction n rule: read_loop.induct) (subst read_loop.simps, auto)

lemma kp_cap_kwrite1 [simp]: "kp_cap (kwrite1 p) = kp_cap p"
  by (simp add: kwrite1_def)

lemma kwrite1_wakes: "0 < kp_cap p \<Longrightarrow> 0 < kp_bytes (kwrite1 p)"
  by (simp add: kwrite1_def)

section \<open>The request queue\<close>

record 'r reqqueue =
  g_queue :: "'r list"
  g_wakeWriteFd :: int
  g_wakeReadFd :: int
  g_queueMaxSize :: nat
  g_pipe :: kpipe

definition setQueueMaxSize :: "nat \<Rightarrow> 'r reqqueue \<Rightarrow> 'r reqqueue" where
  "setQueueMaxSize n s = s\<lparr>g_queueMaxSize := n\<rparr>"

definition initQueueWakeup :: "int \<Rightarrow> int \<Rightarrow> 'r reqqueue \<Rightarrow> 'r reqqueue" where
  "initQueueWakeup readFd writeFd s = s\<lparr>g_wakeReadFd := readFd, g_wakeWriteFd := writeFd\<rparr>"

definition resetQueueWakeup :: "'r reqqueue \<Rightarrow> 'r reqqueue" where
  "resetQueueWakeup s = s\<lparr>g_wakeReadFd := - 1, g_wakeWriteFd := - 1, g_queue := []\<rparr>"

definition queueWakeReadFd :: "'r reqqueue \<Rightarrow> int" where
  "queueWakeReadFd s = g_wakeReadFd s"

definition notifyDispatcher :: "nat \<Rightarrow> 'r reqqueue \<Rightarrow> 'r reqqueue" where
  "notifyDispatcher eintr s = s\<lparr>g_pipe := writeWakeByte (g_wakeWriteFd s) eintr (g_pipe s)\<rparr>"

text \<open>The critical section of \<^verbatim>\<open>enqueueRequest\<close>, and the whole function.\<close>

definition pushRequest :: "'r \<Rightarrow> 'r reqqueue \<Rightarrow> bool \<times> 'r reqqueue" where
  "pushRequest req s =
     (let cap = g_queueMaxSize s
      in if cap > 0 \<and> length (g_queue s) \<ge> cap then (False, s)
         else (True, s\<lparr>g_queue := g_queue s @ [req]\<rparr>))"

definition enqueueRequest :: "nat \<Rightarrow> 'r \<Rightarrow> 'r reqqueue \<Rightarrow> bool \<times> 'r reqqueue" where
  "enqueueRequest eintr req s =
     (case pushRequest req s of
        (False, s1) \<Rightarrow> (False, s1)
      | (True, s1) \<Rightarrow> (True, notifyDispatcher eintr s1))"

definition drainQueue :: "'r reqqueue \<Rightarrow> 'r list \<times> 'r reqqueue" where
  "drainQueue s = (g_queue s, s\<lparr>g_queue := []\<rparr>)"

definition drainWakePipe :: "'r reqqueue \<Rightarrow> 'r reqqueue" where
  "drainWakePipe s = s\<lparr>g_pipe := drainWakeBytes (g_wakeReadFd s) (g_pipe s)\<rparr>"

lemmas reqqueue_defs =
  setQueueMaxSize_def initQueueWakeup_def resetQueueWakeup_def notifyDispatcher_def
  pushRequest_def enqueueRequest_def drainQueue_def drainWakePipe_def Let_def

interpretation rq: bridge_queue "enqueueRequest eintr" drainQueue g_queue
  by unfold_locales (auto simp: reqqueue_defs split: if_splits)

lemma pushRequest_accepted:
  "pushRequest req s = (True, t) \<Longrightarrow> t = s\<lparr>g_queue := g_queue s @ [req]\<rparr>"
  by (simp add: pushRequest_def Let_def split: if_splits)

lemma enqueueRequest_iff:
  "fst (enqueueRequest eintr req s) \<longleftrightarrow>
     g_queueMaxSize s = 0 \<or> length (g_queue s) < g_queueMaxSize s"
  by (auto simp: reqqueue_defs)

lemma enqueueRequest_refused:
  "\<not> fst (enqueueRequest eintr req s) \<Longrightarrow> snd (enqueueRequest eintr req s) = s"
  by (auto simp: reqqueue_defs split: if_splits)

definition within_capacity :: "'r reqqueue \<Rightarrow> bool" where
  "within_capacity s \<longleftrightarrow> (g_queueMaxSize s > 0 \<longrightarrow> length (g_queue s) \<le> g_queueMaxSize s)"

lemma enqueueRequest_frame [simp]:
  "g_queueMaxSize (snd (enqueueRequest eintr req s)) = g_queueMaxSize s"
  by (auto simp: reqqueue_defs)

lemma within_capacity_enqueue:
  "within_capacity s \<Longrightarrow> within_capacity (snd (enqueueRequest eintr req s))"
  by (auto simp: within_capacity_def reqqueue_defs)

lemma within_capacity_drain: "within_capacity (snd (drainQueue s))"
  by (simp add: within_capacity_def reqqueue_defs)

section \<open>The wakeup protocol\<close>

text \<open>
  All three event sources (HTTP requests, server WebSocket events, WebSocket-client events) ride the
  one pipe. A producer first appends under its queue's mutex and only then writes the wake byte;
  several producers may sit between the two. The dispatcher (\<^verbatim>\<open>runDispatcher\<close> in
  \<^verbatim>\<open>r_dispatcher.cpp\<close>) is fired by \<^verbatim>\<open>later\<close> when the pipe is readable or its 600 s poll times out,
  empties the pipe, then the HTTP queue, then the server events, then the client events, and re-arms.
\<close>

datatype chan = HttpCh | WsCh | ClientCh

datatype disp_pc =
    Armed           \<comment> \<open>waiting in \<^verbatim>\<open>later\<close>'s fd watch\<close>
  | Fired           \<comment> \<open>callback entered, before \<^verbatim>\<open>drainWakePipe\<close>\<close>
  | PipeDrained     \<comment> \<open>before \<^verbatim>\<open>drainQueue\<close>\<close>
  | HttpDrained     \<comment> \<open>before \<^verbatim>\<open>drainWsEvents\<close>\<close>
  | WsDrained       \<comment> \<open>before \<^verbatim>\<open>drainWsClientEvents\<close>\<close>
  | ClientDrained   \<comment> \<open>before the re-arm\<close>

record ('r, 'e, 'c) wakesys =
  ws_rq :: "'r reqqueue"
  ws_wsEvents :: "'e list"
  ws_clientEvents :: "'c list"
  ws_pending :: "chan \<Rightarrow> nat"   \<comment> \<open>producers between their push and their \<^verbatim>\<open>notifyDispatcher\<close>\<close>
  ws_dpc :: disp_pc

fun queued :: "chan \<Rightarrow> ('r, 'e, 'c) wakesys \<Rightarrow> bool" where
  "queued HttpCh s \<longleftrightarrow> g_queue (ws_rq s) \<noteq> []"
| "queued WsCh s \<longleftrightarrow> ws_wsEvents s \<noteq> []"
| "queued ClientCh s \<longleftrightarrow> ws_clientEvents s \<noteq> []"

abbreviation announce :: "chan \<Rightarrow> ('r, 'e, 'c) wakesys \<Rightarrow> ('r, 'e, 'c) wakesys" where
  "announce c s \<equiv> s\<lparr>ws_pending := (ws_pending s)(c := Suc (ws_pending s c))\<rparr>"

inductive wake_step :: "('r, 'e, 'c) wakesys \<Rightarrow> ('r, 'e, 'c) wakesys \<Rightarrow> bool" where
  push_http: "pushRequest r (ws_rq s) = (True, q) \<Longrightarrow>
     wake_step s (announce HttpCh (s\<lparr>ws_rq := q\<rparr>))"
| push_ws: "wake_step s (announce WsCh (s\<lparr>ws_wsEvents := ws_wsEvents s @ [e]\<rparr>))"
| push_client: "wake_step s (announce ClientCh (s\<lparr>ws_clientEvents := ws_clientEvents s @ [c]\<rparr>))"
| notify: "ws_pending s ch = Suc n \<Longrightarrow>
     wake_step s (s\<lparr>ws_pending := (ws_pending s)(ch := n),
                    ws_rq := notifyDispatcher eintr (ws_rq s)\<rparr>)"
| fire_readable: "ws_dpc s = Armed \<Longrightarrow> 0 < kp_bytes (g_pipe (ws_rq s)) \<Longrightarrow>
     wake_step s (s\<lparr>ws_dpc := Fired\<rparr>)"
| fire_timeout: "ws_dpc s = Armed \<Longrightarrow> wake_step s (s\<lparr>ws_dpc := Fired\<rparr>)"
| drain_pipe: "ws_dpc s = Fired \<Longrightarrow>
     wake_step s (s\<lparr>ws_dpc := PipeDrained, ws_rq := drainWakePipe (ws_rq s)\<rparr>)"
| drain_http: "ws_dpc s = PipeDrained \<Longrightarrow>
     wake_step s (s\<lparr>ws_dpc := HttpDrained, ws_rq := snd (drainQueue (ws_rq s))\<rparr>)"
| drain_ws: "ws_dpc s = HttpDrained \<Longrightarrow>
     wake_step s (s\<lparr>ws_dpc := WsDrained, ws_wsEvents := []\<rparr>)"
| drain_client: "ws_dpc s = WsDrained \<Longrightarrow>
     wake_step s (s\<lparr>ws_dpc := ClientDrained, ws_clientEvents := []\<rparr>)"
| rearm: "ws_dpc s = ClientDrained \<Longrightarrow> wake_step s (s\<lparr>ws_dpc := Armed\<rparr>)"

definition wake_init :: "('r, 'e, 'c) wakesys \<Rightarrow> bool" where
  "wake_init s \<longleftrightarrow> g_queue (ws_rq s) = [] \<and> ws_wsEvents s = [] \<and> ws_clientEvents s = [] \<and>
     ws_pending s = (\<lambda>_. 0) \<and> ws_dpc s = Armed \<and>
     0 \<le> g_wakeReadFd (ws_rq s) \<and> 0 \<le> g_wakeWriteFd (ws_rq s) \<and> 0 < kp_cap (g_pipe (ws_rq s))"

inductive wake_reachable :: "('r, 'e, 'c) wakesys \<Rightarrow> bool" where
  start: "wake_init s \<Longrightarrow> wake_reachable s"
| step: "wake_reachable s \<Longrightarrow> wake_step s t \<Longrightarrow> wake_reachable t"

text \<open>The drains that the current activation of the dispatcher still has ahead of it.\<close>

fun drain_ahead :: "chan \<Rightarrow> disp_pc \<Rightarrow> bool" where
  "drain_ahead HttpCh pc \<longleftrightarrow> pc \<in> {Fired, PipeDrained}"
| "drain_ahead WsCh pc \<longleftrightarrow> pc \<in> {Fired, PipeDrained, HttpDrained}"
| "drain_ahead ClientCh pc \<longleftrightarrow> pc \<in> {Fired, PipeDrained, HttpDrained, WsDrained}"

definition wake_inv :: "('r, 'e, 'c) wakesys \<Rightarrow> bool" where
  "wake_inv s \<longleftrightarrow> 0 \<le> g_wakeReadFd (ws_rq s) \<and> 0 \<le> g_wakeWriteFd (ws_rq s) \<and>
     0 < kp_cap (g_pipe (ws_rq s)) \<and>
     (\<forall>ch. queued ch s \<longrightarrow>
        0 < kp_bytes (g_pipe (ws_rq s)) \<or> 0 < ws_pending s ch \<or> drain_ahead ch (ws_dpc s))"

lemma all_chan: "(\<forall>ch. P ch) \<longleftrightarrow> P HttpCh \<and> P WsCh \<and> P ClientCh"
  by (metis chan.exhaust)

lemma wake_inv_iff:
  "wake_inv s \<longleftrightarrow> 0 \<le> g_wakeReadFd (ws_rq s) \<and> 0 \<le> g_wakeWriteFd (ws_rq s) \<and>
     0 < kp_cap (g_pipe (ws_rq s)) \<and>
     (queued HttpCh s \<longrightarrow> 0 < kp_bytes (g_pipe (ws_rq s)) \<or> 0 < ws_pending s HttpCh \<or>
        drain_ahead HttpCh (ws_dpc s)) \<and>
     (queued WsCh s \<longrightarrow> 0 < kp_bytes (g_pipe (ws_rq s)) \<or> 0 < ws_pending s WsCh \<or>
        drain_ahead WsCh (ws_dpc s)) \<and>
     (queued ClientCh s \<longrightarrow> 0 < kp_bytes (g_pipe (ws_rq s)) \<or> 0 < ws_pending s ClientCh \<or>
        drain_ahead ClientCh (ws_dpc s))"
  by (simp only: wake_inv_def all_chan)

lemma wake_step_inv: "wake_step s t \<Longrightarrow> wake_inv s \<Longrightarrow> wake_inv t"
proof (induction rule: wake_step.induct)
  case (push_http r s q)
  from push_http.hyps have "q = (ws_rq s)\<lparr>g_queue := g_queue (ws_rq s) @ [r]\<rparr>"
    by (rule pushRequest_accepted)
  with push_http.prems show ?case by (simp add: wake_inv_iff)
next
  case (notify s ch n eintr)
  have "0 < kp_bytes (kwrite1 (g_pipe (ws_rq s)))"
    using notify.prems by (intro kwrite1_wakes) (simp add: wake_inv_def)
  with notify.prems show ?case
    by (simp add: wake_inv_def reqqueue_defs writeWakeByte_def write_retry_eq)
next
  case (drain_pipe s)
  then show ?case by (simp add: wake_inv_iff reqqueue_defs drainWakeBytes_def)
next
  case (drain_http s)
  then show ?case by (simp add: wake_inv_iff reqqueue_defs)
next
  case (drain_ws s)
  then show ?case by (simp add: wake_inv_iff)
next
  case (drain_client s)
  then show ?case by (simp add: wake_inv_iff)
qed (simp_all add: wake_inv_iff)

lemma wake_init_inv: "wake_init s \<Longrightarrow> wake_inv s"
  by (simp add: wake_init_def wake_inv_iff)

lemma wake_reachable_inv: "wake_reachable s \<Longrightarrow> wake_inv s"
  by (induction rule: wake_reachable.induct) (blast intro: wake_init_inv wake_step_inv)+

text \<open>One complete activation of the dispatcher with no producer interleaved.\<close>

definition dispatch_activation :: "('r, 'e, 'c) wakesys \<Rightarrow> ('r, 'e, 'c) wakesys" where
  "dispatch_activation s =
     s\<lparr>ws_dpc := Armed,
       ws_rq := snd (drainQueue (drainWakePipe (ws_rq s))),
       ws_wsEvents := [], ws_clientEvents := []\<rparr>"

lemma dispatch_activation_steps:
  assumes "ws_dpc s = Armed" and "0 < kp_bytes (g_pipe (ws_rq s))"
  shows "wake_step\<^sup>*\<^sup>* s (dispatch_activation s)"
proof -
  let ?s1 = "s\<lparr>ws_dpc := Fired\<rparr>"
  let ?s2 = "?s1\<lparr>ws_dpc := PipeDrained, ws_rq := drainWakePipe (ws_rq ?s1)\<rparr>"
  let ?s3 = "?s2\<lparr>ws_dpc := HttpDrained, ws_rq := snd (drainQueue (ws_rq ?s2))\<rparr>"
  let ?s4 = "?s3\<lparr>ws_dpc := WsDrained, ws_wsEvents := []\<rparr>"
  let ?s5 = "?s4\<lparr>ws_dpc := ClientDrained, ws_clientEvents := []\<rparr>"
  have h1: "wake_step s ?s1" using assms by (rule wake_step.fire_readable)
  have h2: "wake_step ?s1 ?s2" by (rule wake_step.drain_pipe) simp
  have h3: "wake_step ?s2 ?s3" by (rule wake_step.drain_http) simp
  have h4: "wake_step ?s3 ?s4" by (rule wake_step.drain_ws) simp
  have h5: "wake_step ?s4 ?s5" by (rule wake_step.drain_client) simp
  have h6: "wake_step ?s5 (?s5\<lparr>ws_dpc := Armed\<rparr>)" by (rule wake_step.rearm) simp
  have e: "?s5\<lparr>ws_dpc := Armed\<rparr> = dispatch_activation s"
    by (cases s) (simp add: dispatch_activation_def)
  note step = converse_rtranclp_into_rtranclp [where r = wake_step]
  show ?thesis
    unfolding e [symmetric]
    by (rule step [OF h1], rule step [OF h2], rule step [OF h3], rule step [OF h4],
        rule step [OF h5], rule r_into_rtranclp, rule h6)
qed

section \<open>Properties\<close>

text \<open>(C2) No lost wakeup.  In every reachable interleaving of the producers with the dispatcher: if
  something is queued on a channel and every producer of that channel has finished its
  \<^verbatim>\<open>notifyDispatcher\<close>, then a waiting dispatcher has a byte in its pipe (so it fires without the
  600 s poll timing out, and that activation empties all three queues), and a dispatcher that is
  already running either still has that channel's drain ahead of it or has a byte left for the next
  activation.\<close>

theorem no_lost_wakeup:
  assumes "wake_reachable s" and "queued ch s" and "ws_pending s ch = 0"
  shows "(ws_dpc s = Armed \<longrightarrow> 0 < kp_bytes (g_pipe (ws_rq s))
            \<and> wake_step\<^sup>*\<^sup>* s (dispatch_activation s) \<and> \<not> queued ch' (dispatch_activation s))
       \<and> (ws_dpc s \<noteq> Armed \<longrightarrow> drain_ahead ch (ws_dpc s) \<or> 0 < kp_bytes (g_pipe (ws_rq s)))"
proof -
  have "0 < kp_bytes (g_pipe (ws_rq s)) \<or> drain_ahead ch (ws_dpc s)"
    using wake_reachable_inv [OF assms(1)] assms(2,3) by (auto simp: wake_inv_def)
  moreover have "\<not> drain_ahead ch Armed" by (cases ch) auto
  moreover have "\<not> queued ch' (dispatch_activation s)"
    by (cases ch') (simp_all add: dispatch_activation_def reqqueue_defs)
  ultimately show ?thesis by (metis dispatch_activation_steps)
qed

definition wake_example :: "(nat, nat, nat) wakesys" where
  "wake_example = \<lparr>ws_rq = \<lparr>g_queue = [], g_wakeWriteFd = 4, g_wakeReadFd = 3, g_queueMaxSize = 10000,
       g_pipe = \<lparr>kp_bytes = 0, kp_cap = 65536\<rparr>\<rparr>,
     ws_wsEvents = [], ws_clientEvents = [], ws_pending = (\<lambda>_. 0), ws_dpc = Armed\<rparr>"

definition wake_example_pushed :: "(nat, nat, nat) wakesys" where
  "wake_example_pushed =
     announce HttpCh (wake_example\<lparr>ws_rq := snd (pushRequest 7 (ws_rq wake_example))\<rparr>)"

definition wake_example_notified :: "(nat, nat, nat) wakesys" where
  "wake_example_notified =
     wake_example_pushed\<lparr>ws_pending := (ws_pending wake_example_pushed)(HttpCh := 0),
       ws_rq := notifyDispatcher 2 (ws_rq wake_example_pushed)\<rparr>"

lemmas wake_example_defs = wake_example_def wake_example_pushed_def wake_example_notified_def

lemma wake_example_reachable: "wake_reachable wake_example_notified"
proof -
  have "wake_reachable wake_example"
    by (rule wake_reachable.start) (simp add: wake_example_def wake_init_def)
  moreover have "wake_step wake_example wake_example_pushed"
    unfolding wake_example_pushed_def
    by (rule wake_step.push_http [of 7]) (simp add: wake_example_def pushRequest_def)
  moreover have "wake_step wake_example_pushed wake_example_notified"
    unfolding wake_example_notified_def
    by (rule wake_step.notify) (simp add: wake_example_defs)
  ultimately show ?thesis by (blast intro: wake_reachable.step)
qed

theorem no_lost_wakeup_witness:
  "ws_dpc wake_example_notified = Armed \<and> queued HttpCh wake_example_notified
   \<and> wake_step\<^sup>*\<^sup>* wake_example_notified (dispatch_activation wake_example_notified)"
proof -
  have a: "ws_dpc wake_example_notified = Armed" and q: "queued HttpCh wake_example_notified"
    and p: "ws_pending wake_example_notified HttpCh = 0"
    by (simp_all add: wake_example_defs reqqueue_defs)
  show ?thesis using no_lost_wakeup [OF wake_example_reachable q p] a q by blast
qed

text \<open>(C27) The HTTP queue loses, duplicates and reorders nothing.  For any sequence of critical
  sections (an \<^verbatim>\<open>enqueueRequest\<close> from some I/O thread, or a \<^verbatim>\<open>drainQueue\<close> from the dispatcher), the
  requests handed to the dispatcher followed by those still queued are the initial contents followed
  by the accepted requests, in order.\<close>

theorem http_queue_exact:
  "case run_queue (enqueueRequest eintr) drainQueue ops s of
     (acc, out, s') \<Rightarrow> g_queue s @ acc = out @ g_queue s'"
  by (cases "run_queue (enqueueRequest eintr) drainQueue ops s") (auto dest: rq.fifo_exact)

lemma within_capacity_run:
  "within_capacity s \<Longrightarrow>
     within_capacity (snd (snd (run_queue (enqueueRequest eintr) drainQueue ops s)))"
proof (induction ops arbitrary: s)
  case (Cons op ops)
  then show ?case
    by (cases op) (auto simp: split_beta intro: within_capacity_enqueue within_capacity_drain)
qed simp

text \<open>(C28) Backpressure.  A run of \<^verbatim>\<open>enqueueRequest\<close> and \<^verbatim>\<open>drainQueue\<close> never lets the queue exceed
  its configured maximum; a request is refused exactly when a maximum is configured and reached, and
  then the queue and the wake pipe are untouched.\<close>

theorem backpressure:
  assumes "within_capacity s"
  shows "within_capacity (snd (snd (run_queue (enqueueRequest eintr) drainQueue ops s)))
     \<and> (case enqueueRequest eintr req s of
          (True, s') \<Rightarrow> (g_queueMaxSize s = 0 \<or> length (g_queue s) < g_queueMaxSize s)
                         \<and> g_queue s' = g_queue s @ [req]
        | (False, s') \<Rightarrow> 0 < g_queueMaxSize s \<and> length (g_queue s) = g_queueMaxSize s \<and> s' = s)"
  using assms within_capacity_run [of s eintr ops]
  by (auto simp: reqqueue_defs within_capacity_def)

theorem backpressure_witness:
  "within_capacity ((ws_rq wake_example)\<lparr>g_queueMaxSize := 1, g_queue := [5]\<rparr>)
   \<and> \<not> fst (enqueueRequest 0 6 ((ws_rq wake_example)\<lparr>g_queueMaxSize := 1, g_queue := [5]\<rparr>))"
proof -
  let ?s = "(ws_rq wake_example)\<lparr>g_queueMaxSize := 1, g_queue := [5]\<rparr>"
  have "within_capacity ?s" by (simp add: within_capacity_def)
  from this backpressure [OF this, of 0 "[]" 6] show ?thesis
    by (auto simp: split: prod.splits bool.splits)
qed

end
