(* ===== verification/HttpUtils.thy ===== *)
theory HttpUtils
  imports Prelude
begin

text \<open>
  \<^verbatim>\<open>src/src/drogon/lib/src/HttpUtils.cc\<close>: the status-reason table, the MIME and file-extension
  databases and the lookups over them, on which the response setters rest. The two databases are
  \<^verbatim>\<open>unordered_map\<close>s; they are listed in source order, and the lemmas below show that the derived maps do
  not depend on the traversal order.
\<close>

section \<open>Tables\<close>

datatype (plugins only:) content_type =
    CT_NONE | CT_APPLICATION_JSON | CT_TEXT_PLAIN | CT_TEXT_HTML | CT_APPLICATION_X_FORM
  | CT_APPLICATION_X_JAVASCRIPT | CT_TEXT_JAVASCRIPT | CT_TEXT_CSS | CT_TEXT_CSV | CT_TEXT_XML
  | CT_APPLICATION_XML | CT_TEXT_XSL | CT_APPLICATION_WASM | CT_APPLICATION_OCTET_STREAM
  | CT_APPLICATION_FONT_WOFF | CT_APPLICATION_FONT_WOFF2 | CT_APPLICATION_GZIP
  | CT_APPLICATION_JAVA_ARCHIVE | CT_APPLICATION_PDF | CT_APPLICATION_MSWORD
  | CT_APPLICATION_MSWORDX | CT_APPLICATION_VND_MS_FONTOBJ | CT_APPLICATION_VND_RAR
  | CT_APPLICATION_XHTML | CT_APPLICATION_X_7Z | CT_APPLICATION_X_BZIP | CT_APPLICATION_X_BZIP2
  | CT_APPLICATION_X_HTTPD_PHP | CT_APPLICATION_X_FONT_TRUETYPE | CT_APPLICATION_X_FONT_OPENTYPE
  | CT_APPLICATION_X_TAR | CT_APPLICATION_X_TGZ | CT_APPLICATION_X_XZ | CT_APPLICATION_ZIP
  | CT_AUDIO_AAC | CT_AUDIO_AC3 | CT_AUDIO_AIFF | CT_AUDIO_FLAC | CT_AUDIO_MATROSKA
  | CT_AUDIO_MPEG | CT_AUDIO_MPEG4 | CT_AUDIO_OGG | CT_AUDIO_WAVE | CT_AUDIO_WEBM
  | CT_AUDIO_X_APE | CT_AUDIO_X_MS_WMA | CT_AUDIO_X_TTA | CT_AUDIO_X_WAVPACK | CT_IMAGE_APNG
  | CT_IMAGE_AVIF | CT_IMAGE_BMP | CT_IMAGE_GIF | CT_IMAGE_ICNS | CT_IMAGE_JPG | CT_IMAGE_JP2
  | CT_IMAGE_PNG | CT_IMAGE_SVG_XML | CT_IMAGE_TIFF | CT_IMAGE_WEBP | CT_IMAGE_X_MNG
  | CT_IMAGE_X_TGA | CT_IMAGE_XICON | CT_VIDEO_APG | CT_VIDEO_AV1 | CT_VIDEO_QUICKTIME
  | CT_VIDEO_MATROSKA | CT_VIDEO_MP4 | CT_VIDEO_MPEG | CT_VIDEO_MPEG2TS | CT_VIDEO_OGG
  | CT_VIDEO_WEBM | CT_VIDEO_X_M4V | CT_VIDEO_X_MSVIDEO | CT_MULTIPART_FORM_DATA | CT_CUSTOM

datatype file_type =
    FT_UNKNOWN | FT_CUSTOM | FT_DOCUMENT | FT_ARCHIVE | FT_AUDIO | FT_MEDIA | FT_IMAGE

definition mimeTypeDatabase :: "(content_type \<times> (string list \<times> string)) list" where
  "mimeTypeDatabase = [
     (CT_NONE, [''''], ''''),
     (CT_APPLICATION_OCTET_STREAM, [''application/octet-stream''], ''''),
     (CT_APPLICATION_X_FORM, [''application/x-www-form-urlencoded''], ''''),
     (CT_MULTIPART_FORM_DATA, [''multipart/form-data''], ''''),
     (CT_APPLICATION_GZIP, [''application/gzip''], ''''),
     (CT_APPLICATION_JSON, [''application/json''], ''application/json; charset=utf-8''),
     (CT_APPLICATION_FONT_WOFF, [''application/font-woff''], ''''),
     (CT_APPLICATION_FONT_WOFF2, [''application/font-woff2''], ''''),
     (CT_APPLICATION_JAVA_ARCHIVE, [''application/java-archive'', ''application/x-java-archive''], ''''),
     (CT_APPLICATION_MSWORD, [''application/msword''], ''''),
     (CT_APPLICATION_MSWORDX, [''application/vnd.openxmlformats-officedocument.wordprocessingml.document''], ''''),
     (CT_APPLICATION_PDF, [''application/pdf''], ''''),
     (CT_APPLICATION_VND_MS_FONTOBJ, [''application/vnd.ms-fontobject''], ''''),
     (CT_APPLICATION_VND_RAR, [''application/vnd.rar''], ''''),
     (CT_APPLICATION_WASM, [''application/wasm''], ''''),
     (CT_APPLICATION_X_BZIP, [''application/x-bzip''], ''''),
     (CT_APPLICATION_X_BZIP2, [''application/x-bzip2''], ''''),
     (CT_APPLICATION_X_7Z, [''application/x-7z-compressed''], ''''),
     (CT_APPLICATION_X_HTTPD_PHP, [''application/x-httpd-php''], ''''),
     (CT_APPLICATION_X_FONT_OPENTYPE, [''application/x-font-opentype'', ''font/otf''], ''''),
     (CT_APPLICATION_X_FONT_TRUETYPE, [''application/x-font-truetype'', ''font/ttf''], ''''),
     (CT_APPLICATION_X_TAR, [''application/x-tar''], ''''),
     (CT_APPLICATION_X_TGZ, [''application/x-tgz''], ''''),
     (CT_APPLICATION_X_XZ, [''application/x-xz'', ''application/x-lzma''], ''''),
     (CT_APPLICATION_XHTML, [''application/xhtml+xml'', ''application/xhtml''], ''application/xhtml+xml; charset=utf-8''),
     (CT_APPLICATION_XML, [''application/xml''], ''application/xml; charset=utf-8''),
     (CT_APPLICATION_ZIP, [''application/zip''], ''''),
     (CT_AUDIO_AAC, [''audio/aac'', ''audio/aacp''], ''''),
     (CT_AUDIO_AC3, [''audio/ac3''], ''''),
     (CT_AUDIO_AIFF, [''audio/aiff'', ''audio/x-aiff''], ''''),
     (CT_AUDIO_FLAC, [''audio/flac''], ''''),
     (CT_AUDIO_MATROSKA, [''audio/matroska'', ''audio/x-matroska''], ''''),
     (CT_AUDIO_MPEG, [''audio/mpeg''], ''''),
     (CT_AUDIO_MPEG4, [''audio/mp4'', ''audio/x-m4a''], ''''),
     (CT_AUDIO_OGG, [''audio/ogg''], ''''),
     (CT_AUDIO_WAVE, [''audio/wav'', ''audio/x-wav''], ''''),
     (CT_AUDIO_X_APE, [''audio/x-ape''], ''''), (CT_AUDIO_X_MS_WMA, [''audio/x-ms-wma''], ''''),
     (CT_AUDIO_X_TTA, [''audio/x-tta''], ''''),
     (CT_AUDIO_X_WAVPACK, [''audio/x-wavpack''], ''''), (CT_AUDIO_WEBM, [''audio/webm''], ''''),
     (CT_IMAGE_APNG, [''image/apng''], ''''), (CT_IMAGE_AVIF, [''image/avif''], ''''),
     (CT_IMAGE_BMP, [''image/bmp''], ''''), (CT_IMAGE_GIF, [''image/gif''], ''''),
     (CT_IMAGE_ICNS, [''image/icns''], ''''),
     (CT_IMAGE_JP2, [''image/jp2'', ''image/jpx'', ''image/jpm''], ''''),
     (CT_IMAGE_JPG, [''image/jpeg''], ''''), (CT_IMAGE_PNG, [''image/png''], ''''),
     (CT_IMAGE_SVG_XML, [''image/svg+xml''], ''''), (CT_IMAGE_TIFF, [''image/tiff''], ''''),
     (CT_IMAGE_WEBP, [''image/webp''], ''''), (CT_IMAGE_X_MNG, [''image/x-mng''], ''''),
     (CT_IMAGE_X_TGA, [''image/x-tga'', ''image/x-targa''], ''''),
     (CT_IMAGE_XICON, [''image/vnd.microsoft.icon'', ''image/x-icon''], ''''),
     (CT_TEXT_CSS, [''text/css''], ''text/css; charset=utf-8''),
     (CT_TEXT_CSV, [''text/csv''], ''text/csv; charset=utf-8''),
     (CT_TEXT_HTML, [''text/html''], ''text/html; charset=utf-8''),
     (CT_TEXT_JAVASCRIPT, [''text/javascript''], ''text/javascript; charset=utf-8''),
     (CT_TEXT_PLAIN, [''text/plain''], ''text/plain; charset=utf-8''),
     (CT_TEXT_XML, [''text/xml''], ''text/xml; charset=utf-8''),
     (CT_TEXT_XSL, [''text/xsl''], ''text/xsl; charset=utf-8''),
     (CT_VIDEO_APG, [''video/apg''], ''''),
     (CT_VIDEO_AV1, [''video/av01'', ''video/av1''], ''''),
     (CT_VIDEO_QUICKTIME, [''video/quicktime''], ''''), (CT_VIDEO_MPEG, [''video/mpeg''], ''''),
     (CT_VIDEO_MPEG2TS, [''video/mp2t''], ''''), (CT_VIDEO_MP4, [''video/mp4''], ''''),
     (CT_VIDEO_OGG, [''video/ogg''], ''''), (CT_VIDEO_WEBM, [''video/webm''], ''''),
     (CT_VIDEO_X_M4V, [''video/x-m4v''], ''''),
     (CT_VIDEO_MATROSKA, [''video/matroska'', ''video/x-matroska''], ''''),
     (CT_VIDEO_X_MSVIDEO, [''video/x-msvideo''], '''')]"

definition fileTypeDatabase :: "(string \<times> (file_type \<times> content_type)) list" where
  "fileTypeDatabase = [
     ('''', FT_UNKNOWN, CT_CUSTOM), (''aac'', FT_AUDIO, CT_AUDIO_AAC),
     (''ac3'', FT_AUDIO, CT_AUDIO_AC3), (''aif'', FT_AUDIO, CT_AUDIO_AIFF),
     (''aifc'', FT_AUDIO, CT_AUDIO_AIFF), (''aiff'', FT_AUDIO, CT_AUDIO_AIFF),
     (''apg'', FT_AUDIO, CT_VIDEO_APG), (''ape'', FT_AUDIO, CT_AUDIO_X_APE),
     (''apng'', FT_IMAGE, CT_IMAGE_APNG), (''av1'', FT_MEDIA, CT_VIDEO_AV1),
     (''avi'', FT_MEDIA, CT_VIDEO_X_MSVIDEO), (''avif'', FT_IMAGE, CT_IMAGE_AVIF),
     (''bmp'', FT_IMAGE, CT_IMAGE_BMP), (''bz'', FT_ARCHIVE, CT_APPLICATION_X_BZIP),
     (''bz2'', FT_ARCHIVE, CT_APPLICATION_X_BZIP2), (''css'', FT_DOCUMENT, CT_TEXT_CSS),
     (''csv'', FT_DOCUMENT, CT_TEXT_CSV), (''doc'', FT_DOCUMENT, CT_APPLICATION_MSWORD),
     (''docx'', FT_DOCUMENT, CT_APPLICATION_MSWORDX),
     (''eot'', FT_DOCUMENT, CT_APPLICATION_VND_MS_FONTOBJ), (''flac'', FT_AUDIO, CT_AUDIO_FLAC),
     (''gif'', FT_MEDIA, CT_IMAGE_GIF), (''gz'', FT_ARCHIVE, CT_APPLICATION_GZIP),
     (''htm'', FT_DOCUMENT, CT_TEXT_HTML), (''html'', FT_DOCUMENT, CT_TEXT_HTML),
     (''icns'', FT_IMAGE, CT_IMAGE_ICNS), (''ico'', FT_IMAGE, CT_IMAGE_XICON),
     (''j2k'', FT_IMAGE, CT_IMAGE_JP2), (''jar'', FT_DOCUMENT, CT_APPLICATION_JAVA_ARCHIVE),
     (''j2c'', FT_IMAGE, CT_IMAGE_JP2), (''jp2'', FT_IMAGE, CT_IMAGE_JP2),
     (''jpeg'', FT_IMAGE, CT_IMAGE_JPG), (''jpc'', FT_IMAGE, CT_IMAGE_JP2),
     (''jpf'', FT_IMAGE, CT_IMAGE_JP2), (''jpg'', FT_IMAGE, CT_IMAGE_JPG),
     (''jpg2'', FT_IMAGE, CT_IMAGE_JP2), (''jpm'', FT_IMAGE, CT_IMAGE_JP2),
     (''jpx'', FT_IMAGE, CT_IMAGE_JP2), (''js'', FT_DOCUMENT, CT_TEXT_JAVASCRIPT),
     (''json'', FT_DOCUMENT, CT_APPLICATION_JSON), (''lzma'', FT_ARCHIVE, CT_APPLICATION_X_XZ),
     (''m1a'', FT_AUDIO, CT_AUDIO_MPEG), (''m1v'', FT_MEDIA, CT_VIDEO_MPEG),
     (''m2a'', FT_AUDIO, CT_AUDIO_MPEG), (''m2ts'', FT_MEDIA, CT_VIDEO_MPEG2TS),
     (''m2v'', FT_MEDIA, CT_VIDEO_MPEG), (''m4a'', FT_AUDIO, CT_AUDIO_MPEG4),
     (''m4v'', FT_MEDIA, CT_VIDEO_X_M4V), (''mjs'', FT_DOCUMENT, CT_TEXT_JAVASCRIPT),
     (''mka'', FT_AUDIO, CT_AUDIO_MATROSKA), (''mkv'', FT_MEDIA, CT_VIDEO_MATROSKA),
     (''mng'', FT_MEDIA, CT_IMAGE_X_MNG), (''mov'', FT_MEDIA, CT_VIDEO_QUICKTIME),
     (''mp1'', FT_AUDIO, CT_AUDIO_MPEG), (''mp2'', FT_AUDIO, CT_AUDIO_MPEG),
     (''mp3'', FT_AUDIO, CT_AUDIO_MPEG), (''mp4'', FT_MEDIA, CT_VIDEO_MP4),
     (''mpa'', FT_AUDIO, CT_AUDIO_MPEG), (''mpe'', FT_MEDIA, CT_VIDEO_MPEG),
     (''mpeg'', FT_MEDIA, CT_VIDEO_MPEG), (''mpg'', FT_MEDIA, CT_VIDEO_MPEG),
     (''mpv'', FT_MEDIA, CT_VIDEO_MPEG), (''oga'', FT_AUDIO, CT_AUDIO_OGG),
     (''ogg'', FT_AUDIO, CT_AUDIO_OGG), (''ogv'', FT_MEDIA, CT_VIDEO_OGG),
     (''otf'', FT_DOCUMENT, CT_APPLICATION_X_FONT_OPENTYPE),
     (''pdf'', FT_DOCUMENT, CT_APPLICATION_PDF),
     (''php'', FT_DOCUMENT, CT_APPLICATION_X_HTTPD_PHP), (''png'', FT_IMAGE, CT_IMAGE_PNG),
     (''rar'', FT_ARCHIVE, CT_APPLICATION_VND_RAR), (''svg'', FT_IMAGE, CT_IMAGE_SVG_XML),
     (''tar'', FT_ARCHIVE, CT_APPLICATION_X_TAR), (''targa'', FT_IMAGE, CT_IMAGE_X_TGA),
     (''tif'', FT_IMAGE, CT_IMAGE_TIFF), (''tiff'', FT_IMAGE, CT_IMAGE_TIFF),
     (''tga'', FT_IMAGE, CT_IMAGE_X_TGA), (''tgz'', FT_ARCHIVE, CT_APPLICATION_X_TGZ),
     (''ts'', FT_MEDIA, CT_VIDEO_MPEG2TS), (''tta'', FT_AUDIO, CT_AUDIO_X_TTA),
     (''ttf'', FT_DOCUMENT, CT_APPLICATION_X_FONT_TRUETYPE),
     (''txt'', FT_DOCUMENT, CT_TEXT_PLAIN), (''w64'', FT_AUDIO, CT_AUDIO_WAVE),
     (''wav'', FT_AUDIO, CT_AUDIO_WAVE), (''wave'', FT_AUDIO, CT_AUDIO_WAVE),
     (''wasm'', FT_DOCUMENT, CT_APPLICATION_WASM), (''weba'', FT_AUDIO, CT_AUDIO_WEBM),
     (''webm'', FT_MEDIA, CT_VIDEO_WEBM), (''webp'', FT_IMAGE, CT_IMAGE_WEBP),
     (''wma'', FT_AUDIO, CT_AUDIO_X_MS_WMA), (''woff'', FT_DOCUMENT, CT_APPLICATION_FONT_WOFF),
     (''woff2'', FT_DOCUMENT, CT_APPLICATION_FONT_WOFF2), (''wv'', FT_AUDIO, CT_AUDIO_X_WAVPACK),
     (''xht'', FT_DOCUMENT, CT_APPLICATION_XHTML),
     (''xhtml'', FT_DOCUMENT, CT_APPLICATION_XHTML), (''xml'', FT_DOCUMENT, CT_APPLICATION_XML),
     (''xsl'', FT_DOCUMENT, CT_TEXT_XSL), (''xz'', FT_ARCHIVE, CT_APPLICATION_X_XZ),
     (''zip'', FT_ARCHIVE, CT_APPLICATION_ZIP), (''7z'', FT_ARCHIVE, CT_APPLICATION_X_7Z)]"

definition statusReasons123 :: "(int \<times> string) list" where
  "statusReasons123 = [
     (100, ''Continue''), (101, ''Switching Protocols''), (102, ''Processing''),
     (103, ''Early Hints''), (200, ''OK''), (201, ''Created''), (202, ''Accepted''),
     (203, ''Non-Authoritative Information''), (204, ''No Content''), (205, ''Reset Content''),
     (206, ''Partial Content''), (207, ''Multi-Status''), (208, ''Already Reported''),
     (226, ''IM Used''), (300, ''Multiple Choices''), (301, ''Moved Permanently''),
     (302, ''Found''), (303, ''See Other''), (304, ''Not Modified''), (305, ''Use Proxy''),
     (306, ''(Unused)''), (307, ''Temporary Redirect''), (308, ''Permanent Redirect'')]"

definition statusReasons4 :: "(int \<times> string) list" where
  "statusReasons4 = [
     (400, ''Bad Request''), (401, ''Unauthorized''), (402, ''Payment Required''),
     (403, ''Forbidden''), (404, ''Not Found''), (405, ''Method Not Allowed''),
     (406, ''Not Acceptable''), (407, ''Proxy Authentication Required''),
     (408, ''Request Time-out''), (409, ''Conflict''), (410, ''Gone''),
     (411, ''Length Required''), (412, ''Precondition Failed''),
     (413, ''Request Entity Too Large''), (414, ''Request-URI Too Large''),
     (415, ''Unsupported Media Type''), (416, ''Requested Range Not Satisfiable''),
     (417, ''Expectation Failed''), (418, ''I'm a Teapot''), (421, ''Misdirected Request''),
     (422, ''Unprocessable Entity''), (423, ''Locked''), (424, ''Failed Dependency''),
     (425, ''Too Early''), (426, ''Upgrade Required''), (428, ''Precondition Required''),
     (429, ''Too Many Requests''), (431, ''Request Header Fields Too Large''),
     (451, ''Unavailable For Legal Reasons'')]"

definition statusReasons5 :: "(int \<times> string) list" where
  "statusReasons5 = [
     (500, ''Internal Server Error''),
     (501, ''Not Implemented''), (502, ''Bad Gateway''), (503, ''Service Unavailable''),
     (504, ''Gateway Time-out''), (505, ''HTTP Version Not Supported''),
     (506, ''Variant Also Negotiates''), (507, ''Insufficient Storage''),
     (508, ''Loop Detected''), (510, ''Not Extended''), (511, ''Network Authentication Required'')]"

definition statusReasons :: "(int \<times> string) list" where
  "statusReasons = statusReasons123 @ statusReasons4 @ statusReasons5"

lemmas statusReasons_defs =
  statusReasons_def statusReasons123_def statusReasons4_def statusReasons5_def

section \<open>Lookups\<close>

definition statusCodeToString :: "int \<Rightarrow> string" where
  "statusCodeToString code =
     (case map_of statusReasons code of
        Some reason \<Rightarrow> reason
      | None \<Rightarrow>
          if code \<ge> 100 \<and> code < 200 then ''Informational''
          else if code \<ge> 200 \<and> code < 300 then ''Successful''
          else if code \<ge> 300 \<and> code < 400 then ''Redirection''
          else if code \<ge> 400 \<and> code < 500 then ''Bad Request''
          else if code \<ge> 500 \<and> code < 600 then ''Server Error''
          else ''Undefined Error'')"

text \<open>\<^verbatim>\<open>fileName.rfind('.')\<close>, \<^verbatim>\<open>substr(pos + 1)\<close> and the \<^verbatim>\<open>tolower\<close> transform; empty without a dot.\<close>

definition lowerExtName :: "string \<Rightarrow> string" where
  "lowerExtName fileName =
     (if CHR ''.'' \<in> set fileName
      then map tolower (rev (takeWhile (\<lambda>c. c \<noteq> CHR ''.'') (rev fileName)))
      else [])"

definition getContentType :: "string \<Rightarrow> content_type" where
  "getContentType fileName =
     (case map_of fileTypeDatabase (lowerExtName fileName) of
        None \<Rightarrow> CT_APPLICATION_OCTET_STREAM
      | Some (_, ct) \<Rightarrow> ct)"

definition mimePairs :: "(content_type \<times> (string list \<times> string)) list \<Rightarrow> (string \<times> content_type) list" where
  "mimePairs db = concat (map (\<lambda>(ct, types, _). map (\<lambda>t. (t, ct)) types) db)"

text \<open>\<^verbatim>\<open>map[key] = value\<close>.\<close>

definition map_put :: "'k \<times> 'v \<Rightarrow> ('k \<rightharpoonup> 'v) \<Rightarrow> ('k \<rightharpoonup> 'v)" where
  "map_put kv m = m(fst kv \<mapsto> snd kv)"

definition contentTypeMap ::
  "(content_type \<times> (string list \<times> string)) list \<Rightarrow> string \<rightharpoonup> content_type" where
  "contentTypeMap db = fold map_put (mimePairs db) Map.empty"

function parseContentType :: "string \<Rightarrow> content_type" where
  "parseContentType contentType =
     (if CHR '';'' \<in> set contentType
      then parseContentType (takeWhile (\<lambda>c. c \<noteq> CHR '';'') contentType)
      else if contentType = ''application/x-www-form-urlencoded'' then CT_APPLICATION_X_FORM
      else if contentType = ''multipart/form-data'' then CT_MULTIPART_FORM_DATA
      else (case contentTypeMap mimeTypeDatabase contentType of None \<Rightarrow> CT_CUSTOM | Some ct \<Rightarrow> ct))"
  by pat_completeness auto
termination
proof (relation "measure length", simp)
  fix s :: string
  assume "CHR '';'' \<in> set s"
  then have "takeWhile (\<lambda>c. c \<noteq> CHR '';'') s \<noteq> s"
    by (auto simp: takeWhile_eq_all_conv)
  moreover have "length (takeWhile (\<lambda>c. c \<noteq> CHR '';'') s) \<le> length s"
    by (rule length_takeWhile_le)
  ultimately have "length (takeWhile (\<lambda>c. c \<noteq> CHR '';'') s) < length s"
    by (metis le_neq_implies_less takeWhile_eq_take take_all order_refl)
  then show "(takeWhile (\<lambda>c. c \<noteq> CHR '';'') s, s) \<in> measure length" by simp
qed

declare parseContentType.simps [simp del]

definition parseFileType :: "string \<Rightarrow> file_type" where
  "parseFileType ext =
     (case map_of fileTypeDatabase (map tolower ext) of None \<Rightarrow> FT_CUSTOM | Some (ft, _) \<Rightarrow> ft)"

definition fileTypeMap ::
  "(string \<times> (file_type \<times> content_type)) list \<Rightarrow> content_type \<rightharpoonup> file_type" where
  "fileTypeMap db =
     (fold (\<lambda>(_, ft, ct). map_put (ct, ft)) db Map.empty)(CT_NONE \<mapsto> FT_UNKNOWN, CT_CUSTOM \<mapsto> FT_CUSTOM)"

definition getFileType :: "content_type \<Rightarrow> file_type" where
  "getFileType ct = (case fileTypeMap fileTypeDatabase ct of None \<Rightarrow> FT_UNKNOWN | Some ft \<Rightarrow> ft)"

definition contentTypeToMime :: "content_type \<Rightarrow> string" where
  "contentTypeToMime ct =
     (case map_of mimeTypeDatabase ct of
        None \<Rightarrow> ''application/octet-stream''
      | Some (types, full) \<Rightarrow> if full = [] then hd types else full)"

type_synonym custom_mime = "string \<rightharpoonup> string"

definition registerCustomExtensionMime :: "string \<Rightarrow> string \<Rightarrow> custom_mime \<Rightarrow> custom_mime" where
  "registerCustomExtensionMime ext mime customMime =
     (if ext = [] then customMime else customMime(ext \<mapsto> mime))"

definition fileNameToMime :: "custom_mime \<Rightarrow> string \<Rightarrow> string" where
  "fileNameToMime customMime fileName =
     (let internal = getContentType fileName
      in if internal \<noteq> CT_APPLICATION_OCTET_STREAM then contentTypeToMime internal
         else (case customMime (lowerExtName fileName) of None \<Rightarrow> [] | Some mime \<Rightarrow> mime))"

definition fileNameToContentTypeAndMime :: "custom_mime \<Rightarrow> string \<Rightarrow> content_type \<times> string" where
  "fileNameToContentTypeAndMime customMime fileName =
     (let internal = getContentType fileName
      in if internal \<noteq> CT_APPLICATION_OCTET_STREAM then (internal, contentTypeToMime internal)
         else (case customMime (lowerExtName fileName) of
                 None \<Rightarrow> (CT_NONE, [])
               | Some mime \<Rightarrow> (CT_CUSTOM, mime)))"

definition getFileExtensions :: "content_type \<Rightarrow> string list" where
  "getFileExtensions ct =
     (let exts = (\<lambda>c. map fst (filter (\<lambda>(e, _, c'). e \<noteq> [] \<and> c' = c) fileTypeDatabase))
      in if ct = CT_TEXT_XML then exts CT_APPLICATION_XML else exts ct)"

section \<open>The derived maps do not depend on the traversal order\<close>

lemma mime_types_distinct: "distinct (map fst (mimePairs mimeTypeDatabase))"
  by (simp add: mimePairs_def mimeTypeDatabase_def)

lemma content_types_distinct: "distinct (map fst mimeTypeDatabase)"
  by (simp add: mimeTypeDatabase_def)

lemma extensions_distinct: "distinct (map fst fileTypeDatabase)"
  by (simp add: fileTypeDatabase_def)

lemma fold_map_put_distinct:
  "distinct (map fst ps) \<Longrightarrow> fold map_put ps m0 = m0 ++ map_of ps"
proof (induction ps arbitrary: m0)
  case Nil
  then show ?case by simp
next
  case (Cons p ps)
  then have "fst p \<notin> dom (map_of ps)" by (simp add: dom_map_of_conv_image_fst)
  then have "map_put p m0 ++ map_of ps = m0 ++ map_of (p # ps)"
    by (cases p) (simp add: map_put_def map_add_upd_left)
  with Cons.IH [of "map_put p m0"] Cons.prems show ?case
    by (simp only: fold_Cons o_apply list.map distinct.simps simp_thms)
qed

lemma mset_mimePairs:
  "mset (mimePairs db) = (\<Sum>e\<in>#mset db. image_mset (\<lambda>t. (t, fst e)) (mset (fst (snd e))))"
  by (induction db) (auto simp: mimePairs_def)

lemma mimePairs_mset: "mset db = mset db' \<Longrightarrow> mset (mimePairs db) = mset (mimePairs db')"
  by (simp only: mset_mimePairs)

lemma map_of_mset:
  assumes "mset ps = mset qs" and "distinct (map fst ps)"
  shows "map_of ps = map_of qs"
proof -
  have "mset (map fst qs) = mset (map fst ps)" using assms(1) by (metis mset_map)
  then have "distinct (map fst qs)" using assms(2) by (metis mset_eq_imp_distinct_iff)
  with assms show ?thesis by (metis map_of_inject_set mset_eq_setD)
qed

lemma contentTypeMap_order_irrelevant:
  assumes "mset db = mset mimeTypeDatabase"
  shows "contentTypeMap db = contentTypeMap mimeTypeDatabase"
proof -
  let ?P = "mimePairs mimeTypeDatabase" and ?Q = "mimePairs db"
  have m: "mset ?Q = mset ?P" using assms by (rule mimePairs_mset)
  have "mset (map fst ?Q) = mset (map fst ?P)" using m by (metis mset_map)
  then have d: "distinct (map fst ?Q)"
    using mime_types_distinct by (metis mset_eq_imp_distinct_iff)
  show ?thesis
    by (simp add: contentTypeMap_def fold_map_put_distinct [OF d] map_of_mset [OF m d]
        fold_map_put_distinct [OF mime_types_distinct])
qed

section \<open>Round trip\<close>

lemma contentTypeMap_lookup: "contentTypeMap mimeTypeDatabase = map_of (mimePairs mimeTypeDatabase)"
  by (simp add: contentTypeMap_def fold_map_put_distinct [OF mime_types_distinct])

lemma contentTypeMap_entry:
  assumes "(ct, types, full) \<in> set mimeTypeDatabase" and "t \<in> set types"
  shows "contentTypeMap mimeTypeDatabase t = Some ct"
proof -
  have "(t, ct) \<in> set (mimePairs mimeTypeDatabase)"
    using assms by (force simp: mimePairs_def)
  then show ?thesis
    by (simp add: contentTypeMap_lookup map_of_eq_Some_iff [OF mime_types_distinct])
qed

lemma parseContentType_base:
  "parseContentType s =
     (let t = takeWhile (\<lambda>c. c \<noteq> CHR '';'') s
      in if t = ''application/x-www-form-urlencoded'' then CT_APPLICATION_X_FORM
         else if t = ''multipart/form-data'' then CT_MULTIPART_FORM_DATA
         else (case contentTypeMap mimeTypeDatabase t of None \<Rightarrow> CT_CUSTOM | Some ct \<Rightarrow> ct))"
proof -
  let ?t = "takeWhile (\<lambda>c. c \<noteq> CHR '';'') s"
  have t: "CHR '';'' \<notin> set ?t" by (auto dest: set_takeWhileD)
  have "parseContentType s = parseContentType ?t"
  proof (cases "CHR '';'' \<in> set s")
    case True
    then show ?thesis by (simp only: parseContentType.simps [of s] if_True)
  next
    case False
    then have "?t = s" by (intro takeWhile_eq_all_conv [THEN iffD2]) auto
    then show ?thesis by (simp only:)
  qed
  with t show ?thesis by (simp only: parseContentType.simps [of ?t] Let_def if_False)
qed

text \<open>What each entry of \<^verbatim>\<open>mimeTypeDatabase_\<close> has to satisfy for its rendering to parse back.\<close>

definition mime_entry_ok :: "content_type \<times> (string list \<times> string) \<Rightarrow> bool" where
  "mime_entry_ok e =
     (case e of (ct, types, full) \<Rightarrow>
        let t = takeWhile (\<lambda>c. c \<noteq> CHR '';'') (if full = [] then hd types else full)
        in t \<in> set types
           \<and> (t = ''application/x-www-form-urlencoded'' \<longrightarrow> ct = CT_APPLICATION_X_FORM)
           \<and> (t = ''multipart/form-data'' \<longrightarrow> ct = CT_MULTIPART_FORM_DATA))"

lemma mime_entries_ok: "list_all mime_entry_ok mimeTypeDatabase"
  by (simp add: mimeTypeDatabase_def mime_entry_ok_def)

text \<open>Round trip of the media type tables.  For every content type of the database, the string
  \<^verbatim>\<open>contentTypeToMime\<close> renders (the one sent in the Content-Type header), followed by any parameters
  after a semicolon, is read back by \<^verbatim>\<open>parseContentType\<close> as the same content type; and the reverse
  map the parser builds is the same for every order in which the \<^verbatim>\<open>unordered_map\<close> is traversed.\<close>

lemma mime_round_trip:
  assumes "ct \<in> fst ` set mimeTypeDatabase"
    and "mset db = mset mimeTypeDatabase"
  shows "parseContentType (contentTypeToMime ct) = ct
       \<and> parseContentType (contentTypeToMime ct @ '';'' @ params) = ct
       \<and> contentTypeMap db = contentTypeMap mimeTypeDatabase"
proof -
  obtain types full where e: "(ct, types, full) \<in> set mimeTypeDatabase" using assms(1) by auto
  then have "map_of mimeTypeDatabase ct = Some (types, full)"
    by (simp add: map_of_eq_Some_iff [OF content_types_distinct])
  then have m: "contentTypeToMime ct = (if full = [] then hd types else full)"
    by (simp add: contentTypeToMime_def)
  have ok: "mime_entry_ok (ct, types, full)" using mime_entries_ok e by (auto simp: list_all_iff)
  have "parseContentType (contentTypeToMime ct) = ct"
    using ok contentTypeMap_entry [OF e]
    by (auto simp: parseContentType_base m mime_entry_ok_def Let_def)
  moreover have "takeWhile (\<lambda>c. c \<noteq> CHR '';'') (s @ '';'' @ params) = takeWhile (\<lambda>c. c \<noteq> CHR '';'') s" for s
    by (induction s) auto
  then have "parseContentType (contentTypeToMime ct @ '';'' @ params) = parseContentType (contentTypeToMime ct)"
    by (simp only: parseContentType_base)
  ultimately show ?thesis using contentTypeMap_order_irrelevant [OF assms(2)] by simp
qed

end
