(* ===== verification/HttpMessage.thy ===== *)
theory HttpMessage
  imports HttpUtils
begin

text \<open>
  \<^verbatim>\<open>HttpResponseImpl\<close> (\<^verbatim>\<open>src/src/drogon/lib/src/HttpResponseImpl.h\<close> and \<^verbatim>\<open>.cc\<close>): the response object the
  bridge fills, its setters, file responses, and the rendering of a response to the bytes that go on
  the wire. Response-creation advices are not registered by this program and are left out; the
  server header and the date string come from the application object and are arguments.
\<close>

section \<open>The response object\<close>

datatype Version = kUnknown | kHttp10 | kHttp11

record response =
  statusCode :: int
  customStatusCode :: int
  statusMessage :: string
  version :: Version
  closeConnection :: bool
  contentType :: content_type
  contentTypeString :: string
  headers :: "(string \<times> string) list"     \<comment> \<open>keys distinct; the order is the traversal order\<close>
  cookies :: "string list"                   \<comment> \<open>rendered cookie lines\<close>
  body :: "string option"
  sendfileName :: string
  sendfileRange :: "size_t \<times> size_t"
  asyncStream :: bool                        \<comment> \<open>\<^verbatim>\<open>asyncStreamCallback_\<close> is set\<close>
  passThrough :: bool

definition CRLF :: string where
  "CRLF = [CHR 0x0D, CHR 0x0A]"

text \<open>The member initialisers, then \<^verbatim>\<open>HttpResponseImpl(code, type)\<close>.\<close>

definition HttpResponseImpl :: response where
  "HttpResponseImpl =
     \<lparr>statusCode = 0, customStatusCode = - 1, statusMessage = [], version = kHttp11,
      closeConnection = False, contentType = CT_TEXT_PLAIN,
      contentTypeString = ''text/html; charset=utf-8'', headers = [], cookies = [], body = None,
      sendfileName = [], sendfileRange = (0, 0), asyncStream = False, passThrough = False\<rparr>"

definition HttpResponseImpl_with :: "int \<Rightarrow> content_type \<Rightarrow> response" where
  "HttpResponseImpl_with code type =
     HttpResponseImpl\<lparr>statusCode := code, statusMessage := statusCodeToString code,
       contentType := type, contentTypeString := contentTypeToMime type\<rparr>"

definition setStatusCode :: "int \<Rightarrow> response \<Rightarrow> response" where
  "setStatusCode code r = r\<lparr>statusCode := code, statusMessage := statusCodeToString code\<rparr>"

definition setVersion :: "Version \<Rightarrow> response \<Rightarrow> response" where
  "setVersion v r = (let r1 = r\<lparr>version := v\<rparr> in if v = kHttp10 then r1\<lparr>closeConnection := True\<rparr> else r1)"

definition setCloseConnection :: "bool \<Rightarrow> response \<Rightarrow> response" where
  "setCloseConnection on r = r\<lparr>closeConnection := on\<rparr>"

definition setContentTypeCode :: "content_type \<Rightarrow> response \<Rightarrow> response" where
  "setContentTypeCode type r = r\<lparr>contentType := type, contentTypeString := contentTypeToMime type\<rparr>"

definition setContentTypeString :: "string \<Rightarrow> response \<Rightarrow> response" where
  "setContentTypeString sv r =
     (let ct = parseContentType sv; ct1 = (if ct = CT_NONE then CT_CUSTOM else ct)
      in r\<lparr>contentType := ct1, contentTypeString := sv\<rparr>)"

text \<open>
  \<^verbatim>\<open>setContentTypeCodeAndCustomString\<close> strips an optional \<^verbatim>\<open>content-type: \<close> prefix and an optional
  trailing CRLF. The comparison \<^verbatim>\<open>sv.rfind("\r\n") == sv.size() - 2\<close> and the length passed to the
  \<^verbatim>\<open>string_view\<close> are computed in \<^verbatim>\<open>size_t\<close>; the result is the offset and the length of the view.
\<close>

definition npos :: size_t where
  "npos = - 1"

fun rfind2_from :: "string \<Rightarrow> nat \<Rightarrow> nat option" where
  "rfind2_from s 0 = (if has_prefix CRLF s then Some 0 else None)"
| "rfind2_from s (Suc i) = (if has_prefix CRLF (drop (Suc i) s) then Some (Suc i) else rfind2_from s i)"

definition rfind_crlf :: "string \<Rightarrow> size_t" where
  "rfind_crlf s = (case rfind2_from s (length s) of None \<Rightarrow> npos | Some i \<Rightarrow> of_nat i)"

definition customStringView :: "string \<Rightarrow> size_t \<times> size_t" where
  "customStringView sv =
     (let haveHeader = has_prefix ''content-type: '' sv;
          haveCRLF = (rfind_crlf sv = of_nat (length sv) - 2);
          endOffset = (if haveHeader then 14 else 0) + (if haveCRLF then 2 else 0)
      in (if haveHeader then 14 else 0, of_nat (length sv) - endOffset))"

definition setContentTypeCodeAndCustomString :: "content_type \<Rightarrow> string \<Rightarrow> response \<Rightarrow> response" where
  "setContentTypeCodeAndCustomString type sv r =
     (let (off, len) = customStringView sv
      in r\<lparr>contentType := type, contentTypeString := take (unat len) (drop (unat off) sv)\<rparr>)"

text \<open>\<^verbatim>\<open>headers_[key] = value\<close> with the key lower-cased.\<close>

definition hput :: "string \<Rightarrow> string \<Rightarrow> (string \<times> string) list \<Rightarrow> (string \<times> string) list" where
  "hput k v hs =
     (if k \<in> fst ` set hs then map (\<lambda>(k', v'). if k' = k then (k, v) else (k', v')) hs else hs @ [(k, v)])"

definition addHeader :: "string \<Rightarrow> string \<Rightarrow> response \<Rightarrow> response" where
  "addHeader field value r = r\<lparr>headers := hput (map tolower field) value (headers r)\<rparr>"

definition removeHeader :: "string \<Rightarrow> response \<Rightarrow> response" where
  "removeHeader key r = r\<lparr>headers := filter (\<lambda>(k, _). k \<noteq> map tolower key) (headers r)\<rparr>"

definition getHeader :: "string \<Rightarrow> response \<Rightarrow> string" where
  "getHeader key r = (case map_of (headers r) (map tolower key) of None \<Rightarrow> [] | Some v \<Rightarrow> v)"

definition setBody :: "string \<Rightarrow> response \<Rightarrow> response" where
  "setBody b r =
     (let r1 = r\<lparr>body := Some b\<rparr>
      in if passThrough r1 then addHeader ''content-length'' (nat_to_dec (length b)) r1 else r1)"

definition newHttpResponse :: response where
  "newHttpResponse = HttpResponseImpl_with 200 CT_TEXT_HTML"

definition newAsyncStreamResponse :: response where
  "newAsyncStreamResponse = setStatusCode 200 (HttpResponseImpl\<lparr>asyncStream := True\<rparr>)"

lemmas response_defs =
  HttpResponseImpl_def HttpResponseImpl_with_def setStatusCode_def setVersion_def
  setCloseConnection_def setContentTypeCode_def setContentTypeString_def addHeader_def
  removeHeader_def setBody_def newHttpResponse_def newAsyncStreamResponse_def Let_def

section \<open>Rendering\<close>

definition contentLengthIsAllowed :: "response \<Rightarrow> bool" where
  "contentLengthIsAllowed r \<longleftrightarrow>
     (let sc = (if customStatusCode r \<ge> 0 then customStatusCode r else statusCode r)
      in (sc \<ge> 200 \<or> sc < 100) \<and> sc \<noteq> 204)"

definition statusLine :: "response \<Rightarrow> string" where
  "statusLine r =
     (if version r = kHttp11 then ''HTTP/1.1 '' else ''HTTP/1.0 '')
     @ int_to_dec (if customStatusCode r \<ge> 0 then customStatusCode r else statusCode r)
     @ '' '' @ statusMessage r"

definition contentLengthLine :: "response \<Rightarrow> string list" where
  "contentLengthLine r =
     (if \<not> contentLengthIsAllowed r then []
      else if asyncStream r then []
      else if sendfileName r = [] then
        [''content-length: '' @ nat_to_dec (case body r of None \<Rightarrow> 0 | Some b \<Rightarrow> length b)]
      else [''content-length: '' @ nat_to_dec (unat (snd (sendfileRange r)))])"

text \<open>The headers as they are when the header string is made: chunked unless told otherwise.\<close>

definition finalHeaders :: "response \<Rightarrow> (string \<times> string) list" where
  "finalHeaders r =
     (if \<not> passThrough r \<and> contentLengthIsAllowed r \<and> asyncStream r \<and> \<not> closeConnection r
         \<and> ''content-length'' \<notin> fst ` set (headers r)
      then hput ''transfer-encoding'' ''chunked'' (headers r) else headers r)"

definition connectionLine :: "response \<Rightarrow> string list" where
  "connectionLine r =
     (if ''connection'' \<in> fst ` set (finalHeaders r) then []
      else if closeConnection r then [''connection: close'']
      else if version r = kHttp10 then [''connection: Keep-Alive''] else [])"

definition renderLines :: "string list \<Rightarrow> string" where
  "renderLines ls = concat (map (\<lambda>l. l @ CRLF) ls)"

text \<open>\<^verbatim>\<open>makeHeaderString\<close>; \<open>srv\<close> is the server header line, if it is sent.\<close>

definition makeHeaderString :: "string option \<Rightarrow> response \<Rightarrow> string" where
  "makeHeaderString srv r =
     statusLine r @ CRLF
     @ (if passThrough r then []
        else renderLines (contentLengthLine r) @ renderLines (connectionLine r)
             @ (if contentTypeString r = [] then []
                else ''content-type: '' @ contentTypeString r @ CRLF)
             @ (case srv of None \<Rightarrow> [] | Some l \<Rightarrow> l @ CRLF))
     @ renderLines (map (\<lambda>(k, v). k @ '': '' @ v) (finalHeaders r))"

text \<open>\<^verbatim>\<open>renderToBuffer(buffer)\<close> of a response that is not cached (\<^verbatim>\<open>expriedTime_ < 0\<close>).\<close>

definition renderToBuffer :: "string option \<Rightarrow> string option \<Rightarrow> response \<Rightarrow> string" where
  "renderToBuffer srv date r =
     makeHeaderString srv r @ renderLines (cookies r)
     @ (case (passThrough r, date) of
          (False, Some d) \<Rightarrow> ''date: '' @ d @ CRLF @ CRLF
        | _ \<Rightarrow> CRLF)
     @ (case body r of Some b \<Rightarrow> if contentLengthIsAllowed r then b else [] | None \<Rightarrow> [])"

definition renderHeaderForHeadMethod :: "string option \<Rightarrow> string option \<Rightarrow> response \<Rightarrow> string" where
  "renderHeaderForHeadMethod srv date r =
     makeHeaderString srv r @ renderLines (cookies r)
     @ (case (passThrough r, date) of
          (False, Some d) \<Rightarrow> ''date: '' @ d @ CRLF @ CRLF
        | _ \<Rightarrow> CRLF)"

section \<open>File responses\<close>

text \<open>
  \<^verbatim>\<open>newFileResponse(fullPath, offset, length, setContentRange, attachmentFileName, type, typeString)\<close>.
  \<open>file\<close> is the content found at the path (\<open>None\<close> when it cannot be opened), \<open>notFound\<close> the
  application's 404 page, \<open>useSendfile\<close> the application's setting.
\<close>

definition fileContentType ::
  "string \<Rightarrow> string \<Rightarrow> content_type \<Rightarrow> string \<Rightarrow> response \<Rightarrow> response" where
  "fileContentType fullPath attachmentFileName type typeString r =
     (if type = CT_NONE then
        (if typeString \<noteq> [] then
           (let t1 = parseContentType typeString; t2 = (if t1 = CT_NONE then CT_CUSTOM else t1)
            in setContentTypeCodeAndCustomString t2 typeString r)
         else if attachmentFileName \<noteq> [] then setContentTypeCode (getContentType attachmentFileName) r
         else setContentTypeCode (getContentType fullPath) r)
      else if typeString = [] then setContentTypeCode type r
      else setContentTypeCodeAndCustomString type typeString r)"

definition newFileResponse ::
  "response \<Rightarrow> bool \<Rightarrow> string option \<Rightarrow> string \<Rightarrow> size_t \<Rightarrow> size_t \<Rightarrow> bool \<Rightarrow> string \<Rightarrow> content_type
    \<Rightarrow> string \<Rightarrow> response" where
  "newFileResponse notFound useSendfile file fullPath offset len0 setContentRange attachmentFileName
     type typeString =
     (case file of
        None \<Rightarrow> notFound
      | Some content \<Rightarrow>
          let filesize = of_nat (length content) :: size_t in
          if offset > filesize \<or> len0 > filesize \<or> offset + len0 > filesize then
            (let r = setStatusCode 416 HttpResponseImpl
             in if setContentRange
                then addHeader ''Content-Range'' (''bytes */'' @ nat_to_dec (unat filesize)) r else r)
          else
            let len = (if len0 = 0 then filesize - offset else len0);
                r1 = (if useSendfile \<and> len > 204800
                      then HttpResponseImpl\<lparr>sendfileName := fullPath, sendfileRange := (offset, len)\<rparr>
                      else (setBody (take (unat len) (drop (unat offset) content)) HttpResponseImpl)
                             \<lparr>sendfileRange := (offset, len)\<rparr>);
                r2 = setStatusCode (if len < filesize then 206 else 200) r1;
                r3 = fileContentType fullPath attachmentFileName type typeString r2;
                r4 = (if attachmentFileName \<noteq> []
                      then addHeader ''Content-Disposition'' (''attachment; filename='' @ attachmentFileName) r3
                      else r3)
            in if setContentRange \<and> len > 0
               then addHeader ''Content-Range''
                      (''bytes '' @ nat_to_dec (unat offset) @ ''-'' @ nat_to_dec (unat (offset + len - 1))
                       @ ''/'' @ nat_to_dec (unat filesize)) r4
               else r4)"

section \<open>A reference reader for the head of a response\<close>

text \<open>
  How a client splits a response: lines up to the first empty line, then the body. The reader shares
  nothing with the renderer but the line terminator.
\<close>

fun read_line :: "string \<Rightarrow> (string \<times> string) option" where
  "read_line [] = None"
| "read_line (c # cs) =
     (if has_prefix CRLF (c # cs) then Some ([], tl cs)
      else map_option (\<lambda>(l, rest). (c # l, rest)) (read_line cs))"

lemma read_line_shorter: "read_line s = Some (l, rest) \<Longrightarrow> length rest < length s"
proof (induction s arbitrary: l rest)
  case (Cons c cs)
  show ?case
  proof (cases "has_prefix CRLF (c # cs)")
    case True
    with Cons.prems show ?thesis by (cases cs) auto
  next
    case False
    with Cons.prems obtain l' where "read_line cs = Some (l', rest)" by auto
    from Cons.IH [OF this] show ?thesis by simp
  qed
qed simp

function read_head :: "string \<Rightarrow> (string list \<times> string) option" where
  "read_head s =
     (case read_line s of
        None \<Rightarrow> None
      | Some (l, rest) \<Rightarrow>
          if l = [] then Some ([], rest)
          else map_option (\<lambda>(ls, b). (l # ls, b)) (read_head rest))"
  by pat_completeness auto
termination
  by (relation "measure length") (auto dest: read_line_shorter)

declare read_head.simps [simp del]

abbreviation no_cr :: "string \<Rightarrow> bool" where
  "no_cr s \<equiv> CHR 0x0D \<notin> set s"

lemma has_prefix_CRLF_Cons [simp]: "c \<noteq> CHR 0x0D \<Longrightarrow> \<not> has_prefix CRLF (c # s)"
  by (simp add: has_prefix_def CRLF_def)

lemma has_prefix_CRLF [simp]: "has_prefix CRLF (CHR 0x0D # CHR 0x0A # s)"
  by (simp add: has_prefix_def CRLF_def)

lemma read_line_CRLF: "no_cr l \<Longrightarrow> read_line (l @ CRLF @ rest) = Some (l, rest)"
  by (induction l) (auto simp: CRLF_def has_prefix_def)

lemma read_head_lines:
  "list_all (\<lambda>l. l \<noteq> [] \<and> no_cr l) ls \<Longrightarrow> read_head (renderLines ls @ CRLF @ b) = Some (ls, b)"
proof (induction ls)
  case Nil
  show ?case using read_line_CRLF [of "[]" b] by (simp add: renderLines_def read_head.simps)
next
  case (Cons l ls)
  have "read_line (l @ CRLF @ (renderLines ls @ CRLF @ b)) = Some (l, renderLines ls @ CRLF @ b)"
    using Cons.prems by (intro read_line_CRLF) simp
  then show ?case
    using Cons by (subst read_head.simps) (simp add: renderLines_def)
qed

text \<open>The lines of the head in order, and what makes each of them a single line.\<close>

definition head_lines :: "string option \<Rightarrow> string option \<Rightarrow> response \<Rightarrow> string list" where
  "head_lines srv date r =
     statusLine r # contentLengthLine r @ connectionLine r
     @ (if contentTypeString r = [] then [] else [''content-type: '' @ contentTypeString r])
     @ (case srv of None \<Rightarrow> [] | Some l \<Rightarrow> [l])
     @ map (\<lambda>(k, v). k @ '': '' @ v) (finalHeaders r) @ cookies r
     @ (case date of None \<Rightarrow> [] | Some d \<Rightarrow> [''date: '' @ d])"

definition response_clean :: "string option \<Rightarrow> string option \<Rightarrow> response \<Rightarrow> bool" where
  "response_clean srv date r \<longleftrightarrow>
     no_cr (statusMessage r) \<and> no_cr (contentTypeString r)
     \<and> list_all (\<lambda>(k, v). no_cr k \<and> no_cr v) (headers r)
     \<and> list_all (\<lambda>l. l \<noteq> [] \<and> no_cr l) (cookies r)
     \<and> (case srv of None \<Rightarrow> True | Some l \<Rightarrow> l \<noteq> [] \<and> no_cr l)
     \<and> (case date of None \<Rightarrow> True | Some d \<Rightarrow> no_cr d)"

definition sent_body :: "response \<Rightarrow> string" where
  "sent_body r = (case body r of Some b \<Rightarrow> if contentLengthIsAllowed r then b else [] | None \<Rightarrow> [])"

lemma renderLines_simps [simp]:
  "renderLines [] = []" "renderLines (l # ls) = l @ CRLF @ renderLines ls"
  "renderLines (ls @ ls') = renderLines ls @ renderLines ls'"
  by (simp_all add: renderLines_def)

lemma renderToBuffer_lines:
  "\<not> passThrough r \<Longrightarrow>
     renderToBuffer srv date r = renderLines (head_lines srv date r) @ CRLF @ sent_body r"
  by (simp add: renderToBuffer_def makeHeaderString_def head_lines_def sent_body_def split: option.split)

lemma no_cr_dec [simp]: "no_cr (nat_to_dec n)" "no_cr (int_to_dec i)"
proof -
  have n: "no_cr (nat_to_dec n)" for n
    by (auto dest!: nat_to_dec_digits simp: is_digit_def less_eq_char_def)
  show "no_cr (nat_to_dec n)" by (rule n)
  show "no_cr (int_to_dec i)" using n by (auto simp: int_to_dec_def)
qed

lemma list_all_hput:
  "list_all (\<lambda>(k, v). P k v) hs \<Longrightarrow> P k v \<Longrightarrow> list_all (\<lambda>(k, v). P k v) (hput k v hs)"
  by (auto simp: hput_def list_all_iff split: if_splits)

lemma head_lines_clean:
  assumes "response_clean srv date r"
  shows "list_all (\<lambda>l. l \<noteq> [] \<and> no_cr l) (head_lines srv date r)"
proof -
  have "list_all (\<lambda>(k, v). no_cr k \<and> no_cr v) (finalHeaders r)"
    using assms by (auto simp: response_clean_def finalHeaders_def intro: list_all_hput)
  then have "list_all (\<lambda>l. l \<noteq> [] \<and> no_cr l) (map (\<lambda>(k, v). k @ '': '' @ v) (finalHeaders r))"
    by (auto simp: list_all_iff)
  moreover have "statusLine r \<noteq> [] \<and> no_cr (statusLine r)"
    using assms by (auto simp: statusLine_def response_clean_def)
  moreover have "list_all (\<lambda>l. l \<noteq> [] \<and> no_cr l) (contentLengthLine r @ connectionLine r)"
    by (auto simp: contentLengthLine_def connectionLine_def)
  ultimately show ?thesis
    using assms by (auto simp: head_lines_def response_clean_def split: option.splits)
qed



section \<open>File responses serve the requested range\<close>

lemma response_setters_frame [simp]:
  "statusCode (fileContentType fp af ty ts r) = statusCode r"
  "body (fileContentType fp af ty ts r) = body r"
  "sendfileName (fileContentType fp af ty ts r) = sendfileName r"
  "sendfileRange (fileContentType fp af ty ts r) = sendfileRange r"
  "statusCode (addHeader k v r) = statusCode r" "body (addHeader k v r) = body r"
  "sendfileName (addHeader k v r) = sendfileName r"
  "sendfileRange (addHeader k v r) = sendfileRange r"
  "statusCode (setStatusCode c r) = c" "body (setStatusCode c r) = body r"
  "sendfileName (setStatusCode c r) = sendfileName r"
  "sendfileRange (setStatusCode c r) = sendfileRange r"
  by (simp_all add: fileContentType_def setContentTypeCodeAndCustomString_def setContentTypeCode_def
      addHeader_def setStatusCode_def Let_def split: prod.split)

lemma map_of_hput_other:
  assumes "j \<noteq> k"
  shows "map_of (hput k v hs) j = map_of hs j"
proof -
  have "map_of (map (\<lambda>(k', v'). if k' = k then (k, v) else (k', v')) hs) j = map_of hs j"
    using assms by (induction hs) auto
  then show ?thesis using assms by (simp add: hput_def map_add_def split: option.split)
qed

lemma getHeader_addHeader_other:
  "map tolower j \<noteq> map tolower k \<Longrightarrow> getHeader j (addHeader k v r) = getHeader j r"
  by (simp add: getHeader_def addHeader_def map_of_hput_other)

lemma map_of_hput [simp]: "map_of (hput k v hs) k = Some v"
proof (cases "k \<in> fst ` set hs")
  case True
  then have "map_of (map (\<lambda>(k', v'). if k' = k then (k, v) else (k', v')) hs) k = Some v"
    by (induction hs) auto
  with True show ?thesis by (simp add: hput_def)
next
  case False
  then show ?thesis by (simp add: hput_def map_add_def map_of_eq_None_iff [THEN iffD2] split: option.split)
qed

lemma getHeader_addHeader [simp]: "getHeader k (addHeader k v r) = v"
  by (simp add: getHeader_def addHeader_def)

text \<open>The guard of \<^verbatim>\<open>newFileResponse\<close> is exact: no 64-bit sum of an offset and a length wraps past it.\<close>

lemma range_guard_exact:
  fixes off len0 :: size_t
  assumes "n < 2 ^ 63"
  shows "(off > of_nat n \<or> len0 > of_nat n \<or> off + len0 > of_nat n) \<longleftrightarrow> unat off + unat len0 > n"
proof -
  have n: "unat (of_nat n :: size_t) = n"
    using assms by (simp add: unat_of_nat take_bit_nat_eq_self)
  show ?thesis
  proof (cases "unat off \<le> n \<and> unat len0 \<le> n")
    case True
    with assms have "unat (off + len0) = unat off + unat len0"
      by (subst unat_add_lem [THEN iffD1]) auto
    with True n show ?thesis by (auto simp: word_less_nat_alt)
  next
    case False
    with n show ?thesis by (auto simp: word_less_nat_alt)
  qed
qed

definition served_length :: "string \<Rightarrow> size_t \<Rightarrow> size_t \<Rightarrow> nat" where
  "served_length content off len0 =
     (if len0 = 0 then length content - unat off else unat len0)"

lemma file_response_slice:
  assumes "length content < 2 ^ 63"
  shows "let r = newFileResponse nf sf (Some content) path off len0 cr att ty ts;
             n = served_length content off len0
         in if unat off + unat len0 > length content then statusCode r = 416 \<and> body r = None
            else statusCode r = (if n < length content then 206 else 200)
               \<and> unat off + n \<le> length content
               \<and> (if sf \<and> n > 204800
                  then sendfileName r = path \<and> sendfileRange r = (off, of_nat n)
                  else sendfileName r = [] \<and> body r = Some (take n (drop (unat off) content)))
               \<and> (cr \<and> n > 0 \<longrightarrow> getHeader ''Content-Range'' r =
                    ''bytes '' @ nat_to_dec (unat off) @ ''-'' @ nat_to_dec (unat off + n - 1)
                    @ ''/'' @ nat_to_dec (length content))"
proof -
  let ?fs = "of_nat (length content) :: size_t" and ?n = "served_length content off len0"
  have fs: "unat ?fs = length content"
    using assms by (simp add: unat_of_nat take_bit_nat_eq_self)
  note guard = range_guard_exact [OF assms, of off len0]
  show ?thesis
  proof (cases "unat off + unat len0 > length content")
    case True
    with guard show ?thesis by (simp add: newFileResponse_def Let_def response_defs)
  next
    case False
    let ?len = "if len0 = 0 then ?fs - off else len0"
    have "len0 = 0 \<Longrightarrow> unat (?fs - off) = length content - unat off"
      using False fs by (subst unat_sub) (auto simp: word_le_nat_alt)
    then have len: "unat ?len = ?n" by (simp add: served_length_def)
    have le: "unat off + ?n \<le> length content"
      using False by (auto simp: served_length_def unat_eq_0)
    have n0: "?len > 0 \<longleftrightarrow> ?n > 0" "?len > 204800 \<longleftrightarrow> ?n > 204800" "?len < ?fs \<longleftrightarrow> ?n < length content"
      by (simp_all only: word_less_nat_alt len fs) simp_all
    have last: "unat (off + ?len - 1) = unat off + ?n - 1" if "?n > 0"
    proof -
      have s: "unat (off + ?len) = unat off + ?n"
        using le len assms by (subst unat_add_lem [THEN iffD1]) auto
      then show ?thesis using that by (subst unat_minus_one) auto
    qed
    have "of_nat (unat ?len) = ?len" by simp
    then have ofn: "of_nat ?n = ?len" by (simp only: len)
    show ?thesis
      using False guard le n0 last
      by (simp add: newFileResponse_def Let_def fs len ofn) (auto simp: response_defs)
  qed
qed

text \<open>File responses.  For a file smaller than 8 EiB: a range that ends past the end of the file
  (as a mathematical sum, so also one whose 64-bit sum would wrap) is answered 416 without a body;
  otherwise the body (or the \<^verbatim>\<open>sendfile\<close> range, used only above 200 KiB) is exactly the requested
  slice, length 0 meaning up to the end, the status is 206 exactly when the slice is shorter than the
  file, and a requested \<^verbatim>\<open>Content-Range\<close> header describes that slice.\<close>

lemma file_response_range:
  assumes "length content < 2 ^ 63"
  shows "let r = newFileResponse nf sf (Some content) path off len0 cr att ty ts;
             n = served_length content off len0
         in if unat off + unat len0 > length content then statusCode r = 416 \<and> body r = None
            else statusCode r = (if n < length content then 206 else 200)
               \<and> unat off + n \<le> length content
               \<and> (if sf \<and> n > 204800
                  then sendfileName r = path \<and> sendfileRange r = (off, of_nat n)
                  else sendfileName r = [] \<and> body r = Some (take n (drop (unat off) content)))
               \<and> (cr \<and> n > 0 \<longrightarrow> getHeader ''Content-Range'' r =
                    ''bytes '' @ nat_to_dec (unat off) @ ''-'' @ nat_to_dec (unat off + n - 1)
                    @ ''/'' @ nat_to_dec (length content))"
  using assms by (rule file_response_slice)

text \<open>
  The custom content-type string: for a string of one byte \<^verbatim>\<open>sv.size() - 2\<close> wraps to \<^verbatim>\<open>npos\<close>, which
  is also what \<^verbatim>\<open>rfind\<close> returns, so the view gets length \<open>2^64 - 1\<close>; for two bytes or more (none of
  them the prefix) the length is right.
\<close>

lemma custom_type_one_byte:
  assumes "length sv = 1"
  shows "customStringView sv = (0, - 1)"
proof -
  obtain c where "sv = [c]" using assms by (auto simp: length_Suc_conv)
  then show ?thesis
    by (simp add: customStringView_def rfind_crlf_def npos_def has_prefix_def CRLF_def Let_def)
qed

end
