(* ===== verification/RValue.thy ===== *)
theory RValue
  imports Prelude
begin

text \<open>
  The part of R's C API that the bridge works with: the \<^verbatim>\<open>SEXP\<close> shapes it inspects
  (\<^verbatim>\<open>TYPEOF\<close>, \<^verbatim>\<open>LENGTH\<close>, \<^verbatim>\<open>STRING_ELT\<close>, \<^verbatim>\<open>VECTOR_ELT\<close>, the names / class / dim attributes), the
  special values of R's vectors, and the objects pinned with \<^verbatim>\<open>R_PreserveObject\<close>. R itself (the
  evaluator that runs user code) is not part of the program: it appears in the component theories
  as a parameter.
\<close>

section \<open>Values\<close>

datatype charsxp = NA_STRING | Chr string

text \<open>\<^verbatim>\<open>CHAR\<close>: the bytes of a \<^verbatim>\<open>CHARSXP\<close>; R's \<^verbatim>\<open>NA_STRING\<close> holds the two bytes \<^verbatim>\<open>NA\<close>.\<close>

fun R_CHAR :: "charsxp \<Rightarrow> string" where
  "R_CHAR NA_STRING = ''NA''"
| "R_CHAR (Chr s) = c_str s"

text \<open>\<^verbatim>\<open>Rf_mkChar(s.c_str())\<close>.\<close>

definition mkChar :: "string \<Rightarrow> charsxp" where
  "mkChar s = Chr (c_str s)"

lemma R_CHAR_mkChar [simp]: "R_CHAR (mkChar s) = c_str s"
  by (simp add: mkChar_def)

text \<open>A finite IEEE double is \<open>(-1)\<^sup>s m 2\<^sup>e\<close>; the sign of zero is kept.\<close>

datatype dbl = Dbl (dneg: bool) (dmant: nat) (dexp: int)

datatype rdouble = NA_REAL | R_NaN | R_PosInf | R_NegInf | Fin dbl

definition dbl_wf :: "dbl \<Rightarrow> bool" where
  "dbl_wf d \<longleftrightarrow> dmant d < 2 ^ 53 \<and> - 1074 \<le> dexp d \<and> dexp d \<le> 971"

text \<open>The magnitude as a fraction of naturals, and the value as a real.\<close>

definition dbl_num :: "dbl \<Rightarrow> nat" where
  "dbl_num d = dmant d * 2 ^ nat (dexp d)"

definition dbl_den :: "dbl \<Rightarrow> nat" where
  "dbl_den d = 2 ^ nat (- dexp d)"

definition dbl_real :: "dbl \<Rightarrow> real" where
  "dbl_real d = (if dneg d then - 1 else 1) * (real (dbl_num d) / real (dbl_den d))"

lemma dbl_den_pos [simp]: "0 < dbl_den d"
  by (simp add: dbl_den_def)

text \<open>The attributes the bridge reads or sets.\<close>

record sattr =
  a_names :: "charsxp list option"
  a_class :: "charsxp list option"

abbreviation no_attr :: sattr where
  "no_attr \<equiv> \<lparr>a_names = None, a_class = None\<rparr>"

datatype sexp =
    NilSXP
  | LGLSXP sattr "int list"
  | INTSXP sattr "int list"
  | REALSXP sattr "rdouble list"
  | STRSXP sattr "charsxp list"
  | RAWSXP sattr string
  | VECSXP sattr "sexp list"
  | CLOSXP nat
  | EXTPTRSXP nat
  | OtherSXP sattr nat

section \<open>Accessors\<close>

fun attribs :: "sexp \<Rightarrow> sattr" where
  "attribs (LGLSXP a _) = a"
| "attribs (INTSXP a _) = a"
| "attribs (REALSXP a _) = a"
| "attribs (STRSXP a _) = a"
| "attribs (RAWSXP a _) = a"
| "attribs (VECSXP a _) = a"
| "attribs (OtherSXP a _) = a"
| "attribs _ = no_attr"

abbreviation names_of :: "sexp \<Rightarrow> charsxp list option" where
  "names_of x \<equiv> a_names (attribs x)"

abbreviation class_of :: "sexp \<Rightarrow> charsxp list option" where
  "class_of x \<equiv> a_class (attribs x)"

text \<open>
  \<^verbatim>\<open>Rf_getAttrib(x, R_NamesSymbol)\<close> of a vector has the vector's length: R pads a shorter names
  attribute when it is set.
\<close>

definition names_wf :: "charsxp list option \<Rightarrow> nat \<Rightarrow> bool" where
  "names_wf ns n \<longleftrightarrow> (case ns of None \<Rightarrow> True | Some l \<Rightarrow> length l = n)"

text \<open>
  \<^verbatim>\<open>INTEGER(x)[0]\<close> and \<^verbatim>\<open>(int) REAL(x)[0]\<close> without a length or range check: reading element 0 of
  an empty vector, and converting a double that no \<^verbatim>\<open>int\<close> can hold, are undefined in C++. The value
  they yield is the argument \<open>ub\<close>, and the theorems hold for every \<open>ub\<close>.
\<close>

definition int_elt0 :: "int \<Rightarrow> int list \<Rightarrow> int" where
  "int_elt0 ub xs = (case xs of [] \<Rightarrow> ub | x # _ \<Rightarrow> x)"

definition dbl_trunc :: "dbl \<Rightarrow> int" where
  "dbl_trunc d = (if dneg d then - int (dbl_num d div dbl_den d) else int (dbl_num d div dbl_den d))"

definition double_to_int :: "int \<Rightarrow> rdouble \<Rightarrow> int" where
  "double_to_int ub v =
     (case v of
        Fin d \<Rightarrow> (let i = dbl_trunc d in if NA_INTEGER \<le> i \<and> i \<le> INT_MAX then i else ub)
      | _ \<Rightarrow> ub)"

definition double_elt0 :: "int \<Rightarrow> rdouble list \<Rightarrow> int" where
  "double_elt0 ub xs = (case xs of [] \<Rightarrow> ub | x # _ \<Rightarrow> double_to_int ub x)"

text \<open>\<^verbatim>\<open>TYPEOF(x) == STRSXP && LENGTH(x) == 1\<close>, then \<^verbatim>\<open>CHAR(STRING_ELT(x, 0))\<close>.\<close>

fun as_one_string :: "sexp \<Rightarrow> string option" where
  "as_one_string (STRSXP _ [c]) = Some (R_CHAR c)"
| "as_one_string _ = None"

text \<open>\<^verbatim>\<open>TYPEOF(x) == STRSXP && LENGTH(x) >= 1\<close>, then \<^verbatim>\<open>CHAR(STRING_ELT(x, 0))\<close>.\<close>

fun as_first_string :: "sexp \<Rightarrow> string option" where
  "as_first_string (STRSXP _ (c # _)) = Some (R_CHAR c)"
| "as_first_string _ = None"

fun is_closure :: "sexp \<Rightarrow> bool" where
  "is_closure (CLOSXP _) = True"
| "is_closure _ = False"

lemma is_closure_iff: "is_closure x \<longleftrightarrow> (\<exists>n. x = CLOSXP n)"
  by (cases x) auto

text \<open>\<^verbatim>\<open>namedField\<close>: the first element of a named list with that name; \<^verbatim>\<open>R_NilValue\<close> on a miss.\<close>

fun lookup_name :: "string \<Rightarrow> charsxp list \<Rightarrow> 'a list \<Rightarrow> 'a option" where
  "lookup_name nm (c # cs) (x # xs) = (if R_CHAR c = nm then Some x else lookup_name nm cs xs)"
| "lookup_name nm _ _ = None"

fun namedField :: "sexp \<Rightarrow> string \<Rightarrow> sexp" where
  "namedField (VECSXP a xs) nm =
     (case a_names a of
        None \<Rightarrow> NilSXP
      | Some ns \<Rightarrow> (case lookup_name nm ns xs of None \<Rightarrow> NilSXP | Some v \<Rightarrow> v))"
| "namedField _ nm = NilSXP"

text \<open>
  The scanning loops of \<^verbatim>\<open>buildResponse\<close> and \<^verbatim>\<open>drogonR_register_rate_limits\<close> assign in order, so the
  last element with a name wins.
\<close>

fun last_named :: "string \<Rightarrow> charsxp list \<Rightarrow> sexp list \<Rightarrow> sexp \<Rightarrow> sexp" where
  "last_named nm (c # cs) (x # xs) cur = last_named nm cs xs (if R_CHAR c = nm then x else cur)"
| "last_named nm _ _ cur = cur"

section \<open>Preserved objects\<close>

text \<open>
  \<^verbatim>\<open>R_PreserveObject\<close> / \<^verbatim>\<open>R_ReleaseObject\<close> keep a multiset: an object preserved twice needs two
  releases. Releasing an object that is not preserved is a no-op in R.
\<close>

type_synonym preserved = "sexp multiset"

abbreviation preserve :: "sexp \<Rightarrow> preserved \<Rightarrow> preserved" where
  "preserve x p \<equiv> add_mset x p"

abbreviation release :: "sexp \<Rightarrow> preserved \<Rightarrow> preserved" where
  "release x p \<equiv> p - {#x#}"

end
