(* ===== verification/Limiters.thy ===== *)
theory Limiters
  imports Prelude
begin

text \<open>
  The three rate limiters of \<^verbatim>\<open>src/src/drogon/lib/src\<close> (\<^verbatim>\<open>FixedWindowRateLimiter\<close>,
  \<^verbatim>\<open>SlidingWindowRateLimiter\<close>, \<^verbatim>\<open>TokenBucketRateLimiter\<close>) and the factory that makes them.
  \<^verbatim>\<open>steady_clock\<close> ticks are integers (nanoseconds); durations in \<^verbatim>\<open>double\<close> seconds are reals, so
  rounding of the floating-point arithmetic is not modelled. Request counts are naturals: they stay
  below the capacity, which is a \<^verbatim>\<open>size_t\<close>.
\<close>

section \<open>Durations\<close>

definition seconds :: "int \<Rightarrow> real" where
  "seconds ns = of_int ns / 1000000000"

lemma seconds_mono: "a \<le> b \<Longrightarrow> seconds a \<le> seconds b"
  by (simp add: seconds_def divide_right_mono)

lemma seconds_0 [simp]: "seconds 0 = 0"
  by (simp add: seconds_def)

lemma seconds_diff [simp]: "seconds (a - b) = seconds a - seconds b"
  by (simp add: seconds_def diff_divide_distrib)

lemma seconds_ratio: "seconds a / seconds b = of_int a / of_int b"
  by (simp add: seconds_def)

section \<open>The three algorithms\<close>

record token_bucket =
  tb_capacity :: nat
  tb_lastTime :: int
  tb_timeUnit :: real
  tb_tokens :: real

definition TokenBucketRateLimiter :: "int \<Rightarrow> nat \<Rightarrow> real \<Rightarrow> token_bucket" where
  "TokenBucketRateLimiter now capacity timeUnit =
     \<lparr>tb_capacity = capacity, tb_lastTime = now, tb_timeUnit = timeUnit, tb_tokens = real capacity\<rparr>"

definition tb_isAllowed :: "int \<Rightarrow> token_bucket \<Rightarrow> bool \<times> token_bucket" where
  "tb_isAllowed now s =
     (let duration = seconds (now - tb_lastTime s);
          t1 = tb_tokens s + real (tb_capacity s) * (duration / tb_timeUnit s);
          t2 = (if t1 > real (tb_capacity s) then real (tb_capacity s) else t1);
          s1 = s\<lparr>tb_tokens := t2, tb_lastTime := now\<rparr>
      in if tb_tokens s1 > 1 then (True, s1\<lparr>tb_tokens := tb_tokens s1 - 1\<rparr>) else (False, s1))"

record fixed_window =
  fw_capacity :: nat
  fw_currentRequests :: nat
  fw_lastTime :: int
  fw_timeUnit :: real

definition FixedWindowRateLimiter :: "int \<Rightarrow> nat \<Rightarrow> real \<Rightarrow> fixed_window" where
  "FixedWindowRateLimiter now capacity timeUnit =
     \<lparr>fw_capacity = capacity, fw_currentRequests = 0, fw_lastTime = now, fw_timeUnit = timeUnit\<rparr>"

definition fw_isAllowed :: "int \<Rightarrow> fixed_window \<Rightarrow> bool \<times> fixed_window" where
  "fw_isAllowed now s =
     (let s1 = (if seconds (now - fw_lastTime s) \<ge> fw_timeUnit s
                then s\<lparr>fw_currentRequests := 0, fw_lastTime := now\<rparr> else s)
      in if fw_currentRequests s1 < fw_capacity s1
         then (True, s1\<lparr>fw_currentRequests := Suc (fw_currentRequests s1)\<rparr>)
         else (False, s1))"

record sliding_window =
  sw_capacity :: nat
  sw_currentRequests :: nat
  sw_previousRequests :: nat
  sw_unitStartTime :: int
  sw_lastTime :: int
  sw_timeUnit :: real

definition SlidingWindowRateLimiter :: "int \<Rightarrow> nat \<Rightarrow> real \<Rightarrow> sliding_window" where
  "SlidingWindowRateLimiter now capacity timeUnit =
     \<lparr>sw_capacity = capacity, sw_currentRequests = 0, sw_previousRequests = 0,
      sw_unitStartTime = now, sw_lastTime = now, sw_timeUnit = timeUnit\<rparr>"

text \<open>
  The start of the current unit: whole units elapsed, times the unit, cast to ticks (the cast of a
  \<^verbatim>\<open>duration<double>\<close> truncates).
\<close>

definition sw_advance :: "int \<Rightarrow> sliding_window \<Rightarrow> int" where
  "sw_advance now s =
     (let units = \<lfloor>seconds (now - sw_unitStartTime s) / sw_timeUnit s\<rfloor>
      in sw_unitStartTime s + \<lfloor>of_int units * sw_timeUnit s * 1000000000\<rfloor>)"

definition sw_isAllowed :: "int \<Rightarrow> sliding_window \<Rightarrow> bool \<times> sliding_window" where
  "sw_isAllowed now s =
     (let s1 = s\<lparr>sw_unitStartTime := sw_advance now s\<rparr>;
          s2 = (if sw_unitStartTime s1 > sw_lastTime s1
                then s1\<lparr>sw_previousRequests :=
                          (if seconds (sw_unitStartTime s1 - sw_lastTime s1) \<ge> sw_timeUnit s1 then 0
                           else sw_currentRequests s1),
                        sw_currentRequests := 0\<rparr>
                else s1);
          coef = seconds (now - sw_unitStartTime s2) / sw_timeUnit s2;
          count = real (sw_previousRequests s2) * (1 - coef) + real (sw_currentRequests s2)
      in if count < real (sw_capacity s2)
         then (True, s2\<lparr>sw_currentRequests := Suc (sw_currentRequests s2), sw_lastTime := now\<rparr>)
         else (False, s2))"

section \<open>The limiter interface\<close>

datatype RateLimiterType = kFixedWindow | kSlidingWindow | kTokenBucket

definition stringToRateLimiterType :: "string \<Rightarrow> RateLimiterType" where
  "stringToRateLimiterType type =
     (if type = ''fixedWindow'' \<or> type = ''fixed_window'' then kFixedWindow
      else if type = ''slidingWindow'' \<or> type = ''sliding_window'' then kSlidingWindow
      else kTokenBucket)"

datatype limiter = FixedW fixed_window | SlidingW sliding_window | TokenB token_bucket

fun newRateLimiter :: "int \<Rightarrow> RateLimiterType \<Rightarrow> nat \<Rightarrow> real \<Rightarrow> limiter" where
  "newRateLimiter now kFixedWindow capacity timeUnit = FixedW (FixedWindowRateLimiter now capacity timeUnit)"
| "newRateLimiter now kSlidingWindow capacity timeUnit = SlidingW (SlidingWindowRateLimiter now capacity timeUnit)"
| "newRateLimiter now kTokenBucket capacity timeUnit = TokenB (TokenBucketRateLimiter now capacity timeUnit)"

fun isAllowed :: "int \<Rightarrow> limiter \<Rightarrow> bool \<times> limiter" where
  "isAllowed now (FixedW s) = (let (b, s') = fw_isAllowed now s in (b, FixedW s'))"
| "isAllowed now (SlidingW s) = (let (b, s') = sw_isAllowed now s in (b, SlidingW s'))"
| "isAllowed now (TokenB s) = (let (b, s') = tb_isAllowed now s in (b, TokenB s'))"

text \<open>A run of calls at the given clock readings: how many were admitted, and the final state.\<close>

fun run_limiter :: "(int \<Rightarrow> 's \<Rightarrow> bool \<times> 's) \<Rightarrow> int list \<Rightarrow> 's \<Rightarrow> nat \<times> 's" where
  "run_limiter allow [] s = (0, s)"
| "run_limiter allow (now # nows) s =
     (let (b, s1) = allow now s; (n, s2) = run_limiter allow nows s1 in (of_bool b + n, s2))"

text \<open>
  What a limiter owes its users: at any time it holds a budget that is never negative, that an
  admission reduces by one, and that otherwise grows no faster than the configured rate.
\<close>

locale rate_limiter =
  fixes allow :: "int \<Rightarrow> 's \<Rightarrow> bool \<times> 's"
    and ok :: "'s \<Rightarrow> int \<Rightarrow> bool"
    and budget :: "'s \<Rightarrow> int \<Rightarrow> real"
    and rate :: "'s \<Rightarrow> real"
  assumes ok_step: "ok s t \<Longrightarrow> t \<le> now \<Longrightarrow> allow now s = (b, s') \<Longrightarrow> ok s' now"
    and ok_later: "ok s t \<Longrightarrow> t \<le> now \<Longrightarrow> ok s now"
    and budget_nonneg: "ok s t \<Longrightarrow> 0 \<le> budget s t"
    and spend: "ok s t \<Longrightarrow> t \<le> now \<Longrightarrow> allow now s = (b, s') \<Longrightarrow>
      budget s' now + of_bool b \<le> budget s now"
    and accrue: "ok s t \<Longrightarrow> t \<le> now \<Longrightarrow> budget s now \<le> budget s t + rate s * seconds (now - t)"
    and rate_step: "allow now s = (b, s') \<Longrightarrow> rate s' = rate s"
begin

lemma run_bound:
  "ok s t \<Longrightarrow> sorted (t # nows @ [t']) \<Longrightarrow> run_limiter allow nows s = (n, s') \<Longrightarrow>
     ok s' t' \<and> rate s' = rate s \<and> real n + budget s' t' \<le> budget s t + rate s * seconds (t' - t)"
proof (induction nows arbitrary: s t n)
  case Nil
  then show ?case using accrue [of s t t'] ok_later [of s t t'] by simp
next
  case (Cons now nows)
  obtain b s1 where a: "allow now s = (b, s1)" by fastforce
  obtain m where r: "run_limiter allow nows s1 = (m, s')" and n: "n = of_bool b + m"
    using Cons.prems(3) a by (auto split: prod.splits)
  have le: "t \<le> now" and so: "sorted (now # nows @ [t'])" using Cons.prems(2) by auto
  have ih: "ok s' t' \<and> rate s' = rate s1
      \<and> real m + budget s' t' \<le> budget s1 now + rate s1 * seconds (t' - now)"
    using Cons.IH [OF ok_step [OF Cons.prems(1) le a] so r] .
  have "budget s1 now + of_bool b \<le> budget s t + rate s * seconds (now - t)"
    using spend [OF Cons.prems(1) le a] accrue [OF Cons.prems(1) le] by linarith
  with ih n rate_step [OF a] show ?case by (simp add: algebra_simps)
qed

lemma admitted_bound:
  assumes "ok s t" and "sorted (t # nows @ [t'])"
  shows "real (fst (run_limiter allow nows s)) \<le> budget s t + rate s * seconds (t' - t)"
proof -
  obtain n s' where r: "run_limiter allow nows s = (n, s')" by fastforce
  from run_bound [OF assms r] budget_nonneg [of s' t'] show ?thesis by (simp add: r)
qed

end

section \<open>Token bucket\<close>

definition tb_ok :: "token_bucket \<Rightarrow> int \<Rightarrow> bool" where
  "tb_ok s t \<longleftrightarrow> 0 < tb_timeUnit s \<and> tb_lastTime s \<le> t \<and> 0 \<le> tb_tokens s \<and> tb_tokens s \<le> real (tb_capacity s)"

definition tb_rate :: "token_bucket \<Rightarrow> real" where
  "tb_rate s = real (tb_capacity s) / tb_timeUnit s"

definition tb_budget :: "token_bucket \<Rightarrow> int \<Rightarrow> real" where
  "tb_budget s t = min (real (tb_capacity s)) (tb_tokens s + tb_rate s * seconds (t - tb_lastTime s))"

lemma tb_isAllowed_cases:
  "tb_isAllowed now s =
     (let b = tb_budget s now
      in (b > 1, s\<lparr>tb_tokens := (if b > 1 then b - 1 else b), tb_lastTime := now\<rparr>))"
  by (auto simp: tb_isAllowed_def tb_budget_def tb_rate_def Let_def min_def)

lemma tb_rate_nonneg: "tb_ok s t \<Longrightarrow> 0 \<le> tb_rate s"
  by (simp add: tb_ok_def tb_rate_def)

lemma tb_budget_range: "tb_ok s t \<Longrightarrow> 0 \<le> tb_budget s t \<and> tb_budget s t \<le> real (tb_capacity s)"
  using tb_rate_nonneg [of s t] seconds_mono [of "tb_lastTime s" t]
  by (auto simp: tb_budget_def tb_ok_def)

interpretation tb: rate_limiter tb_isAllowed tb_ok tb_budget tb_rate
proof
  fix s :: token_bucket and t now :: int and b and s'
  show "tb_ok s t \<Longrightarrow> t \<le> now \<Longrightarrow> tb_ok s now" by (simp add: tb_ok_def)
  show "tb_ok s t \<Longrightarrow> 0 \<le> tb_budget s t" by (simp add: tb_budget_range)
  show "tb_isAllowed now s = (b, s') \<Longrightarrow> tb_rate s' = tb_rate s"
    by (auto simp: tb_isAllowed_cases tb_rate_def Let_def)
  show "tb_ok s t \<Longrightarrow> t \<le> now \<Longrightarrow> tb_budget s now \<le> tb_budget s t + tb_rate s * seconds (now - t)"
    using mult_left_mono [OF seconds_mono [of t now], OF _ tb_rate_nonneg [of s t]]
    by (simp add: tb_budget_def min_def algebra_simps)
  assume o: "tb_ok s t" "t \<le> now" and a: "tb_isAllowed now s = (b, s')"
  from o have "tb_ok s now" by (simp add: tb_ok_def)
  note r = tb_budget_range [OF this]
  show "tb_ok s' now" using o a r by (auto simp: tb_isAllowed_cases tb_ok_def Let_def)
  show "tb_budget s' now + of_bool b \<le> tb_budget s now"
    using a r by (auto simp: tb_isAllowed_cases tb_budget_def [of s'] tb_rate_def Let_def)
qed

section \<open>Fixed window\<close>

definition fw_ok :: "fixed_window \<Rightarrow> int \<Rightarrow> bool" where
  "fw_ok s t \<longleftrightarrow> 0 < fw_timeUnit s \<and> fw_lastTime s \<le> t \<and> fw_currentRequests s \<le> fw_capacity s"

definition fw_rate :: "fixed_window \<Rightarrow> real" where
  "fw_rate s = real (fw_capacity s) / fw_timeUnit s"

definition fw_budget :: "fixed_window \<Rightarrow> int \<Rightarrow> real" where
  "fw_budget s t =
     real (fw_capacity s) - real (fw_currentRequests s) + fw_rate s * seconds (t - fw_lastTime s)"

lemma fw_rate_unit: "0 < fw_timeUnit s \<Longrightarrow> fw_rate s * fw_timeUnit s = real (fw_capacity s)"
  by (simp add: fw_rate_def)

interpretation fw: rate_limiter fw_isAllowed fw_ok fw_budget fw_rate
proof
  fix s :: fixed_window and t now :: int and b and s'
  show "fw_ok s t \<Longrightarrow> t \<le> now \<Longrightarrow> fw_ok s now" by (simp add: fw_ok_def)
  show "fw_ok s t \<Longrightarrow> 0 \<le> fw_budget s t"
    using seconds_mono [of "fw_lastTime s" t] by (simp add: fw_ok_def fw_budget_def fw_rate_def)
  show "fw_isAllowed now s = (b, s') \<Longrightarrow> fw_rate s' = fw_rate s"
    by (auto simp: fw_isAllowed_def fw_rate_def Let_def split: if_splits)
  show "fw_ok s t \<Longrightarrow> t \<le> now \<Longrightarrow> fw_budget s now \<le> fw_budget s t + fw_rate s * seconds (now - t)"
    by (simp add: fw_budget_def algebra_simps)
  assume o: "fw_ok s t" "t \<le> now" and a: "fw_isAllowed now s = (b, s')"
  then show "fw_ok s' now" by (auto simp: fw_isAllowed_def fw_ok_def Let_def split: if_splits)
  define reset where "reset = s\<lparr>fw_currentRequests := 0, fw_lastTime := now\<rparr>"
  have "fw_budget reset now \<le> fw_budget s now" if "seconds (now - fw_lastTime s) \<ge> fw_timeUnit s"
  proof -
    have "0 \<le> fw_rate s" using o by (simp add: fw_ok_def fw_rate_def)
    from mult_left_mono [OF that this] show ?thesis
      using o fw_rate_unit [of s]
      by (simp add: reset_def fw_budget_def fw_ok_def fw_rate_def)
  qed
  then show "fw_budget s' now + of_bool b \<le> fw_budget s now"
    using a by (auto simp: fw_isAllowed_def reset_def fw_budget_def fw_rate_def Let_def split: if_splits)
qed

section \<open>Sliding window\<close>

text \<open>The unit in clock ticks; the analysis is for units that are a whole number of them.\<close>

definition unit_ticks :: "real \<Rightarrow> int" where
  "unit_ticks u = \<lfloor>u * 1000000000\<rfloor>"

definition whole_ticks :: "real \<Rightarrow> bool" where
  "whole_ticks u \<longleftrightarrow> 0 < u \<and> u = seconds (unit_ticks u)"

lemma whole_ticks_pos: "whole_ticks u \<Longrightarrow> 0 < unit_ticks u"
  by (metis whole_ticks_def seconds_def divide_pos_pos of_int_0_less_iff zero_less_divide_iff
      zero_less_numeral not_less_iff_gr_or_eq)

lemma sw_advance_ticks:
  assumes "whole_ticks (sw_timeUnit s)"
  shows "sw_advance now s =
    sw_unitStartTime s + (now - sw_unitStartTime s) div unit_ticks (sw_timeUnit s) * unit_ticks (sw_timeUnit s)"
proof -
  let ?U = "unit_ticks (sw_timeUnit s)" and ?d = "now - sw_unitStartTime s"
  have u: "sw_timeUnit s = seconds ?U" using assms by (simp add: whole_ticks_def)
  have "\<lfloor>seconds ?d / sw_timeUnit s\<rfloor> = ?d div ?U"
    using u seconds_ratio [of ?d ?U] by (metis floor_divide_of_int_eq)
  moreover have "of_int k * sw_timeUnit s * 1000000000 = of_int (k * ?U)" for k
    by (subst u) (simp add: seconds_def)
  ultimately show ?thesis by (simp only: sw_advance_def Let_def floor_of_int)
qed

definition sw_ok :: "sliding_window \<Rightarrow> int \<Rightarrow> bool" where
  "sw_ok s t \<longleftrightarrow> whole_ticks (sw_timeUnit s) \<and> sw_unitStartTime s \<le> t \<and> sw_lastTime s \<le> t
     \<and> sw_currentRequests s \<le> sw_capacity s
     \<and> sw_lastTime s < sw_unitStartTime s + unit_ticks (sw_timeUnit s)
     \<and> (sw_lastTime s < sw_unitStartTime s \<longrightarrow> sw_currentRequests s = 0)"

definition sw_rate :: "sliding_window \<Rightarrow> real" where
  "sw_rate s = real (sw_capacity s) / sw_timeUnit s"

definition sw_budget :: "sliding_window \<Rightarrow> int \<Rightarrow> real" where
  "sw_budget s t =
     real (sw_capacity s) - real (sw_currentRequests s) + sw_rate s * seconds (t - sw_unitStartTime s)"

text \<open>The state after the first half of the call (the unit moved on), before the admission test.\<close>

definition sw_rolled :: "int \<Rightarrow> sliding_window \<Rightarrow> sliding_window" where
  "sw_rolled now s =
     (let s1 = s\<lparr>sw_unitStartTime := sw_advance now s\<rparr>
      in if sw_unitStartTime s1 > sw_lastTime s1
         then s1\<lparr>sw_previousRequests :=
                   (if seconds (sw_unitStartTime s1 - sw_lastTime s1) \<ge> sw_timeUnit s1 then 0
                    else sw_currentRequests s1),
                 sw_currentRequests := 0\<rparr>
         else s1)"

lemma sw_isAllowed_rolled:
  "sw_isAllowed now s =
     (let s2 = sw_rolled now s;
          coef = seconds (now - sw_unitStartTime s2) / sw_timeUnit s2
      in if real (sw_previousRequests s2) * (1 - coef) + real (sw_currentRequests s2) < real (sw_capacity s2)
         then (True, s2\<lparr>sw_currentRequests := Suc (sw_currentRequests s2), sw_lastTime := now\<rparr>)
         else (False, s2))"
  by (simp add: sw_isAllowed_def sw_rolled_def Let_def)

lemma sw_rolled_frame [simp]:
  "sw_capacity (sw_rolled now s) = sw_capacity s" "sw_timeUnit (sw_rolled now s) = sw_timeUnit s"
  "sw_lastTime (sw_rolled now s) = sw_lastTime s"
  "sw_unitStartTime (sw_rolled now s) = sw_advance now s"
  by (simp_all add: sw_rolled_def Let_def)

lemma sw_rate_rolled [simp]: "sw_rate (sw_rolled now s) = sw_rate s"
  by (simp add: sw_rate_def)

lemma sw_advance_range:
  assumes "sw_ok s t" and "t \<le> now"
  shows "sw_advance now s \<le> now" and "now < sw_advance now s + unit_ticks (sw_timeUnit s)"
    and "sw_advance now s = sw_unitStartTime s \<or> sw_unitStartTime s + unit_ticks (sw_timeUnit s) \<le> sw_advance now s"
proof -
  let ?U = "unit_ticks (sw_timeUnit s)" and ?d = "now - sw_unitStartTime s"
  have w: "whole_ticks (sw_timeUnit s)" and d: "0 \<le> ?d" using assms by (auto simp: sw_ok_def)
  have U: "0 < ?U" by (rule whole_ticks_pos [OF w])
  note a = sw_advance_ticks [OF w, of now] and m = div_mult_mod_eq [of ?d ?U]
  show "sw_advance now s \<le> now" using a m pos_mod_sign [OF U, of ?d] by linarith
  show "now < sw_advance now s + ?U" using a m pos_mod_bound [OF U, of ?d] by linarith
  have "0 \<le> ?d div ?U" using d U by (simp add: pos_imp_zdiv_nonneg_iff)
  then have "?d div ?U = 0 \<or> 1 \<le> ?d div ?U" by linarith
  then show "sw_advance now s = sw_unitStartTime s \<or> sw_unitStartTime s + ?U \<le> sw_advance now s"
    using a U mult_right_mono [of 1 "?d div ?U" ?U] by auto
qed

lemma sw_rolled_current:
  assumes "sw_ok s t" and "t \<le> now"
  shows "sw_currentRequests (sw_rolled now s) =
    (if sw_advance now s = sw_unitStartTime s then sw_currentRequests s else 0)"
  using assms sw_advance_range(3) [OF assms] by (auto simp: sw_rolled_def sw_ok_def Let_def)

lemma sw_rolled_budget:
  assumes "sw_ok s t" and "t \<le> now"
  shows "sw_budget (sw_rolled now s) now \<le> sw_budget s now"
proof (cases "sw_advance now s = sw_unitStartTime s")
  case True
  then show ?thesis by (simp add: sw_budget_def sw_rolled_current [OF assms])
next
  case False
  let ?U = "unit_ticks (sw_timeUnit s)"
  have u: "sw_timeUnit s = seconds ?U" and p: "0 < sw_timeUnit s"
    using assms(1) by (auto simp: sw_ok_def whole_ticks_def)
  have "seconds ?U \<le> seconds (sw_advance now s - sw_unitStartTime s)"
    using False sw_advance_range(3) [OF assms] by (intro seconds_mono) simp
  then have "real (sw_capacity s) \<le> sw_rate s * seconds (sw_advance now s - sw_unitStartTime s)"
    using p u mult_left_mono [of "sw_timeUnit s" _ "sw_rate s"] by (fastforce simp: sw_rate_def)
  with False assms(1) show ?thesis
    by (simp add: sw_budget_def sw_rolled_current [OF assms] sw_ok_def algebra_simps)
qed

lemma sw_admits_below_capacity:
  assumes "sw_ok s t" and "t \<le> now" and "sw_isAllowed now s = (True, s')"
  shows "sw_currentRequests (sw_rolled now s) < sw_capacity s"
proof -
  let ?c = "seconds (now - sw_advance now s) / sw_timeUnit s"
  have u: "sw_timeUnit s = seconds (unit_ticks (sw_timeUnit s))" "0 < sw_timeUnit s"
    using assms(1) by (auto simp: sw_ok_def whole_ticks_def)
  have "seconds (now - sw_advance now s) \<le> seconds (unit_ticks (sw_timeUnit s))"
    using sw_advance_range(2) [OF assms(1,2)] by (intro seconds_mono) simp
  then have "?c \<le> 1" using u by simp
  then have "0 \<le> real (sw_previousRequests (sw_rolled now s)) * (1 - ?c)" by simp
  with assms(3) show ?thesis by (auto simp: sw_isAllowed_rolled Let_def split: if_splits)
qed

interpretation sw: rate_limiter sw_isAllowed sw_ok sw_budget sw_rate
proof
  fix s :: sliding_window and t now :: int and b and s'
  show "sw_ok s t \<Longrightarrow> t \<le> now \<Longrightarrow> sw_ok s now" by (auto simp: sw_ok_def)
  show "sw_ok s t \<Longrightarrow> 0 \<le> sw_budget s t"
    using seconds_mono [of "sw_unitStartTime s" t]
    by (auto simp: sw_ok_def sw_budget_def sw_rate_def whole_ticks_def)
  show "sw_isAllowed now s = (b, s') \<Longrightarrow> sw_rate s' = sw_rate s"
    by (auto simp: sw_isAllowed_rolled sw_rate_def Let_def split: if_splits)
  show "sw_ok s t \<Longrightarrow> t \<le> now \<Longrightarrow> sw_budget s now \<le> sw_budget s t + sw_rate s * seconds (now - t)"
    by (simp add: sw_budget_def algebra_simps)
  assume o: "sw_ok s t" "t \<le> now" and a: "sw_isAllowed now s = (b, s')"
  show "sw_budget s' now + of_bool b \<le> sw_budget s now"
    using a sw_rolled_budget [OF o]
    by (auto simp: sw_isAllowed_rolled sw_budget_def sw_rate_def Let_def split: if_splits)
  show "sw_ok s' now"
  proof (cases b)
    case True
    with a sw_admits_below_capacity [OF o] sw_advance_range [OF o] o show ?thesis
      by (auto simp: sw_isAllowed_rolled sw_ok_def Let_def split: if_splits)
  next
    case False
    with a have "s' = sw_rolled now s" by (auto simp: sw_isAllowed_rolled Let_def split: if_splits)
    with sw_rolled_current [OF o] sw_advance_range [OF o] o show ?thesis
      by (auto simp: sw_ok_def)
  qed
qed

section \<open>Any limiter\<close>

fun lim_ok :: "limiter \<Rightarrow> int \<Rightarrow> bool" where
  "lim_ok (FixedW s) t = fw_ok s t"
| "lim_ok (SlidingW s) t = sw_ok s t"
| "lim_ok (TokenB s) t = tb_ok s t"

fun lim_budget :: "limiter \<Rightarrow> int \<Rightarrow> real" where
  "lim_budget (FixedW s) t = fw_budget s t"
| "lim_budget (SlidingW s) t = sw_budget s t"
| "lim_budget (TokenB s) t = tb_budget s t"

fun lim_rate :: "limiter \<Rightarrow> real" where
  "lim_rate (FixedW s) = fw_rate s"
| "lim_rate (SlidingW s) = sw_rate s"
| "lim_rate (TokenB s) = tb_rate s"

interpretation lim: rate_limiter isAllowed lim_ok lim_budget lim_rate
proof
  fix s :: limiter and t now :: int and b and s'
  show "lim_ok s t \<Longrightarrow> t \<le> now \<Longrightarrow> isAllowed now s = (b, s') \<Longrightarrow> lim_ok s' now"
    by (cases s) (auto split: prod.splits intro: fw.ok_step sw.ok_step tb.ok_step)
  show "lim_ok s t \<Longrightarrow> t \<le> now \<Longrightarrow> lim_ok s now"
    by (cases s) (auto intro: fw.ok_later sw.ok_later tb.ok_later)
  show "lim_ok s t \<Longrightarrow> 0 \<le> lim_budget s t"
    by (cases s) (auto intro: fw.budget_nonneg sw.budget_nonneg tb.budget_nonneg)
  show "lim_ok s t \<Longrightarrow> t \<le> now \<Longrightarrow> isAllowed now s = (b, s') \<Longrightarrow>
      lim_budget s' now + of_bool b \<le> lim_budget s now"
    by (cases s) (auto split: prod.splits dest: fw.spend sw.spend tb.spend)
  show "lim_ok s t \<Longrightarrow> t \<le> now \<Longrightarrow> lim_budget s now \<le> lim_budget s t + lim_rate s * seconds (now - t)"
    by (cases s) (use fw.accrue sw.accrue tb.accrue in auto)
  show "isAllowed now s = (b, s') \<Longrightarrow> lim_rate s' = lim_rate s"
    by (cases s) (auto split: prod.splits intro: fw.rate_step sw.rate_step tb.rate_step)
qed

section \<open>Properties\<close>

lemma new_limiter_ok:
  "whole_ticks timeUnit \<Longrightarrow> lim_ok (newRateLimiter now type capacity timeUnit) now"
  using whole_ticks_pos [of timeUnit]
  by (cases type)
    (auto simp: whole_ticks_def FixedWindowRateLimiter_def SlidingWindowRateLimiter_def
      TokenBucketRateLimiter_def fw_ok_def sw_ok_def tb_ok_def)

lemma new_limiter_budget:
  "lim_budget (newRateLimiter now type capacity timeUnit) now = real capacity"
  by (cases type)
    (simp_all add: FixedWindowRateLimiter_def SlidingWindowRateLimiter_def
      TokenBucketRateLimiter_def fw_budget_def sw_budget_def tb_budget_def)

lemma new_limiter_rate:
  "lim_rate (newRateLimiter now type capacity timeUnit) = real capacity / timeUnit"
  by (cases type)
    (simp_all add: FixedWindowRateLimiter_def SlidingWindowRateLimiter_def
      TokenBucketRateLimiter_def fw_rate_def sw_rate_def tb_rate_def)

text \<open>(C19) Every limiter enforces its rate.  A limiter of any of the three kinds, made at clock reading
  \<open>t0\<close> for \<open>capacity\<close> requests per \<open>timeUnit\<close> (a whole positive number of clock ticks), admits at most
  \<open>capacity * (1 + d / timeUnit)\<close> of the calls made in the first \<open>d\<close> seconds, however they are
  spread.\<close>

theorem limiter_rate_bound:
  assumes "whole_ticks timeUnit" and "sorted (t0 # nows @ [t1])"
  shows "real (fst (run_limiter isAllowed nows (newRateLimiter t0 type capacity timeUnit)))
       \<le> real capacity * (1 + seconds (t1 - t0) / timeUnit)"
  using lim.admitted_bound [OF new_limiter_ok [OF assms(1)] assms(2), of type capacity]
  by (simp add: new_limiter_budget new_limiter_rate algebra_simps diff_divide_distrib)

theorem limiter_rate_bound_witness:
  "whole_ticks 60 \<and> fst (run_limiter isAllowed [0, 1, 2, 3] (newRateLimiter 0 kFixedWindow 2 60)) = 2
   \<and> real (fst (run_limiter isAllowed [0, 1, 2, 3] (newRateLimiter 0 kFixedWindow 2 60)))
       \<le> 2 * (1 + seconds 3 / 60)"
proof -
  have w: "whole_ticks 60" by (simp add: whole_ticks_def unit_ticks_def seconds_def)
  have "fst (run_limiter isAllowed [0, 1, 2, 3] (newRateLimiter 0 kFixedWindow 2 60)) = 2"
    by (simp add: fw_isAllowed_def FixedWindowRateLimiter_def seconds_def Let_def)
  with w limiter_rate_bound [OF w, of 0 "[0, 1, 2, 3]" 3 kFixedWindow 2] show ?thesis by simp
qed

lemma fw_first_unit:
  "\<forall>now \<in> set nows. seconds (now - fw_lastTime s) < fw_timeUnit s \<Longrightarrow>
     fw_currentRequests s \<le> fw_capacity s \<Longrightarrow>
     fst (run_limiter fw_isAllowed nows s) = min (length nows) (fw_capacity s - fw_currentRequests s)"
proof (induction nows arbitrary: s)
  case (Cons now nows)
  let ?s1 = "if fw_currentRequests s < fw_capacity s
    then s\<lparr>fw_currentRequests := Suc (fw_currentRequests s)\<rparr> else s"
  have a: "fw_isAllowed now s = (fw_currentRequests s < fw_capacity s, ?s1)"
    using Cons.prems by (simp add: fw_isAllowed_def Let_def not_le)
  show ?case using Cons.IH [of ?s1] Cons.prems by (auto simp: a split: prod.splits)
qed simp

lemma sw_first_unit:
  assumes "whole_ticks (sw_timeUnit s)"
  shows "\<forall>now \<in> set nows. sw_unitStartTime s \<le> now \<and> seconds (now - sw_unitStartTime s) < sw_timeUnit s \<Longrightarrow>
     sw_previousRequests s = 0 \<Longrightarrow> sw_unitStartTime s \<le> sw_lastTime s \<Longrightarrow>
     sw_currentRequests s \<le> sw_capacity s \<Longrightarrow>
     fst (run_limiter sw_isAllowed nows s) = min (length nows) (sw_capacity s - sw_currentRequests s)"
  using assms
proof (induction nows arbitrary: s)
  case (Cons now nows)
  let ?s1 = "if sw_currentRequests s < sw_capacity s
    then s\<lparr>sw_currentRequests := Suc (sw_currentRequests s), sw_lastTime := now\<rparr> else s"
  have "0 \<le> seconds (now - sw_unitStartTime s) / sw_timeUnit s"
    "seconds (now - sw_unitStartTime s) / sw_timeUnit s < 1"
    using Cons.prems seconds_mono [of "sw_unitStartTime s" now] by (auto simp: whole_ticks_def)
  then have "\<lfloor>seconds (now - sw_unitStartTime s) / sw_timeUnit s\<rfloor> = 0" by (simp add: floor_eq_iff)
  then have adv: "sw_advance now s = sw_unitStartTime s" by (simp add: sw_advance_def)
  have a: "sw_isAllowed now s = (sw_currentRequests s < sw_capacity s, ?s1)"
    using Cons.prems adv by (simp add: sw_isAllowed_def Let_def)
  show ?case using Cons.IH [of ?s1] Cons.prems by (auto simp: a split: prod.splits)
qed simp

lemma run_limiter_FixedW: "fst (run_limiter isAllowed nows (FixedW s)) = fst (run_limiter fw_isAllowed nows s)"
  by (induction nows arbitrary: s) (auto simp: split_beta)

lemma run_limiter_SlidingW: "fst (run_limiter isAllowed nows (SlidingW s)) = fst (run_limiter sw_isAllowed nows s)"
  by (induction nows arbitrary: s) (auto simp: split_beta)

lemma run_limiter_TokenB: "fst (run_limiter isAllowed nows (TokenB s)) = fst (run_limiter tb_isAllowed nows s)"
  by (induction nows arbitrary: s) (auto simp: split_beta)

text \<open>The windowed limiters are exact inside their first unit: a fresh fixed or sliding window
  limiter admits the first \<open>capacity\<close> calls made before the unit ends and refuses all the others.\<close>

lemma windowed_limiter_exact:
  assumes "whole_ticks timeUnit" and "type \<noteq> kTokenBucket"
    and "\<forall>now \<in> set nows. t0 \<le> now \<and> seconds (now - t0) < timeUnit"
  shows "fst (run_limiter isAllowed nows (newRateLimiter t0 type capacity timeUnit))
       = min (length nows) capacity"
proof (cases type)
  case kFixedWindow
  with assms(3) fw_first_unit [of nows "FixedWindowRateLimiter t0 capacity timeUnit"] show ?thesis
    by (simp add: run_limiter_FixedW) (simp add: FixedWindowRateLimiter_def)
next
  case kSlidingWindow
  with assms sw_first_unit [of "SlidingWindowRateLimiter t0 capacity timeUnit" nows] show ?thesis
    by (simp add: run_limiter_SlidingW) (simp add: SlidingWindowRateLimiter_def)
qed (use assms in simp)

lemma tb_burst:
  "tb_tokens s \<le> real (tb_capacity s) \<Longrightarrow> tb_tokens s = real k \<Longrightarrow> tb_lastTime s = t \<Longrightarrow>
     fst (run_limiter tb_isAllowed (replicate n t) s) = min n (k - 1)"
proof (induction n arbitrary: s k)
  case (Suc n)
  have b: "tb_budget s t = real k" using Suc.prems by (simp add: tb_budget_def)
  show ?case
  proof (cases "k > 1")
    case True
    then have "fst (run_limiter tb_isAllowed (replicate n t) (s\<lparr>tb_tokens := real k - 1, tb_lastTime := t\<rparr>))
        = min n (k - 1 - 1)"
      using Suc.prems by (intro Suc.IH) auto
    with True b show ?thesis by (auto simp: tb_isAllowed_cases [of t s] Let_def split_beta)
  next
    case False
    then have "fst (run_limiter tb_isAllowed (replicate n t) (s\<lparr>tb_tokens := real k, tb_lastTime := t\<rparr>))
        = min n (k - 1)"
      using Suc.prems by (intro Suc.IH) auto
    with False b show ?thesis by (auto simp: tb_isAllowed_cases [of t s] Let_def split_beta)
  qed
qed simp

lemma tb_capacity_one_refuses:
  "tb_capacity s \<le> 1 \<Longrightarrow> fst (run_limiter tb_isAllowed nows s) = 0"
proof (induction nows arbitrary: s)
  case (Cons now nows)
  then have "tb_budget s now \<le> 1" by (simp add: tb_budget_def min_def)
  with Cons show ?case by (simp add: tb_isAllowed_cases [of now s] Let_def split_beta)
qed simp

text \<open>The token bucket gives one request less than its capacity.  The test is \<^verbatim>\<open>tokens_ > 1.0\<close>, so
  a burst on a fresh bucket of capacity \<open>n\<close> has \<open>n - 1\<close> requests admitted, and a bucket of capacity 1
  never admits any request, at any time.\<close>

lemma token_bucket_one_short:
  "fst (run_limiter isAllowed (replicate n t0) (newRateLimiter t0 kTokenBucket capacity timeUnit))
     = min n (capacity - 1)
   \<and> fst (run_limiter isAllowed nows (newRateLimiter t0 kTokenBucket 1 timeUnit)) = 0"
  using tb_burst [of "TokenBucketRateLimiter t0 capacity timeUnit" capacity t0 n]
    tb_capacity_one_refuses [of "TokenBucketRateLimiter t0 1 timeUnit" nows]
  by (simp add: run_limiter_TokenB) (simp add: TokenBucketRateLimiter_def)

text \<open>A refusal at a unit boundary erases the sliding window's memory.  Two requests late in the
  first unit use up a capacity of 2. A call at the exact start of the next unit is refused, as the
  sliding count asks; but the refusal leaves \<^verbatim>\<open>lastTime_\<close> behind, the next call rolls the unit again
  and overwrites \<^verbatim>\<open>previousRequests_\<close> with the reset counter, and two more requests are admitted one
  tick later: four within one tenth of the unit. Without the refused call only one is admitted.\<close>

lemma sliding_window_boundary_refusal:
  "let lim = newRateLimiter 0 kSlidingWindow 2 1;
       early = [900000000, 900000000]; late = [1000000001, 1000000001]
   in fst (run_limiter isAllowed (early @ [1000000000] @ late) lim) = 4
      \<and> fst (run_limiter isAllowed (early @ late) lim) = 3"
  by (simp add: sw_isAllowed_def sw_advance_def SlidingWindowRateLimiter_def seconds_def Let_def)

end
