(* ===== verification/RateLimits.thy ===== *)
theory RateLimits
  imports HttpMessage RValue Limiters
begin

text \<open>
  The rate-limit rules of \<^verbatim>\<open>src/src/drogon_server.cpp\<close>: their registration from R, the limiters
  they attach to each route at install time (shared for a global rule, fresh for a per-route rule),
  and the check that every request makes before it is dispatched. A limiter is a shared object
  (\<^verbatim>\<open>shared_ptr<SafeRateLimiter>\<close>, whose mutex makes each call atomic): a heap maps its index to its
  state. \<open>clk\<close> gives the clock readings.
\<close>

section \<open>Rules\<close>

record RateLimitRule =
  rl_capacity :: int
  rl_window :: real
  rl_type :: RateLimiterType
  rl_global_scope :: bool
  rl_route_prefixes :: "string list"
  rl_shared_limiter :: "nat option"

type_synonym limheap = "limiter list"

record RouteLimiters =
  rtl_limiters :: "nat list"
  rtl_max_window :: real

definition rule_matches :: "string \<Rightarrow> RateLimitRule \<Rightarrow> bool" where
  "rule_matches path rule \<longleftrightarrow>
     rl_route_prefixes rule = [] \<or> list_ex (\<lambda>pfx. has_prefix pfx path) (rl_route_prefixes rule)"

text \<open>\<^verbatim>\<open>static_cast<size_t>(rule.capacity)\<close>: a negative capacity wraps.\<close>

definition rule_capacity :: "RateLimitRule \<Rightarrow> nat" where
  "rule_capacity rule = unat (word_of_int (rl_capacity rule) :: size_t)"

definition newLimiter :: "(nat \<Rightarrow> int) \<Rightarrow> RateLimitRule \<Rightarrow> limheap \<Rightarrow> nat \<times> limheap" where
  "newLimiter clk rule h =
     (length h,
      h @ [newRateLimiter (clk (length h)) (rl_type rule) (rule_capacity rule) (rl_window rule)])"

text \<open>The loop body of \<^verbatim>\<open>buildLimitersForPath\<close> for one rule, and the loop.\<close>

definition applyRule ::
  "(nat \<Rightarrow> int) \<Rightarrow> string \<Rightarrow> RateLimitRule \<Rightarrow> RouteLimiters \<Rightarrow> limheap
    \<Rightarrow> RateLimitRule \<times> RouteLimiters \<times> limheap" where
  "applyRule clk path rule rl h =
     (if \<not> rule_matches path rule then (rule, rl, h)
      else
        let (rule1, lid, h1) =
              (if rl_global_scope rule then
                 (case rl_shared_limiter rule of
                    Some lid \<Rightarrow> (rule, lid, h)
                  | None \<Rightarrow> let (lid, h1) = newLimiter clk rule h
                            in (rule\<lparr>rl_shared_limiter := Some lid\<rparr>, lid, h1))
               else let (lid, h1) = newLimiter clk rule h in (rule, lid, h1))
        in (rule1,
            \<lparr>rtl_limiters = rtl_limiters rl @ [lid],
             rtl_max_window = (if rl_window rule > rtl_max_window rl then rl_window rule else rtl_max_window rl)\<rparr>,
            h1))"

fun applyRules ::
  "(nat \<Rightarrow> int) \<Rightarrow> string \<Rightarrow> RateLimitRule list \<Rightarrow> RouteLimiters \<Rightarrow> limheap
    \<Rightarrow> RateLimitRule list \<times> RouteLimiters \<times> limheap" where
  "applyRules clk path [] rl h = ([], rl, h)"
| "applyRules clk path (rule # rules) rl h =
     (let (rule1, rl1, h1) = applyRule clk path rule rl h;
          (rules1, rl2, h2) = applyRules clk path rules rl1 h1
      in (rule1 # rules1, rl2, h2))"

definition buildLimitersForPath ::
  "(nat \<Rightarrow> int) \<Rightarrow> string \<Rightarrow> RateLimitRule list \<Rightarrow> limheap
    \<Rightarrow> RateLimitRule list \<times> RouteLimiters \<times> limheap" where
  "buildLimitersForPath clk path rules h =
     applyRules clk path rules \<lparr>rtl_limiters = [], rtl_max_window = 0\<rparr> h"

section \<open>The check\<close>

text \<open>\<^verbatim>\<open>(int) std::ceil(retry_after_s)\<close> is undefined above \<^verbatim>\<open>INT_MAX\<close>: it yields \<open>ub\<close> there.\<close>

definition retrySeconds :: "int \<Rightarrow> real \<Rightarrow> int" where
  "retrySeconds ub retry_after_s =
     (if retry_after_s > 0 then (let c = \<lceil>retry_after_s\<rceil> in if c \<le> INT_MAX then c else ub) else 1)"

definition makeRateLimitResponse :: "int \<Rightarrow> real \<Rightarrow> response" where
  "makeRateLimitResponse ub retry_after_s =
     addHeader ''Retry-After'' (int_to_dec (retrySeconds ub retry_after_s))
       (setBody ''429 Too Many Requests''
         (setContentTypeCode CT_TEXT_PLAIN (setStatusCode 429 newHttpResponse)))"

text \<open>The limiters are consulted in order until one refuses; \<open>clk i\<close> is the reading at the \<open>i\<close>-th.\<close>

fun checkLimiters :: "(nat \<Rightarrow> int) \<Rightarrow> nat list \<Rightarrow> limheap \<Rightarrow> bool \<times> limheap" where
  "checkLimiters clk [] h = (True, h)"
| "checkLimiters clk (lid # lids) h =
     (let (ok, lim) = isAllowed (clk 0) (h ! lid); h1 = h[lid := lim]
      in if ok then checkLimiters (\<lambda>i. clk (Suc i)) lids h1 else (False, h1))"

definition checkRateLimits ::
  "int \<Rightarrow> (nat \<Rightarrow> int) \<Rightarrow> RouteLimiters \<Rightarrow> limheap \<Rightarrow> response option \<times> limheap" where
  "checkRateLimits ub clk rl h =
     (case checkLimiters clk (rtl_limiters rl) h of
        (True, h1) \<Rightarrow> (None, h1)
      | (False, h1) \<Rightarrow> (Some (makeRateLimitResponse ub (rtl_max_window rl)), h1))"

section \<open>Registration\<close>

text \<open>
  The errors of \<^verbatim>\<open>drogonR_register_rate_limits\<close>; the number is the rule's position. An infinite or NaN
  window is accepted by the code, but what the limiters then compute is floating-point behaviour
  outside the real-number model: \<open>NonFiniteWindow\<close> marks where the model stops.
\<close>

datatype rl_error =
    ServerRunning
  | RulesNotList
  | RuleNotList nat
  | RuleUnnamed nat
  | MissingField nat
  | BadCapacity nat
  | BadWindow nat
  | BadType nat
  | BadScope nat
  | UnknownType nat string
  | UnknownScope nat string
  | BadRoutes nat
  | NonFiniteWindow nat

fun one_int :: "int \<Rightarrow> sexp \<Rightarrow> int option" where
  "one_int ub (INTSXP _ [i]) = Some i"
| "one_int ub (REALSXP _ [d]) = Some (double_to_int ub d)"
| "one_int ub _ = None"

fun one_double :: "sexp \<Rightarrow> rdouble option" where
  "one_double (REALSXP _ [d]) = Some d"
| "one_double _ = None"

fun route_strings :: "sexp \<Rightarrow> string list option" where
  "route_strings NilSXP = Some []"
| "route_strings (STRSXP _ cs) = Some (map R_CHAR cs)"
| "route_strings _ = None"

definition limiter_type_of :: "string \<Rightarrow> RateLimiterType option" where
  "limiter_type_of s =
     (if s = ''sliding_window'' then Some kSlidingWindow
      else if s = ''fixed_window'' then Some kFixedWindow
      else if s = ''token_bucket'' then Some kTokenBucket
      else None)"

definition scope_of :: "string \<Rightarrow> bool option" where
  "scope_of s = (if s = ''global'' then Some True else if s = ''per_route'' then Some False else None)"

text \<open>One iteration of the registration loop.\<close>

definition parseRule :: "int \<Rightarrow> nat \<Rightarrow> sexp \<Rightarrow> rl_error + RateLimitRule" where
  "parseRule ub i rule =
     (case rule of
        VECSXP a vals \<Rightarrow>
          (case a_names a of
             None \<Rightarrow> Inl (RuleUnnamed i)
           | Some ns \<Rightarrow>
               let capacity = last_named ''capacity'' ns vals NilSXP;
                   window = last_named ''window'' ns vals NilSXP;
                   type = last_named ''type'' ns vals NilSXP;
                   scope = last_named ''scope'' ns vals NilSXP;
                   routes = last_named ''routes'' ns vals NilSXP
               in if capacity = NilSXP \<or> window = NilSXP \<or> type = NilSXP \<or> scope = NilSXP
                  then Inl (MissingField i)
                  else (case one_int ub capacity of
                    None \<Rightarrow> Inl (BadCapacity i)
                  | Some cap \<Rightarrow> (case one_double window of
                      None \<Rightarrow> Inl (BadWindow i)
                    | Some win \<Rightarrow> (case as_one_string type of
                        None \<Rightarrow> Inl (BadType i)
                      | Some type_s \<Rightarrow> (case as_one_string scope of
                          None \<Rightarrow> Inl (BadScope i)
                        | Some scope_s \<Rightarrow> (case limiter_type_of type_s of
                            None \<Rightarrow> Inl (UnknownType i type_s)
                          | Some ty \<Rightarrow> (case scope_of scope_s of
                              None \<Rightarrow> Inl (UnknownScope i scope_s)
                            | Some glob \<Rightarrow> (case route_strings routes of
                                None \<Rightarrow> Inl (BadRoutes i)
                              | Some prefixes \<Rightarrow> (case win of
                                  Fin d \<Rightarrow> Inr \<lparr>rl_capacity = cap, rl_window = dbl_real d, rl_type = ty,
                                             rl_global_scope = glob, rl_route_prefixes = prefixes,
                                             rl_shared_limiter = None\<rparr>
                                | _ \<Rightarrow> Inl (NonFiniteWindow i))))))))))
      | _ \<Rightarrow> Inl (RuleNotList i))"

text \<open>The loop pushes rule by rule: an error leaves the rules before it in the table.\<close>

fun parseRules :: "int \<Rightarrow> nat \<Rightarrow> sexp list \<Rightarrow> RateLimitRule list \<Rightarrow> rl_error option \<times> RateLimitRule list" where
  "parseRules ub i [] acc = (None, acc)"
| "parseRules ub i (x # xs) acc =
     (case parseRule ub i x of
        Inl e \<Rightarrow> (Some e, acc)
      | Inr rule \<Rightarrow> parseRules ub (Suc i) xs (acc @ [rule]))"

definition drogonR_register_rate_limits ::
  "int \<Rightarrow> bool \<Rightarrow> sexp \<Rightarrow> RateLimitRule list \<Rightarrow> rl_error option \<times> RateLimitRule list" where
  "drogonR_register_rate_limits ub running rules g_rateLimitRules =
     (if running then (Some ServerRunning, g_rateLimitRules)
      else (case rules of
              NilSXP \<Rightarrow> (None, [])
            | VECSXP _ xs \<Rightarrow> parseRules ub 1 xs []
            | _ \<Rightarrow> (Some RulesNotList, g_rateLimitRules)))"

section \<open>Which routes share a limiter\<close>

definition extends :: "limheap \<Rightarrow> limheap \<Rightarrow> bool" where
  "extends h h1 \<longleftrightarrow> (\<exists>ext. h1 = h @ ext)"

lemma extends_refl [simp]: "extends h h"
  by (simp add: extends_def)

lemma extends_snoc [simp]: "extends h (h @ ext)"
  by (simp add: extends_def)

lemma extends_trans: "extends h h1 \<Longrightarrow> extends h1 h2 \<Longrightarrow> extends h h2"
  by (auto simp: extends_def)

lemma extends_nth: "extends h h1 \<Longrightarrow> lid < length h \<Longrightarrow> lid < length h1 \<and> h1 ! lid = h ! lid"
  by (auto simp: extends_def nth_append)

text \<open>The configuration of a rule, without the limiter it may already have made.\<close>

definition same_rule :: "RateLimitRule \<Rightarrow> RateLimitRule \<Rightarrow> bool" where
  "same_rule r r1 \<longleftrightarrow> r1\<lparr>rl_shared_limiter := None\<rparr> = r\<lparr>rl_shared_limiter := None\<rparr>"

text \<open>A rule's shared limiter, if it has one, is in the heap as the factory made it.\<close>

definition linked :: "(nat \<Rightarrow> int) \<Rightarrow> limheap \<Rightarrow> RateLimitRule \<Rightarrow> bool" where
  "linked clk h r \<longleftrightarrow>
     (case rl_shared_limiter r of
        None \<Rightarrow> True
      | Some lid \<Rightarrow> lid < length h
          \<and> h ! lid = newRateLimiter (clk lid) (rl_type r) (rule_capacity r) (rl_window r))"

lemma linked_extends: "linked clk h r \<Longrightarrow> extends h h1 \<Longrightarrow> linked clk h1 r"
  using extends_nth [of h h1] by (auto simp: linked_def split: option.splits)

lemma same_rule_simps:
  "same_rule r r1 \<Longrightarrow> rl_capacity r1 = rl_capacity r" "same_rule r r1 \<Longrightarrow> rl_window r1 = rl_window r"
  "same_rule r r1 \<Longrightarrow> rl_type r1 = rl_type r" "same_rule r r1 \<Longrightarrow> rl_global_scope r1 = rl_global_scope r"
  "same_rule r r1 \<Longrightarrow> rl_route_prefixes r1 = rl_route_prefixes r"
  by (cases r; cases r1; simp add: same_rule_def)+

lemma same_rule_trans: "same_rule r r1 \<Longrightarrow> same_rule r1 r2 \<Longrightarrow> same_rule r r2"
  by (simp add: same_rule_def)

lemma same_rule_refl [simp]: "same_rule r r"
  by (simp add: same_rule_def)

lemma same_rule_matches: "same_rule r r1 \<Longrightarrow> rule_matches path r1 = rule_matches path r"
  by (simp add: rule_matches_def same_rule_simps)

text \<open>What one rule does to one route: it keeps its configuration and any limiter it already shared.\<close>

definition rule_step_ok ::
  "(nat \<Rightarrow> int) \<Rightarrow> string \<Rightarrow> RateLimitRule \<Rightarrow> RateLimitRule \<Rightarrow> nat list \<Rightarrow> limheap \<Rightarrow> bool" where
  "rule_step_ok clk path r r1 lids h1 \<longleftrightarrow>
     same_rule r r1 \<and> linked clk h1 r1
     \<and> (\<forall>lid. rl_shared_limiter r = Some lid \<longrightarrow> rl_shared_limiter r1 = Some lid)
     \<and> (rl_global_scope r \<and> rule_matches path r \<longrightarrow>
          (\<exists>lid. rl_shared_limiter r1 = Some lid \<and> lid \<in> set lids))"

lemma applyRule_step:
  assumes "applyRule clk path r rl h = (r1, rl1, h1)" and "linked clk h r"
  shows "extends h h1 \<and> set (rtl_limiters rl) \<subseteq> set (rtl_limiters rl1)
     \<and> rule_step_ok clk path r r1 (rtl_limiters rl1) h1"
  using assms
  by (auto simp: applyRule_def newLimiter_def Let_def rule_step_ok_def linked_def same_rule_def
      rule_capacity_def nth_append split: if_splits option.splits)

lemma rule_step_ok_mono:
  assumes "rule_step_ok clk path r r1 lids h1" and "extends h1 h2" and "set lids \<subseteq> set lids2"
  shows "rule_step_ok clk path r r1 lids2 h2"
  using assms linked_extends [of clk h1 r1 h2] by (auto simp: rule_step_ok_def)

lemma applyRules_step:
  "applyRules clk path rules rl h = (rules1, rl1, h1) \<Longrightarrow> list_all (linked clk h) rules \<Longrightarrow>
     extends h h1 \<and> set (rtl_limiters rl) \<subseteq> set (rtl_limiters rl1) \<and> length rules1 = length rules
     \<and> (\<forall>k < length rules. rule_step_ok clk path (rules ! k) (rules1 ! k) (rtl_limiters rl1) h1)"
proof (induction rules arbitrary: rl h rules1 rl1 h1)
  case (Cons r rules)
  obtain r' rl' h' where a: "applyRule clk path r rl h = (r', rl', h')" by (metis surj_pair)
  obtain rules'' where b: "applyRules clk path rules rl' h' = (rules'', rl1, h1)"
    and e: "rules1 = r' # rules''"
    using Cons.prems(1) a by (auto split: prod.splits)
  have s: "extends h h' \<and> set (rtl_limiters rl) \<subseteq> set (rtl_limiters rl')
      \<and> rule_step_ok clk path r r' (rtl_limiters rl') h'"
    using applyRule_step [OF a] Cons.prems(2) by simp
  have "list_all (linked clk h') rules"
    using Cons.prems(2) s by (auto simp: list_all_iff intro: linked_extends)
  note ih = Cons.IH [OF b this]
  have "rule_step_ok clk path r r' (rtl_limiters rl1) h1"
    using rule_step_ok_mono [of clk path r r' "rtl_limiters rl'" h' h1 "rtl_limiters rl1"] s ih by simp
  with ih s show ?case
    by (auto simp: e nth_Cons less_Suc_eq_0_disj intro: extends_trans split: nat.splits)
qed simp

text \<open>Installing several routes one after the other (the install loops of \<^verbatim>\<open>drogonR_server_start\<close>).\<close>

fun installLimiters ::
  "(nat \<Rightarrow> int) \<Rightarrow> string list \<Rightarrow> RateLimitRule list \<Rightarrow> limheap
    \<Rightarrow> (string \<times> RouteLimiters) list \<times> RateLimitRule list \<times> limheap" where
  "installLimiters clk [] rules h = ([], rules, h)"
| "installLimiters clk (path # paths) rules h =
     (let (rules1, rl, h1) = buildLimitersForPath clk path rules h;
          (routes, rules2, h2) = installLimiters clk paths rules1 h1
      in ((path, rl) # routes, rules2, h2))"

lemma installLimiters_shared:
  "installLimiters clk paths rules h = (routes, rules1, h1) \<Longrightarrow> list_all (linked clk h) rules \<Longrightarrow>
     k < length rules \<Longrightarrow>
     extends h h1 \<and> same_rule (rules ! k) (rules1 ! k) \<and> linked clk h1 (rules1 ! k)
     \<and> (\<forall>lid. rl_shared_limiter (rules ! k) = Some lid \<longrightarrow> rl_shared_limiter (rules1 ! k) = Some lid)
     \<and> (\<forall>(path, rl) \<in> set routes. rl_global_scope (rules ! k) \<and> rule_matches path (rules ! k) \<longrightarrow>
          (\<exists>lid. rl_shared_limiter (rules1 ! k) = Some lid \<and> lid \<in> set (rtl_limiters rl)))"
proof (induction paths arbitrary: rules h routes)
  case (Cons path paths)
  obtain rules' rl h' where b: "buildLimitersForPath clk path rules h = (rules', rl, h')"
    by (metis surj_pair)
  obtain routes' where i: "installLimiters clk paths rules' h' = (routes', rules1, h1)"
    and e: "routes = (path, rl) # routes'"
    using Cons.prems(1) b by (auto split: prod.splits)
  note st = applyRules_step [OF b [unfolded buildLimitersForPath_def] Cons.prems(2)]
  have l': "list_all (linked clk h') rules'"
    using st by (auto simp: list_all_length rule_step_ok_def)
  have k': "k < length rules'" using st Cons.prems(3) by simp
  have r: "rule_step_ok clk path (rules ! k) (rules' ! k) (rtl_limiters rl) h'"
    using st Cons.prems(3) by simp
  note ih = Cons.IH [OF i l' k']
  have sm: "same_rule (rules ! k) (rules' ! k)" using r by (simp add: rule_step_ok_def)
  have "\<exists>lid. rl_shared_limiter (rules1 ! k) = Some lid \<and> lid \<in> set (rtl_limiters rl)"
    if "rl_global_scope (rules ! k)" "rule_matches path (rules ! k)"
    using that r ih by (auto simp: rule_step_ok_def)
  with ih st sm r show ?case
    by (auto simp: e same_rule_simps(4) [OF sm] same_rule_matches [OF sm] rule_step_ok_def
        intro: extends_trans same_rule_trans)
qed (simp add: list_all_length)

section \<open>Concurrent checks\<close>

text \<open>
  Requests arrive on any I/O thread and walk their route's limiters; each \<^verbatim>\<open>isAllowed\<close> call is atomic
  under its limiter's mutex and reads the clock inside, but the calls of different requests
  interleave. \<open>rs_inflight\<close> holds the requests in the middle of \<^verbatim>\<open>checkRateLimits\<close> with the limiters
  they still have to ask, \<open>rs_passed\<close> the paths of those that came through.
\<close>

record rlsys =
  rs_heap :: limheap
  rs_now :: int
  rs_inflight :: "(string \<times> RouteLimiters \<times> nat list) multiset"
  rs_passed :: "(string \<times> RouteLimiters) multiset"

inductive rl_step :: "(string \<times> RouteLimiters) list \<Rightarrow> rlsys \<Rightarrow> rlsys \<Rightarrow> bool" for routes where
  tick: "rs_now s \<le> t \<Longrightarrow> rl_step routes s (s\<lparr>rs_now := t\<rparr>)"
| arrive: "(path, rl) \<in> set routes \<Longrightarrow>
     rl_step routes s (s\<lparr>rs_inflight := add_mset (path, rl, rtl_limiters rl) (rs_inflight s)\<rparr>)"
| admit: "rs_inflight s = add_mset (path, rl, lid # lids) rest \<Longrightarrow>
     isAllowed (rs_now s) (rs_heap s ! lid) = (True, lm) \<Longrightarrow>
     rl_step routes s (s\<lparr>rs_heap := (rs_heap s)[lid := lm],
                         rs_inflight := add_mset (path, rl, lids) rest\<rparr>)"
| reject: "rs_inflight s = add_mset (path, rl, lid # lids) rest \<Longrightarrow>
     isAllowed (rs_now s) (rs_heap s ! lid) = (False, lm) \<Longrightarrow>
     rl_step routes s (s\<lparr>rs_heap := (rs_heap s)[lid := lm], rs_inflight := rest\<rparr>)"
| pass: "rs_inflight s = add_mset (path, rl, []) rest \<Longrightarrow>
     rl_step routes s (s\<lparr>rs_inflight := rest, rs_passed := add_mset (path, rl) (rs_passed s)\<rparr>)"

text \<open>Requests that a limiter has already admitted: those through, and those further down their list.\<close>

definition spent :: "nat \<Rightarrow> rlsys \<Rightarrow> nat" where
  "spent lid s =
     size (filter_mset (\<lambda>(_, rl). lid \<in> set (rtl_limiters rl)) (rs_passed s))
     + size (filter_mset (\<lambda>(_, rl, rem). lid \<in> set (rtl_limiters rl) \<and> lid \<notin> set rem) (rs_inflight s))"

definition lid_inv :: "nat \<Rightarrow> real \<Rightarrow> real \<Rightarrow> int \<Rightarrow> rlsys \<Rightarrow> bool" where
  "lid_inv lid b0 r0 t0 s \<longleftrightarrow>
     lid < length (rs_heap s) \<and> lim_ok (rs_heap s ! lid) (rs_now s) \<and> lim_rate (rs_heap s ! lid) = r0
     \<and> real (spent lid s) + lim_budget (rs_heap s ! lid) (rs_now s) \<le> b0 + r0 * seconds (rs_now s - t0)"

lemma lid_inv_step: "rl_step routes s s' \<Longrightarrow> lid_inv lid b0 r0 t0 s \<Longrightarrow> lid_inv lid b0 r0 t0 s'"
proof (induction rule: rl_step.induct)
  case (tick s t)
  then have o: "lim_ok (rs_heap s ! lid) (rs_now s)" by (simp add: lid_inv_def)
  show ?case
    using tick lim.accrue [OF o tick.hyps] lim.ok_later [OF o tick.hyps]
    by (simp add: lid_inv_def spent_def algebra_simps)
next
  case (arrive path rl s)
  then show ?case by (simp add: lid_inv_def spent_def)
next
  case (admit s path rl lid' lids rest lm)
  then have o: "lim_ok (rs_heap s ! lid) (rs_now s)" by (simp add: lid_inv_def)
  show ?case
  proof (cases "lid' = lid")
    case True
    note a = admit.hyps(2) [unfolded True]
    have "spent lid (s\<lparr>rs_heap := (rs_heap s)[lid' := lm], rs_inflight := add_mset (path, rl, lids) rest\<rparr>)
        \<le> spent lid s + 1"
      using True by (simp add: spent_def admit.hyps(1))
    with True admit.prems lim.spend [OF o order_refl a] lim.ok_step [OF o order_refl a] lim.rate_step [OF a]
    show ?thesis by (simp add: lid_inv_def)
  next
    case False
    then have "spent lid (s\<lparr>rs_heap := (rs_heap s)[lid' := lm], rs_inflight := add_mset (path, rl, lids) rest\<rparr>)
        = spent lid s"
      by (simp add: spent_def admit.hyps(1))
    with False admit.prems show ?thesis by (simp add: lid_inv_def)
  qed
next
  case (reject s path rl lid' lids rest lm)
  then have o: "lim_ok (rs_heap s ! lid) (rs_now s)" by (simp add: lid_inv_def)
  have le: "spent lid (s\<lparr>rs_heap := (rs_heap s)[lid' := lm], rs_inflight := rest\<rparr>) \<le> spent lid s"
    by (simp add: spent_def reject.hyps(1))
  show ?case
  proof (cases "lid' = lid")
    case True
    note a = reject.hyps(2) [unfolded True]
    from True le reject.prems lim.spend [OF o order_refl a] lim.ok_step [OF o order_refl a] lim.rate_step [OF a]
    show ?thesis by (simp add: lid_inv_def)
  next
    case False
    with le reject.prems show ?thesis by (simp add: lid_inv_def)
  qed
next
  case (pass s path rl rest)
  have "spent lid (s\<lparr>rs_inflight := rest, rs_passed := add_mset (path, rl) (rs_passed s)\<rparr>) = spent lid s"
    by (simp add: spent_def pass.hyps)
  with pass.prems show ?case by (simp add: lid_inv_def)
qed

lemma lid_inv_steps: "(rl_step routes)\<^sup>*\<^sup>* s s' \<Longrightarrow> lid_inv lid b0 r0 t0 s \<Longrightarrow> lid_inv lid b0 r0 t0 s'"
  by (induction rule: rtranclp_induct) (auto intro: lid_inv_step)

section \<open>Properties\<close>

text \<open>The state when the server starts to accept: installed limiters, nothing in flight.\<close>

definition rl_start :: "limheap \<Rightarrow> int \<Rightarrow> rlsys" where
  "rl_start h t = \<lparr>rs_heap = h, rs_now = t, rs_inflight = {#}, rs_passed = {#}\<rparr>"

lemma lid_inv_start:
  assumes "lid < length h" and "h ! lid = newRateLimiter tc type capacity window"
    and "whole_ticks window" and "tc \<le> t"
  shows "lid_inv lid (real capacity) (real capacity / window) tc (rl_start h t)"
proof -
  let ?l = "newRateLimiter tc type capacity window"
  have o: "lim_ok ?l tc" by (rule new_limiter_ok [OF assms(3)])
  show ?thesis
    using assms lim.ok_later [OF o assms(4)] lim.accrue [OF o assms(4)]
    by (simp add: lid_inv_def rl_start_def spent_def new_limiter_budget new_limiter_rate)
qed

lemma passed_bound:
  assumes "lid_inv lid b0 r0 t0 s"
  shows "real (size (filter_mset (\<lambda>(_, rl). lid \<in> set (rtl_limiters rl)) (rs_passed s)))
    \<le> b0 + r0 * seconds (rs_now s - t0)"
  using assms lim.budget_nonneg [of "rs_heap s ! lid" "rs_now s"]
  by (simp add: lid_inv_def spent_def)

lemma rl_step_passed_routes:
  "rl_step routes s s' \<Longrightarrow> \<forall>(p, rl, _) \<in># rs_inflight s. (p, rl) \<in> set routes \<Longrightarrow>
     set_mset (rs_passed s) \<subseteq> set routes \<Longrightarrow>
     (\<forall>(p, rl, _) \<in># rs_inflight s'. (p, rl) \<in> set routes) \<and> set_mset (rs_passed s') \<subseteq> set routes"
  by (induction rule: rl_step.induct) auto

lemma rl_steps_passed_routes:
  assumes "(rl_step routes)\<^sup>*\<^sup>* (rl_start h t) s"
  shows "set_mset (rs_passed s) \<subseteq> set routes"
proof -
  from assms have "(\<forall>(p, rl, _) \<in># rs_inflight s. (p, rl) \<in> set routes) \<and> set_mset (rs_passed s) \<subseteq> set routes"
    by (induction rule: rtranclp_induct) (use rl_step_passed_routes in \<open>auto simp: rl_start_def\<close>)
  then show ?thesis by simp
qed

text \<open>(C20) A global rule caps all its routes together.  Install any routes under any rules, then let
  requests arrive on them and interleave their limiter calls in any way. For every rule of global
  scope whose window is a whole number of clock ticks, the number of requests let through on all the
  routes the rule matches is, at any time, at most \<open>capacity * (1 + d / window)\<close>, where \<open>d\<close> is the time
  since installation.\<close>

theorem global_rule_caps_routes:
  assumes "installLimiters clk paths rules [] = (routes, rules1, h)"
    and "\<forall>r \<in> set rules. rl_shared_limiter r = None"
    and "\<forall>lid. ti \<le> clk lid \<and> clk lid \<le> t"
    and "rule \<in> set rules" and "rl_global_scope rule" and "whole_ticks (rl_window rule)"
    and "(rl_step routes)\<^sup>*\<^sup>* (rl_start h t) s"
  shows "real (size (filter_mset (\<lambda>(path, _). rule_matches path rule) (rs_passed s)))
       \<le> real (rule_capacity rule) * (1 + seconds (rs_now s - ti) / rl_window rule)"
proof -
  let ?M = "filter_mset (\<lambda>(path, _). rule_matches path rule) (rs_passed s)"
  obtain k where k: "k < length rules" "rules ! k = rule" using assms(4) by (auto simp: in_set_conv_nth)
  have l: "list_all (linked clk []) rules" using assms(2) by (auto simp: list_all_iff linked_def)
  note sh = installLimiters_shared [OF assms(1) l k(1), unfolded k(2)]
  have w: "0 < rl_window rule" using assms(6) by (simp add: whole_ticks_def)
  have mono: "(rl_step routes)\<^sup>*\<^sup>* a b \<Longrightarrow> rs_now a \<le> rs_now b" for a b
    by (induction rule: rtranclp_induct) (auto elim: rl_step.cases)
  have tn: "ti \<le> rs_now s" using mono [OF assms(7)] assms(3) by (fastforce simp: rl_start_def)
  show ?thesis
  proof (cases "?M = {#}")
    case True
    have "0 \<le> real (rule_capacity rule) * (1 + seconds (rs_now s - ti) / rl_window rule)"
      using w seconds_mono [OF tn] by simp
    then show ?thesis by (simp only: True size_empty of_nat_0)
  next
    case False
    then obtain path0 rl0 where "(path0, rl0) \<in># rs_passed s" "rule_matches path0 rule" by fastforce
    then obtain lid where lid: "rl_shared_limiter (rules1 ! k) = Some lid"
      using sh rl_steps_passed_routes [OF assms(7)] assms(5) by fastforce
    then have h: "lid < length h" "h ! lid = newRateLimiter (clk lid) (rl_type rule) (rule_capacity rule) (rl_window rule)"
      using sh same_rule_simps [of rule "rules1 ! k"] by (simp_all add: linked_def rule_capacity_def)
    have inv: "lid_inv lid (real (rule_capacity rule)) (real (rule_capacity rule) / rl_window rule) (clk lid) s"
      using lid_inv_start [OF h assms(6)] assms(3) lid_inv_steps [OF assms(7)] by blast
    have "size ?M \<le> size (filter_mset (\<lambda>(_, rl). lid \<in> set (rtl_limiters rl)) (rs_passed s))"
      using sh lid rl_steps_passed_routes [OF assms(7)] assms(5)
      by (intro size_filter_mset_mono) fastforce
    then have "real (size ?M) \<le> real (rule_capacity rule)
        + real (rule_capacity rule) / rl_window rule * seconds (rs_now s - clk lid)"
      using passed_bound [OF inv] by linarith
    also have "\<dots> \<le> real (rule_capacity rule)
        + real (rule_capacity rule) / rl_window rule * seconds (rs_now s - ti)"
      using w seconds_mono [of ti "clk lid"] assms(3) by (intro add_left_mono mult_left_mono) auto
    finally show ?thesis by (simp add: algebra_simps diff_divide_distrib)
  qed
qed

text \<open>The sequential check of one request is a run of these steps.\<close>

lemma checkLimiters_steps:
  "checkLimiters clk lids (rs_heap s) = (ok, h') \<Longrightarrow> rs_now s \<le> clk 0 \<Longrightarrow> mono clk \<Longrightarrow>
     rs_inflight s = add_mset (path, rl, lids) rest \<Longrightarrow>
     \<exists>t. (rl_step routes)\<^sup>*\<^sup>* s
           (if ok then s\<lparr>rs_heap := h', rs_now := t, rs_inflight := rest, rs_passed := add_mset (path, rl) (rs_passed s)\<rparr>
            else s\<lparr>rs_heap := h', rs_now := t, rs_inflight := rest\<rparr>)"
proof (induction lids arbitrary: s clk)
  case Nil
  then have "rl_step routes s (s\<lparr>rs_inflight := rest, rs_passed := add_mset (path, rl) (rs_passed s)\<rparr>)"
    by (intro rl_step.pass) simp
  with Nil show ?case by (intro exI [of _ "rs_now s"]) (cases s; auto)
next
  case (Cons lid lids)
  obtain b lm where a: "isAllowed (clk 0) (rs_heap s ! lid) = (b, lm)" by fastforce
  let ?t = "s\<lparr>rs_now := clk 0\<rparr>"
  have t: "rl_step routes s ?t" using Cons.prems(2) by (rule rl_step.tick)
  show ?case
  proof (cases b)
    case True
    let ?u = "?t\<lparr>rs_heap := (rs_heap ?t)[lid := lm], rs_inflight := add_mset (path, rl, lids) rest\<rparr>"
    have u: "rl_step routes ?t ?u" using Cons.prems(4) a True by (intro rl_step.admit) auto
    have "checkLimiters (\<lambda>i. clk (Suc i)) lids (rs_heap ?u) = (ok, h')"
      using Cons.prems(1) a True by simp
    from Cons.IH [OF this, of] obtain t' where
      "(rl_step routes)\<^sup>*\<^sup>* ?u (if ok
          then ?u\<lparr>rs_heap := h', rs_now := t', rs_inflight := rest, rs_passed := add_mset (path, rl) (rs_passed ?u)\<rparr>
          else ?u\<lparr>rs_heap := h', rs_now := t', rs_inflight := rest\<rparr>)"
      using Cons.prems(3) by (auto simp: mono_def)
    then have "(rl_step routes)\<^sup>*\<^sup>* s (if ok
          then ?u\<lparr>rs_heap := h', rs_now := t', rs_inflight := rest, rs_passed := add_mset (path, rl) (rs_passed ?u)\<rparr>
          else ?u\<lparr>rs_heap := h', rs_now := t', rs_inflight := rest\<rparr>)"
      by (intro converse_rtranclp_into_rtranclp [where r = "rl_step routes", OF t]
          converse_rtranclp_into_rtranclp [where r = "rl_step routes", OF u])
    then show ?thesis by (intro exI [of _ t']) (cases s; cases ok; simp)
  next
    case False
    let ?u = "?t\<lparr>rs_heap := (rs_heap ?t)[lid := lm], rs_inflight := rest\<rparr>"
    have "rl_step routes ?t ?u" using Cons.prems(4) a False by (intro rl_step.reject) auto
    with t have "(rl_step routes)\<^sup>*\<^sup>* s ?u"
      by (meson converse_rtranclp_into_rtranclp r_into_rtranclp)
    with Cons.prems(1) a False show ?thesis by (intro exI [of _ "clk 0"]) (cases s; auto)
  qed
qed

definition example_rule :: RateLimitRule where
  "example_rule = \<lparr>rl_capacity = 3, rl_window = 60, rl_type = kFixedWindow, rl_global_scope = True,
     rl_route_prefixes = [''/api/''], rl_shared_limiter = None\<rparr>"

theorem global_rule_caps_routes_witness:
  "\<exists>routes rules1 h s.
     installLimiters (\<lambda>_. 5) [''/api/a'', ''/health'', ''/api/b''] [example_rule] [] = (routes, rules1, h)
     \<and> (rl_step routes)\<^sup>*\<^sup>* (rl_start h 5) s \<and> size (rs_passed s) = 1
     \<and> real (size (filter_mset (\<lambda>(path, _). rule_matches path example_rule) (rs_passed s)))
         \<le> 3 * (1 + seconds (rs_now s - 5) / 60)"
proof -
  let ?rl = "\<lparr>rtl_limiters = [0], rtl_max_window = 60\<rparr>"
  let ?lim = "newRateLimiter 5 kFixedWindow 3 60"
  let ?rts = "[(''/api/a'', ?rl), (''/health'', \<lparr>rtl_limiters = [], rtl_max_window = 0\<rparr>), (''/api/b'', ?rl)]"
  let ?r1 = "example_rule\<lparr>rl_shared_limiter := Some 0\<rparr>"
  have c: "rule_capacity example_rule = 3" by (simp add: rule_capacity_def example_rule_def)
  have i: "installLimiters (\<lambda>_. 5) [''/api/a'', ''/health'', ''/api/b''] [example_rule] [] = (?rts, [?r1], [?lim])"
    by (simp add: buildLimitersForPath_def applyRule_def newLimiter_def rule_matches_def has_prefix_def
        example_rule_def rule_capacity_def)
  let ?ini = "rl_start [?lim] 5"
  let ?mid = "?ini\<lparr>rs_inflight := add_mset (''/api/a'', ?rl, [0]) {#}\<rparr>"
  have a: "rl_step ?rts ?ini ?mid"
    using rl_step.arrive [of "''/api/a''" ?rl ?rts ?ini] by (simp add: rl_start_def)
  obtain h' where ch: "checkLimiters (\<lambda>_. 6) [0] (rs_heap ?mid) = (True, h')"
    by (simp add: rl_start_def fw_isAllowed_def FixedWindowRateLimiter_def seconds_def Let_def)
  obtain t where st: "(rl_step ?rts)\<^sup>*\<^sup>* ?mid
      (?mid\<lparr>rs_heap := h', rs_now := t, rs_inflight := {#}, rs_passed := {#(''/api/a'', ?rl)#}\<rparr>)"
    using checkLimiters_steps [OF ch, of "''/api/a''" ?rl "{#}" ?rts] by (auto simp: rl_start_def mono_def)
  let ?fin = "?mid\<lparr>rs_heap := h', rs_now := t, rs_inflight := {#}, rs_passed := {#(''/api/a'', ?rl)#}\<rparr>"
  have r: "(rl_step ?rts)\<^sup>*\<^sup>* ?ini ?fin" using a st by (rule converse_rtranclp_into_rtranclp [where r = "rl_step ?rts"])
  have w: "whole_ticks (rl_window example_rule)"
    by (simp add: example_rule_def whole_ticks_def unit_ticks_def seconds_def)
  have "real (size (filter_mset (\<lambda>(path, _). rule_matches path example_rule) (rs_passed ?fin)))
      \<le> real (rule_capacity example_rule) * (1 + seconds (rs_now ?fin - 5) / rl_window example_rule)"
    by (rule global_rule_caps_routes [OF i _ _ _ _ w r]) (simp_all add: example_rule_def)
  with i r show ?thesis unfolding c
    by (intro exI [of _ ?rts] exI [of _ "[?r1]"] exI [of _ "[?lim]"] exI [of _ ?fin])
      (simp add: example_rule_def)
qed

end
