(* ===== verification/FmtDouble.thy ===== *)
theory FmtDouble
  imports RValue
begin

text \<open>
  The C library's \<^verbatim>\<open>%.17g\<close> conversion of a finite double, as \<^verbatim>\<open>appendDouble\<close> of
  \<^verbatim>\<open>src/src/json_writer.cpp\<close> uses it: the decimal exponent, seventeen significant digits of the exact
  binary value rounded half to even, and the choice between fixed and exponent notation with trailing
  zeros removed. The theory also has a reader for JSON number literals and shows that a printed
  number identifies the double it came from.
\<close>

section \<open>Decimal exponent and digits\<close>

fun pos_exp :: "nat \<Rightarrow> nat" where
  "pos_exp q = (if q < 10 then 0 else Suc (pos_exp (q div 10)))"

declare pos_exp.simps [simp del]

function neg_exp :: "nat \<Rightarrow> nat \<Rightarrow> nat" where
  "neg_exp num den = (if num = 0 \<or> den \<le> num then 0 else Suc (neg_exp (10 * num) den))"
  by pat_completeness auto
termination
  by (relation "measure (\<lambda>(num, den). den - num)") auto

declare neg_exp.simps [simp del]

definition dec_exp :: "nat \<Rightarrow> nat \<Rightarrow> int" where
  "dec_exp num den = (if den \<le> num then int (pos_exp (num div den)) else - int (neg_exp num den))"

definition round_half_even :: "nat \<Rightarrow> nat \<Rightarrow> nat" where
  "round_half_even a b =
     (let q = a div b; r = a mod b
      in if 2 * r < b then q else if b < 2 * r then Suc q else if even q then q else Suc q)"

definition sig17 :: "nat \<Rightarrow> nat \<Rightarrow> nat \<times> int" where
  "sig17 num den =
     (let X = dec_exp num den;
          D = (if X \<le> 16 then round_half_even (num * 10 ^ nat (16 - X)) den
               else round_half_even num (den * 10 ^ nat (X - 16)))
      in if D = 10 ^ 17 then (10 ^ 16, X + 1) else (D, X))"

lemma pos_exp_bounds: "0 < q \<Longrightarrow> 10 ^ pos_exp q \<le> q \<and> q < 10 ^ Suc (pos_exp q)"
proof (induction q rule: pos_exp.induct)
  case (1 q)
  show ?case
  proof (cases "q < 10")
    case True
    with "1.prems" show ?thesis by (simp add: pos_exp.simps [of q])
  next
    case False
    then have "10 ^ pos_exp (q div 10) \<le> q div 10 \<and> q div 10 < 10 ^ Suc (pos_exp (q div 10))"
      using "1.IH" by simp
    with False show ?thesis by (simp add: pos_exp.simps [of q]) linarith
  qed
qed

lemma neg_exp_bounds:
  "0 < num \<Longrightarrow> num < den \<Longrightarrow> den \<le> num * 10 ^ neg_exp num den \<and> num * 10 ^ neg_exp num den < 10 * den"
proof (induction num den rule: neg_exp.induct)
  case (1 num den)
  then have s: "neg_exp num den = Suc (neg_exp (10 * num) den)" by (simp add: neg_exp.simps [of num])
  show ?case
  proof (cases "10 * num < den")
    case True
    with 1 have "den \<le> 10 * num * 10 ^ neg_exp (10 * num) den \<and> 10 * num * 10 ^ neg_exp (10 * num) den < 10 * den"
      by simp
    then show ?thesis by (simp add: s algebra_simps)
  next
    case False
    then have "neg_exp (10 * num) den = 0" by (simp add: neg_exp.simps [of "10 * num"])
    with False 1 show ?thesis by (simp add: s)
  qed
qed

lemma dec_exp_bounds:
  assumes "0 < num" and "0 < den"
  shows "10 powi dec_exp num den \<le> real num / real den \<and> real num / real den < 10 powi (dec_exp num den + 1)"
proof (cases "den \<le> num")
  case True
  let ?q = "num div den"
  have "0 < ?q" using True assms by (simp add: div_greater_zero_iff)
  note b = pos_exp_bounds [OF this]
  have e: "real num = real ?q * real den + real (num mod den)"
    by (metis div_mult_mod_eq of_nat_add of_nat_mult)
  have m: "real (num mod den) < real den" using assms by simp
  have "real ?q \<le> real num / real den" by (rule of_nat_div_le_of_nat)
  moreover have "real num / real den < real ?q + 1"
    using e m assms(2) by (simp add: pos_divide_less_eq distrib_right)
  moreover have "10 ^ pos_exp ?q \<le> real ?q"
    using conjunct1 [OF b] by (metis of_nat_le_iff of_nat_numeral of_nat_power)
  moreover have "real (Suc ?q) \<le> 10 ^ Suc (pos_exp ?q)"
    using conjunct2 [OF b] by (metis Suc_le_eq of_nat_le_iff of_nat_numeral of_nat_power)
  moreover have p: "(10::real) powi dec_exp num den = 10 ^ pos_exp ?q"
    using True by (simp add: dec_exp_def)
  moreover have "(10::real) powi (dec_exp num den + 1) = 10 ^ Suc (pos_exp ?q)"
    using p by (simp add: power_int_add)
  ultimately show ?thesis by (simp only: of_nat_Suc) linarith
next
  case False
  then have n: "num < den" by simp
  let ?k = "neg_exp num den"
  note b = neg_exp_bounds [OF assms(1) n]
  have "real den \<le> real (num * 10 ^ ?k)" "real (num * 10 ^ ?k) < real (10 * den)"
    using b by (simp_all only: of_nat_le_iff of_nat_less_iff)
  then show ?thesis
    using assms False by (simp add: dec_exp_def power_int_minus power_int_diff field_simps)
qed

lemma round_half_even_error:
  assumes "0 < b"
  shows "\<bar>real (round_half_even a b) - real a / real b\<bar> \<le> 1 / 2"
proof -
  let ?q = "a div b" and ?r = "a mod b"
  have "real a = real ?q * real b + real ?r" by (metis div_mult_mod_eq of_nat_add of_nat_mult)
  then have e: "real a / real b = real ?q + real ?r / real b"
    using assms by (simp add: add_divide_distrib)
  define f where "f = real ?r / real b"
  have r: "0 \<le> f" "f < 1" using assms by (simp_all add: f_def)
  have h: "2 * ?r < b \<Longrightarrow> f < 1 / 2" "b < 2 * ?r \<Longrightarrow> 1 / 2 < f" "2 * ?r = b \<Longrightarrow> f = 1 / 2"
    using assms by (simp_all add: f_def field_simps flip: of_nat_mult)
  show ?thesis
    unfolding e f_def [symmetric] round_half_even_def Let_def abs_le_iff using r h by auto
qed

lemma powi_split: "(10::real) powi (a - b) * 10 powi b = 10 powi a"
  by (simp flip: power_int_add)

text \<open>The scaled value that is rounded lies between \<open>10^16\<close> and \<open>10^17\<close>, and rounding moves it by at most a half.\<close>

lemma sig17_scaled:
  assumes "0 < num" and "0 < den"
  defines "X \<equiv> dec_exp num den" and "v \<equiv> real num / real den"
  defines "D \<equiv> (if X \<le> 16 then round_half_even (num * 10 ^ nat (16 - X)) den
               else round_half_even num (den * 10 ^ nat (X - 16)))"
  shows "\<bar>real D - v * 10 powi (16 - X)\<bar> \<le> 1 / 2 \<and> 10 ^ 16 \<le> v * 10 powi (16 - X)
       \<and> v * 10 powi (16 - X) < 10 ^ 17"
proof -
  have v: "10 powi X \<le> v" "v < 10 powi (X + 1)"
    using dec_exp_bounds [OF assms(1,2)] by (simp_all add: X_def v_def)
  have p: "(0::real) < 10 powi (16 - X)" by simp
  have e16: "10 powi X * 10 powi (16 - X) = (10::real) ^ 16"
    using powi_split [of 16 X] by (simp add: mult.commute power_int_def)
  have e17: "10 powi (X + 1) * 10 powi (16 - X) = (10::real) ^ 17"
    by (subst power_int_add [symmetric]) simp_all
  have lo: "10 ^ 16 \<le> v * 10 powi (16 - X)"
    using mult_right_mono [OF v(1) less_imp_le [OF p]] by (simp only: e16)
  have hi: "v * 10 powi (16 - X) < 10 ^ 17"
    using mult_strict_right_mono [OF v(2) p] by (simp only: e17)
  have "\<bar>real D - v * 10 powi (16 - X)\<bar> \<le> 1 / 2"
  proof (cases "X \<le> 16")
    case True
    have "real (num * 10 ^ nat (16 - X)) / real den = v * 10 powi (16 - X)"
      using True by (simp add: v_def power_int_def)
    with True round_half_even_error [OF assms(2), of "num * 10 ^ nat (16 - X)"] show ?thesis
      by (simp only: D_def if_True)
  next
    case False
    have "real num / real (den * 10 ^ nat (X - 16)) = v * 10 powi (16 - X)"
      using False by (simp add: v_def power_int_def divide_simps)
    moreover have "0 < den * 10 ^ nat (X - 16)" using assms(2) by simp
    ultimately show ?thesis
      using False round_half_even_error [of "den * 10 ^ nat (X - 16)" num] by (simp only: D_def if_False)
  qed
  with lo hi show ?thesis by simp
qed

lemma sig17_spec:
  assumes "0 < num" and "0 < den" and "sig17 num den = (D, X)"
  shows "10 ^ 16 \<le> D \<and> D < 10 ^ 17
     \<and> \<bar>real D * 10 powi (X - 16) - real num / real den\<bar> \<le> (real num / real den) / (2 * 10 ^ 16)"
proof -
  let ?X = "dec_exp num den" and ?v = "real num / real den"
  define D0 where "D0 = (if ?X \<le> 16 then round_half_even (num * 10 ^ nat (16 - ?X)) den
    else round_half_even num (den * 10 ^ nat (?X - 16)))"
  note sc = sig17_scaled [OF assms(1,2), folded D0_def]
  have s: "(D, X) = (if D0 = 10 ^ 17 then (10 ^ 16, ?X + 1) else (D0, ?X))"
    using assms(3) unfolding sig17_def Let_def D0_def [symmetric] by (rule sym)
  have val: "real D * 10 powi (X - 16) = real D0 * 10 powi (?X - 16)"
    using s by (auto split: if_splits simp: power_int_diff power_int_add)
  obtain y where "\<bar>real D0 - y\<bar> \<le> 1 / 2" "10000000000000000 \<le> y" "y < 100000000000000000"
    using sc by auto
  then have "9999999999999999 < real D0" "real D0 < 100000000000000001" by linarith+
  then have "10 ^ 16 \<le> D0 \<and> D0 \<le> 10 ^ 17" by simp
  with s have range: "10 ^ 16 \<le> D \<and> D < 10 ^ 17" by (auto split: if_splits)
  let ?p = "(10::real) powi (?X - 16)"
  have p: "0 < ?p" "10 powi (16 - ?X) * ?p = 1" by (simp_all flip: power_int_add)
  have "real D0 * ?p - ?v = (real D0 - ?v * 10 powi (16 - ?X)) * ?p"
    using p(2) by (simp add: algebra_simps)
  then have "\<bar>real D0 * ?p - ?v\<bar> = \<bar>real D0 - ?v * 10 powi (16 - ?X)\<bar> * ?p"
    using p(1) by (simp add: abs_mult)
  also have "\<dots> \<le> 1 / 2 * ?p" using sc p(1) by (intro mult_right_mono) auto
  also have "\<dots> \<le> ?v / (2 * 10 ^ 16)"
  proof -
    have "10 ^ 16 * ?p = 10 powi ?X" by (simp add: power_int_diff)
    with dec_exp_bounds [OF assms(1,2)] show ?thesis by simp
  qed
  finally show ?thesis using range by (simp only: val)
qed

section \<open>The conversion\<close>

definition strip0 :: "string \<Rightarrow> string" where
  "strip0 s = rev (dropWhile (\<lambda>c. c = CHR ''0'') (rev s))"

definition dot_frac :: "string \<Rightarrow> string" where
  "dot_frac fp = (if fp = [] then [] else CHR ''.'' # fp)"

text \<open>The exponent of \<^verbatim>\<open>%e\<close> notation has at least two digits.\<close>

definition exp_digits :: "nat \<Rightarrow> string" where
  "exp_digits n = (if n < 10 then CHR ''0'' # nat_to_dec n else nat_to_dec n)"

definition fmt_sig17 :: "nat \<Rightarrow> int \<Rightarrow> string" where
  "fmt_sig17 D X =
     (let ds = nat_to_dec D
      in if - 4 \<le> X \<and> X < 17 then
           (if 0 \<le> X then take (nat X + 1) ds @ dot_frac (strip0 (drop (nat X + 1) ds))
            else ''0.'' @ replicate (nat (- X) - 1) CHR ''0'' @ strip0 ds)
         else hd ds # dot_frac (strip0 (tl ds)) @ CHR ''e'' # (if X < 0 then CHR ''-'' else CHR ''+'')
              # exp_digits (nat \<bar>X\<bar>))"

definition fmt17g :: "dbl \<Rightarrow> string" where
  "fmt17g d =
     (if dneg d then ''-'' else [])
     @ (if dmant d = 0 then ''0''
        else (let (D, X) = sig17 (dbl_num d) (dbl_den d) in fmt_sig17 D X))"

section \<open>Reading a JSON number\<close>

text \<open>
  The grammar of RFC 8259: optional minus, integer part without superfluous leading zeros, optional
  fraction, optional exponent. The parts are the sign, the two digit strings and the exponent.
\<close>

fun exp_part :: "string \<Rightarrow> int option" where
  "exp_part [] = Some 0"
| "exp_part (c # s) =
     (if c = CHR ''e'' \<or> c = CHR ''E'' then
        (let (neg, ds) = (case s of
               [] \<Rightarrow> (False, [])
             | d # t \<Rightarrow> if d = CHR ''-'' then (True, t) else if d = CHR ''+'' then (False, t) else (False, s))
         in if ds = [] \<or> \<not> list_all is_digit ds then None
            else Some (if neg then - int (dec_value ds) else int (dec_value ds)))
      else None)"

type_synonym num_parts_t = "bool \<times> string \<times> string \<times> int"

definition num_parts :: "string \<Rightarrow> num_parts_t option" where
  "num_parts s =
     (let (neg, s1) = (case s of [] \<Rightarrow> (False, []) | c # t \<Rightarrow> if c = CHR ''-'' then (True, t) else (False, s));
          ip = takeWhile is_digit s1; s2 = dropWhile is_digit s1
      in if ip = [] \<or> (hd ip = CHR ''0'' \<and> tl ip \<noteq> []) then None
         else if s2 \<noteq> [] \<and> hd s2 = CHR ''.'' then
           (let fp = takeWhile is_digit (tl s2); s3 = dropWhile is_digit (tl s2)
            in if fp = [] then None else map_option (\<lambda>e. (neg, ip, fp, e)) (exp_part s3))
         else map_option (\<lambda>e. (neg, ip, [], e)) (exp_part s2))"

definition num_real :: "num_parts_t \<Rightarrow> real" where
  "num_real p =
     (case p of (neg, ip, fp, e) \<Rightarrow>
        (if neg then - 1 else 1) * real (dec_value (ip @ fp)) * 10 powi (e - int (length fp)))"

section \<open>Printed numbers are JSON numbers\<close>

lemma not_digit [simp]:
  "\<not> is_digit CHR ''.''" "\<not> is_digit CHR ''e''" "\<not> is_digit CHR ''-''" "\<not> is_digit CHR ''+''"
  by (simp_all add: is_digit_def less_eq_char_def)

lemma is_digit_0 [simp]: "is_digit CHR ''0''"
  by (simp add: is_digit_def less_eq_char_def)

lemma takeWhile_digits_append:
  "list_all is_digit ds \<Longrightarrow> (r = [] \<or> \<not> is_digit (hd r)) \<Longrightarrow> takeWhile is_digit (ds @ r) = ds"
  by (induction ds) (auto simp: takeWhile_eq_Nil_iff)

lemma dropWhile_digits_append:
  "list_all is_digit ds \<Longrightarrow> (r = [] \<or> \<not> is_digit (hd r)) \<Longrightarrow> dropWhile is_digit (ds @ r) = r"
  by (induction ds) (auto simp: dropWhile_eq_self_iff)

definition exp_string :: "(bool \<times> string) option \<Rightarrow> string" where
  "exp_string eo =
     (case eo of None \<Rightarrow> []
      | Some (neg, ds) \<Rightarrow> CHR ''e'' # (if neg then CHR ''-'' else CHR ''+'') # ds)"

definition exp_value :: "(bool \<times> string) option \<Rightarrow> int" where
  "exp_value eo =
     (case eo of None \<Rightarrow> 0
      | Some (neg, ds) \<Rightarrow> if neg then - int (dec_value ds) else int (dec_value ds))"

lemma exp_part_string:
  "(\<And>neg ds. eo = Some (neg, ds) \<Longrightarrow> ds \<noteq> [] \<and> list_all is_digit ds) \<Longrightarrow>
     exp_part (exp_string eo) = Some (exp_value eo)"
  by (cases eo) (auto simp: exp_string_def exp_value_def)

lemma exp_string_head: "exp_string eo = [] \<or> \<not> is_digit (hd (exp_string eo)) \<and> hd (exp_string eo) = CHR ''e''"
  by (auto simp: exp_string_def split: option.split)

lemma num_parts_render:
  assumes "ip \<noteq> []" and "list_all is_digit ip" and "hd ip = CHR ''0'' \<Longrightarrow> tl ip = []"
    and "list_all is_digit fp" and "\<And>neg ds. eo = Some (neg, ds) \<Longrightarrow> ds \<noteq> [] \<and> list_all is_digit ds"
  shows "num_parts ((if neg then ''-'' else []) @ ip @ dot_frac fp @ exp_string eo) = Some (neg, ip, fp, exp_value eo)"
proof -
  let ?r = "dot_frac fp @ exp_string eo"
  have r: "?r = [] \<or> \<not> is_digit (hd ?r)" using exp_string_head [of eo] by (auto simp: dot_frac_def)
  have nm: "hd ip \<noteq> CHR ''-''" using assms(1,2) not_digit(3) by (cases ip) auto
  have sp: "takeWhile is_digit (ip @ ?r) = ip" "dropWhile is_digit (ip @ ?r) = ?r"
    by (rule takeWhile_digits_append [OF assms(2) r], rule dropWhile_digits_append [OF assms(2) r])
  have er: "exp_string eo = [] \<or> \<not> is_digit (hd (exp_string eo))" using exp_string_head [of eo] by auto
  have fr: "takeWhile is_digit (fp @ exp_string eo) = fp" "dropWhile is_digit (fp @ exp_string eo) = exp_string eo"
    by (rule takeWhile_digits_append [OF assms(4) er], rule dropWhile_digits_append [OF assms(4) er])
  have sg: "(case (if neg then ''-'' else []) @ ip @ ?r of
      [] \<Rightarrow> (False, []) | c # t \<Rightarrow> if c = CHR ''-'' then (True, t) else (False, (if neg then ''-'' else []) @ ip @ ?r))
    = (neg, ip @ ?r)"
    using nm assms(1) by (cases ip) auto
  have ep: "exp_part (exp_string eo) = Some (exp_value eo)"
    by (rule exp_part_string) (rule assms(5))
  have nd: "exp_string eo \<noteq> [] \<Longrightarrow> hd (exp_string eo) \<noteq> CHR ''.''" using exp_string_head [of eo] by auto
  show ?thesis
    unfolding num_parts_def sg Let_def split sp
    using assms(1,3) nd fr ep by (auto simp: dot_frac_def)
qed

lemma dec_value_zeros_right [simp]: "dec_value (s @ replicate k CHR ''0'') = dec_value s * 10 ^ k"
proof (induction k)
  case (Suc k)
  have "s @ replicate (Suc k) CHR ''0'' = (s @ replicate k CHR ''0'') @ [CHR ''0'']"
    by (simp add: replicate_append_same)
  with Suc show ?case by (simp only: dec_value_snoc) simp
qed simp

lemma dec_value_zeros_left [simp]: "dec_value (replicate k CHR ''0'' @ s) = dec_value s"
  by (induction k) (simp_all add: dec_value_def)

lemma strip0_split: "s = strip0 s @ replicate (length s - length (strip0 s)) CHR ''0''"
proof -
  let ?z = "takeWhile (\<lambda>c. c = CHR ''0'') (rev s)"
  have "rev s = ?z @ dropWhile (\<lambda>c. c = CHR ''0'') (rev s)" by simp
  then have e: "s = strip0 s @ rev ?z" unfolding strip0_def by (metis rev_append rev_rev_ident)
  have "?z = replicate (length ?z) CHR ''0''"
    by (intro replicate_eqI) (auto dest: set_takeWhileD)
  moreover have "length ?z = length s - length (strip0 s)"
    using arg_cong [OF e, of length] by simp
  ultimately show ?thesis using e by (metis rev_replicate)
qed

lemma set_strip0: "set (strip0 s) \<subseteq> set s"
  by (auto simp: strip0_def dest: set_dropWhileD)

lemma length_strip0: "length (strip0 s) \<le> length s"
  by (simp add: strip0_def length_dropWhile_le [THEN order_trans])

lemma list_all_strip0: "list_all P s \<Longrightarrow> list_all P (strip0 s)"
  using set_strip0 [of s] by (auto simp: list_all_iff)

lemma strip0_nonempty: "s \<noteq> [] \<Longrightarrow> hd s \<noteq> CHR ''0'' \<Longrightarrow> strip0 s \<noteq> []"
  by (cases s) (auto simp: strip0_def)

lemma list_all_dec: "list_all is_digit (nat_to_dec n)"
  by (auto simp: list_all_iff dest: nat_to_dec_digits)

lemma exp_digits_props: "exp_digits n \<noteq> [] \<and> list_all is_digit (exp_digits n) \<and> dec_value (exp_digits n) = n"
proof -
  have "dec_value (CHR ''0'' # nat_to_dec n) = n"
    using dec_value_zeros_left [of 1 "nat_to_dec n"] by simp
  then show ?thesis by (simp add: exp_digits_def list_all_dec)
qed

text \<open>Dropping trailing zeros of a fraction and shortening its scale accordingly keeps the value.\<close>

lemma strip0_value:
  assumes "nat_to_dec D = a @ b"
  shows "real (dec_value (a @ strip0 b)) * 10 powi (e - int (length (strip0 b))) = real D * 10 powi (e - int (length b))"
proof -
  let ?k = "length b - length (strip0 b)"
  have "nat_to_dec D = (a @ strip0 b) @ replicate ?k CHR ''0''"
    using assms strip0_split [of b] by simp
  then have "D = dec_value (a @ strip0 b) * 10 ^ ?k"
    by (metis dec_value_nat_to_dec dec_value_zeros_right)
  then have D: "real D = real (dec_value (a @ strip0 b)) * 10 powi int ?k"
    by (metis of_nat_mult of_nat_numeral of_nat_power power_int_of_nat)
  have e: "e - int (length (strip0 b)) = int ?k + (e - int (length b))"
    using length_strip0 [of b] by simp
  have "(10::real) powi (int ?k + (e - int (length b))) = 10 powi int ?k * 10 powi (e - int (length b))"
    by (rule power_int_add) simp
  then show ?thesis unfolding D e by (simp only: mult.assoc)
qed

text \<open>The parts of a printed magnitude: digits, and a decimal point \<open>16 - X\<close> places from the right.\<close>

definition parts_ok :: "string \<Rightarrow> string \<Rightarrow> (bool \<times> string) option \<Rightarrow> bool" where
  "parts_ok ip fp eo \<longleftrightarrow>
     ip \<noteq> [] \<and> list_all is_digit ip \<and> (hd ip = CHR ''0'' \<longrightarrow> tl ip = []) \<and> list_all is_digit fp
     \<and> (\<forall>neg ds. eo = Some (neg, ds) \<longrightarrow> ds \<noteq> [] \<and> list_all is_digit ds)"

lemma fmt_sig17_parts:
  assumes "0 < D" and "length (nat_to_dec D) = 17"
  obtains ip fp eo where "fmt_sig17 D X = ip @ dot_frac fp @ exp_string eo" and "parts_ok ip fp eo"
    and "num_real (False, ip, fp, exp_value eo) = real D * 10 powi (X - 16)"
proof -
  let ?ds = "nat_to_dec D"
  have hd0: "hd ?ds \<noteq> CHR ''0''" using assms(1) by (rule hd_nat_to_dec)
  have dig: "list_all is_digit ?ds" by (rule list_all_dec)
  consider (int) "0 \<le> X" "X < 17" | (frac) "- 4 \<le> X" "X < 0" | (exp) "\<not> (- 4 \<le> X \<and> X < 17)" by linarith
  then show ?thesis
  proof cases
    case int
    let ?i = "take (nat X + 1) ?ds" and ?f = "drop (nat X + 1) ?ds"
    have lf: "0 - int (length ?f) = X - 16" using int assms(2) by simp
    have "num_real (False, ?i, strip0 ?f, 0) = real D * 10 powi (X - 16)"
      using strip0_value [of D ?i ?f 0] unfolding lf by (simp add: num_real_def)
    moreover have "parts_ok ?i (strip0 ?f) None"
      using hd0 dig by (auto simp: parts_ok_def hd_take list_all_strip0 list_all_iff dest: in_set_takeD
          intro!: list_all_strip0 dest!: in_set_dropD subsetD [OF set_strip0])
    moreover have "fmt_sig17 D X = ?i @ dot_frac (strip0 ?f)"
      using int by (simp add: fmt_sig17_def Let_def)
    ultimately show ?thesis by (intro that [of ?i "strip0 ?f" None]) (auto simp: exp_string_def exp_value_def)
  next
    case frac
    let ?z = "replicate (nat (- X) - 1) CHR ''0''"
    have e: "(X + 1) - int (length (strip0 ?ds)) = 0 - int (length (?z @ strip0 ?ds))" "X + 1 - int (length ?ds) = X - 16"
      using frac assms(2) by simp_all
    have "dec_value (''0'' @ ?z @ strip0 ?ds) = dec_value (strip0 ?ds)"
      using dec_value_zeros_left [of "Suc (nat (- X) - 1)" "strip0 ?ds"] by simp
    then have "num_real (False, ''0'', ?z @ strip0 ?ds, 0) = real D * 10 powi (X - 16)"
      using strip0_value [of D "[]" ?ds "X + 1"] unfolding e by (simp add: num_real_def)
    moreover have "parts_ok ''0'' (?z @ strip0 ?ds) None"
      using dig by (auto simp: parts_ok_def list_all_strip0 list_all_iff dest: subsetD [OF set_strip0])
    moreover have "fmt_sig17 D X = ''0'' @ dot_frac (?z @ strip0 ?ds)"
      using frac strip0_nonempty [OF nat_to_dec_nonempty hd0] by (simp add: fmt_sig17_def Let_def dot_frac_def)
    ultimately show ?thesis
      by (intro that [of "''0''" "?z @ strip0 ?ds" None]) (auto simp: exp_string_def exp_value_def)
  next
    case exp
    let ?eo = "Some (X < 0, exp_digits (nat \<bar>X\<bar>))"
    have ds: "?ds = [hd ?ds] @ tl ?ds" by simp
    have ev: "exp_value ?eo = X" by (simp add: exp_value_def exp_digits_props)
    have lt: "X - int (length (tl ?ds)) = X - 16" using assms(2) by simp
    have "num_real (False, [hd ?ds], strip0 (tl ?ds), exp_value ?eo) = real D * 10 powi (X - 16)"
      using strip0_value [OF ds, of X] unfolding ev lt by (simp add: num_real_def)
    moreover have "parts_ok [hd ?ds] (strip0 (tl ?ds)) ?eo"
      using hd0 dig exp_digits_props [of "nat \<bar>X\<bar>"]
      by (cases ?ds) (auto simp: parts_ok_def intro: list_all_strip0)
    moreover have "fmt_sig17 D X = [hd ?ds] @ dot_frac (strip0 (tl ?ds)) @ exp_string ?eo"
      using exp by (auto simp: fmt_sig17_def Let_def exp_string_def)
    ultimately show ?thesis by (intro that)
  qed
qed

lemma length_nat_to_dec: "length (nat_to_dec n) = Suc (pos_exp n)"
proof (induction n rule: nat_to_dec.induct)
  case (1 n)
  then show ?case by (cases "n < 10") (simp_all add: nat_to_dec.simps [of n] pos_exp.simps [of n])
qed

lemma length_sig17: "10 ^ 16 \<le> D \<Longrightarrow> D < 10 ^ 17 \<Longrightarrow> length (nat_to_dec D) = 17"
proof -
  assume D: "10 ^ 16 \<le> D" "D < 10 ^ 17"
  then have b: "10 ^ pos_exp D \<le> D \<and> D < 10 ^ Suc (pos_exp D)" by (intro pos_exp_bounds) simp
  have "(10::nat) ^ pos_exp D < 10 ^ 17" using b D by linarith
  then have "pos_exp D < 17" by (rule power_less_imp_less_exp [rotated]) simp
  moreover have "(10::nat) ^ 16 < 10 ^ Suc (pos_exp D)" using b D by linarith
  then have "16 < Suc (pos_exp D)" by (rule power_less_imp_less_exp [rotated]) simp
  ultimately show ?thesis by (simp add: length_nat_to_dec)
qed

lemma fmt17g_reads:
  "\<exists>p. num_parts (fmt17g d) = Some p \<and> \<bar>num_real p - dbl_real d\<bar> \<le> \<bar>dbl_real d\<bar> / (2 * 10 ^ 16)"
proof (cases "dmant d = 0")
  case True
  have "num_parts ((if dneg d then ''-'' else []) @ ''0'' @ dot_frac [] @ exp_string None) = Some (dneg d, ''0'', [], 0)"
    by (subst num_parts_render) (auto simp: exp_value_def)
  moreover have "num_real (dneg d, ''0'', [], 0) = 0" by (simp add: num_real_def dec_value_def)
  ultimately show ?thesis
    using True by (simp add: fmt17g_def dot_frac_def exp_string_def dbl_real_def dbl_num_def)
next
  case False
  then have n: "0 < dbl_num d" by (simp add: dbl_num_def)
  obtain D X where s: "sig17 (dbl_num d) (dbl_den d) = (D, X)" by fastforce
  note sp = sig17_spec [OF n dbl_den_pos s]
  have D: "0 < D" "length (nat_to_dec D) = 17" using sp length_sig17 by auto
  obtain ip fp eo where f: "fmt_sig17 D X = ip @ dot_frac fp @ exp_string eo" and ok: "parts_ok ip fp eo"
    and v: "num_real (False, ip, fp, exp_value eo) = real D * 10 powi (X - 16)"
    using fmt_sig17_parts [OF D] by blast
  have "num_parts (fmt17g d) = Some (dneg d, ip, fp, exp_value eo)"
    using ok False by (simp add: fmt17g_def s f parts_ok_def num_parts_render)
  moreover have "num_real (dneg d, ip, fp, exp_value eo) = (if dneg d then - 1 else 1) * (real D * 10 powi (X - 16))"
    using v by (simp add: num_real_def)
  moreover have "\<bar>dbl_real d\<bar> = real (dbl_num d) / real (dbl_den d)" by (simp add: dbl_real_def abs_mult)
  moreover have "\<bar>(if b then - 1 else 1) * x - (if b then - 1 else 1) * y\<bar> = \<bar>x - y\<bar>" for b and x y :: real
    by (simp add: abs_minus_commute)
  ultimately show ?thesis
    using sp by (intro exI [of _ "(dneg d, ip, fp, exp_value eo)"]) (simp only: dbl_real_def)
qed

section \<open>Distinct doubles are far enough apart\<close>

definition dbl_signed :: "dbl \<Rightarrow> int" where
  "dbl_signed d = (if dneg d then - int (dmant d) else int (dmant d))"

lemma dbl_real_powi: "dbl_real d = of_int (dbl_signed d) * 2 powi dexp d"
  by (cases "0 \<le> dexp d") (simp_all add: dbl_real_def dbl_num_def dbl_den_def dbl_signed_def power_int_def divide_simps)

lemma dbl_gap_aux:
  assumes "dbl_wf d" and "dexp d \<le> dexp d'" and "dbl_real d \<noteq> dbl_real d'"
  shows "\<bar>dbl_real d\<bar> \<le> 2 ^ 53 * \<bar>dbl_real d - dbl_real d'\<bar>"
proof -
  let ?u = "(2::real) powi dexp d" and ?b = "dbl_signed d' * 2 ^ nat (dexp d' - dexp d)"
  have u: "0 < ?u" by simp
  have "(2::real) powi dexp d' = 2 powi (dexp d' - dexp d) * ?u" by (simp flip: power_int_add)
  then have w: "dbl_real d' = of_int ?b * ?u"
    using assms(2) by (simp add: dbl_real_powi power_int_def)
  have v: "dbl_real d = of_int (dbl_signed d) * ?u" by (rule dbl_real_powi)
  have "dbl_signed d \<noteq> ?b" using assms(3) v w by auto
  then have "1 \<le> \<bar>dbl_signed d - ?b\<bar>" by linarith
  then have "(1::real) \<le> \<bar>of_int (dbl_signed d - ?b)\<bar>" by (metis of_int_1_le_iff of_int_abs)
  then have "?u \<le> \<bar>of_int (dbl_signed d - ?b)\<bar> * ?u" using mult_right_mono [OF _ less_imp_le [OF u], of 1] by simp
  also have "\<dots> = \<bar>dbl_real d - dbl_real d'\<bar>" using u by (simp add: v w abs_mult left_diff_distrib [symmetric])
  finally have g: "?u \<le> \<bar>dbl_real d - dbl_real d'\<bar>" .
  have "\<bar>dbl_signed d\<bar> \<le> 2 ^ 53" using assms(1) by (auto simp: dbl_wf_def dbl_signed_def)
  then have "\<bar>of_int (dbl_signed d)\<bar> \<le> (2::real) ^ 53" by (metis of_int_abs of_int_le_iff of_int_numeral of_int_power)
  then have "\<bar>dbl_real d\<bar> \<le> 2 ^ 53 * ?u" using u by (simp add: v abs_mult)
  moreover have "2 ^ 53 * ?u \<le> 2 ^ 53 * \<bar>dbl_real d - dbl_real d'\<bar>" using g by (intro mult_left_mono) simp_all
  ultimately show ?thesis by (rule order_trans)
qed

lemma dbl_gap:
  assumes "dbl_wf d" and "dbl_wf d'" and "dbl_real d \<noteq> dbl_real d'"
  shows "\<bar>dbl_real d\<bar> \<le> (2 ^ 53 + 1) * \<bar>dbl_real d - dbl_real d'\<bar>"
proof (cases "dexp d \<le> dexp d'")
  case True
  from dbl_gap_aux [OF assms(1) True assms(3)] show ?thesis by (simp add: distrib_right)
next
  case False
  then have "\<bar>dbl_real d'\<bar> \<le> 2 ^ 53 * \<bar>dbl_real d - dbl_real d'\<bar>"
    using dbl_gap_aux [OF assms(2), of d] assms(3) by (simp add: abs_minus_commute)
  moreover have "\<bar>dbl_real d\<bar> \<le> \<bar>dbl_real d'\<bar> + \<bar>dbl_real d - dbl_real d'\<bar>" by linarith
  ultimately show ?thesis by (simp only: distrib_right mult_1)
qed

section \<open>The buffer is large enough\<close>

lemma pow2_le_pow10: "(2::nat) ^ 1024 \<le> 10 ^ 512" "(2::nat) ^ 1074 \<le> 10 ^ 512"
proof -
  have e: "(4::nat) ^ 512 = 2 ^ 1024" "(8::nat) ^ 512 = 2 ^ 1536"
    using power_mult [of "2::nat" 2 512] power_mult [of "2::nat" 3 512] by simp_all
  have "(4::nat) ^ 512 \<le> 10 ^ 512" by (rule power_mono) simp_all
  then show "(2::nat) ^ 1024 \<le> 10 ^ 512" by (simp only: e)
  have "(2::nat) ^ 1074 \<le> 2 ^ 1536" by (rule power_increasing) simp_all
  also have "\<dots> \<le> 10 ^ 512" unfolding e(2) [symmetric] by (rule power_mono) simp_all
  finally show "(2::nat) ^ 1074 \<le> 10 ^ 512" .
qed

lemma dec_exp_range_gen:
  assumes "0 < num" and "0 < den" and "num < 10 ^ k" and "den \<le> 10 ^ k"
  shows "\<bar>dec_exp num den\<bar> \<le> int k + 1"
proof -
  let ?X = "dec_exp num den" and ?v = "real num / real den"
  note b = dec_exp_bounds [OF assms(1,2)]
  have p: "(10::real) powi int k = 10 ^ k" "(10::real) powi (- int k) = 1 / 10 ^ k"
    by (simp_all add: power_int_minus divide_inverse)
  have "real num < 10 ^ k" using assms(3) by (metis of_nat_less_iff of_nat_numeral of_nat_power)
  moreover have "?v \<le> real num / 1" using assms(2) by (intro divide_left_mono) simp_all
  ultimately have "10 powi ?X < (10::real) powi int k" using b unfolding p(1) div_by_1 by linarith
  then have up: "?X < int k" using power_int_increasing [of "int k" ?X "10::real"] by linarith
  have "real den \<le> 10 ^ k" using assms(4) by (metis of_nat_le_iff of_nat_numeral of_nat_power)
  then have "1 / 10 ^ k \<le> 1 / real den" using assms(2) by (intro divide_left_mono) simp_all
  also have "\<dots> \<le> ?v" using assms(1) by (intro divide_right_mono) simp_all
  finally have "(10::real) powi (- int k) < 10 powi (?X + 1)" using b p by simp
  then have "- int k < ?X + 1" using power_int_increasing [of "?X + 1" "- int k" "10::real"] by linarith
  with up show ?thesis by linarith
qed

lemma dec_exp_range:
  assumes "dbl_wf d" and "dmant d \<noteq> 0"
  shows "\<bar>dec_exp (dbl_num d) (dbl_den d)\<bar> < 900"
proof -
  have n: "0 < dbl_num d" using assms(2) by (simp add: dbl_num_def)
  have "(2::nat) ^ nat (dexp d) \<le> 2 ^ 971"
    using assms(1) by (intro power_increasing) (auto simp: dbl_wf_def)
  then have "dbl_num d < 2 ^ 53 * 2 ^ 971"
    unfolding dbl_num_def using assms(1) by (intro mult_less_le_imp_less) (simp_all only: dbl_wf_def, simp_all)
  moreover have "(2::nat) ^ 53 * 2 ^ 971 = 2 ^ 1024" by (simp only: power_add [symmetric]) simp
  ultimately have "dbl_num d < 10 ^ 512" using pow2_le_pow10(1) by (metis order_less_le_trans)
  moreover have "dbl_den d \<le> 2 ^ 1074"
    unfolding dbl_den_def using assms(1) by (intro power_increasing) (auto simp: dbl_wf_def)
  then have "dbl_den d \<le> 10 ^ 512" using pow2_le_pow10(2) by (rule order_trans)
  ultimately have "\<bar>dec_exp (dbl_num d) (dbl_den d)\<bar> \<le> int 512 + 1"
    by (rule dec_exp_range_gen [OF n dbl_den_pos])
  then show ?thesis by simp
qed

lemma length_dot_frac: "length (dot_frac fp) \<le> Suc (length fp)"
  by (simp add: dot_frac_def)

lemma length_exp_digits: "n < 1000 \<Longrightarrow> length (exp_digits n) \<le> 3"
  using pos_exp_bounds [of n] by (auto simp: exp_digits_def nat_to_dec.simps [of n] nat_to_dec.simps [of "n div 10"]
      nat_to_dec.simps [of "n div 10 div 10"] split: if_splits)

lemma length_fmt_sig17:
  assumes "length (nat_to_dec D) = 17" and "\<bar>X\<bar> < 1000"
  shows "length (fmt_sig17 D X) \<le> 23"
proof -
  let ?ds = "nat_to_dec D"
  have s: "length (strip0 (drop n ?ds)) \<le> 17 - n" for n
    using length_strip0 [of "drop n ?ds"] assms(1) by simp
  have "length (exp_digits (nat \<bar>X\<bar>)) \<le> 3" using assms(2) by (intro length_exp_digits) simp
  moreover have "length (dot_frac (strip0 (tl ?ds))) \<le> 17"
    using length_dot_frac [of "strip0 (tl ?ds)"] s [of 1] by (simp add: drop_Suc)
  moreover have "length (dot_frac (strip0 (drop (nat X + 1) ?ds))) \<le> Suc (17 - (nat X + 1))"
    using length_dot_frac [of "strip0 (drop (nat X + 1) ?ds)"] s [of "nat X + 1"] by simp
  ultimately show ?thesis using s [of 0] assms(1) by (auto simp: fmt_sig17_def Let_def)
qed

text \<open>The number written for a double identifies it.  For every finite double, \<^verbatim>\<open>appendDouble\<close>
  writes a literal that is a JSON number, shorter than the 32-byte buffer, and whose decimal value is
  strictly closer to that double than to any other finite double of a different value: a reader that
  rounds to nearest gets the same number back.\<close>

lemma printed_double_identified:
  assumes "dbl_wf d" and "dbl_wf d'" and "dbl_real d' \<noteq> dbl_real d"
  shows "length (fmt17g d) < 32
     \<and> (\<exists>p. num_parts (fmt17g d) = Some p \<and> \<bar>num_real p - dbl_real d\<bar> < \<bar>num_real p - dbl_real d'\<bar>)"
proof
  show "length (fmt17g d) < 32"
  proof (cases "dmant d = 0")
    case False
    then have n: "0 < dbl_num d" by (simp add: dbl_num_def)
    obtain D X where s: "sig17 (dbl_num d) (dbl_den d) = (D, X)" by fastforce
    have "\<bar>X\<bar> < 1000" using s dec_exp_range [OF assms(1) False] by (auto simp: sig17_def Let_def split: if_splits)
    moreover have "length (nat_to_dec D) = 17" using sig17_spec [OF n dbl_den_pos s] length_sig17 by blast
    ultimately show ?thesis using length_fmt_sig17 [of D X] False by (simp add: fmt17g_def s)
  qed (simp add: fmt17g_def)
  let ?v = "dbl_real d" and ?w = "dbl_real d'"
  obtain p where p: "num_parts (fmt17g d) = Some p" and e: "\<bar>num_real p - ?v\<bar> \<le> \<bar>?v\<bar> / (2 * 10 ^ 16)"
    using fmt17g_reads by blast
  have "\<bar>?v\<bar> \<le> 9007199254740993 * \<bar>?v - ?w\<bar>" using dbl_gap [OF assms(1,2)] assms(3) by simp
  moreover have "\<bar>num_real p - ?v\<bar> * 20000000000000000 \<le> \<bar>?v\<bar>" using e by simp
  moreover have "0 < \<bar>?v - ?w\<bar>" using assms(3) by simp
  moreover have "a \<le> 9007199254740993 * g \<Longrightarrow> t * 20000000000000000 \<le> a \<Longrightarrow> 0 < g \<Longrightarrow> 2 * t < g" for a g t :: real
    by linarith
  ultimately have "2 * \<bar>num_real p - ?v\<bar> < \<bar>?v - ?w\<bar>" by blast
  then show "\<exists>p. num_parts (fmt17g d) = Some p \<and> \<bar>num_real p - ?v\<bar> < \<bar>num_real p - ?w\<bar>"
    by (intro exI [of _ p] conjI p) (auto simp: abs_if split: if_splits)
qed

lemma fmt17g_example: "fmt17g (Dbl True 3 (- 1)) = ''-1.5''"
  by (simp add: fmt17g_def dbl_num_def dbl_den_def sig17_def dec_exp_def pos_exp.simps round_half_even_def
      fmt_sig17_def nat_to_dec.simps strip0_def dot_frac_def Let_def)

end
