(* ===== verification/JsonWriter.thy ===== *)
theory JsonWriter
  imports FmtDouble
begin

text \<open>
  \<^verbatim>\<open>src/src/json_writer.cpp\<close>: the direct R to JSON serialiser behind \<^verbatim>\<open>dr_json()\<close>. The writer appends
  to a byte buffer and stops at the first unsupported value; the buffer is threaded through exactly as
  the source does. A reference reader for JSON texts, written from RFC 8259 and sharing no code with
  the writer, states what the bytes mean.
\<close>

section \<open>The writer\<close>

definition kMaxDepth :: int where
  "kMaxDepth = 64"

datatype WriteResult = Ok | Unsupported

definition hasClass :: "sexp \<Rightarrow> bool" where
  "hasClass x \<longleftrightarrow> (case class_of x of None \<Rightarrow> False | Some cls \<Rightarrow> length cls > 0)"

definition hex_digit :: "nat \<Rightarrow> char" where
  "hex_digit n = (if n < 10 then char_of (48 + n) else char_of (87 + n))"

text \<open>\<^verbatim>\<open>snprintf(esc, 8, "\u%04x", c)\<close> for a byte below 0x20.\<close>

definition u_escape :: "char \<Rightarrow> string" where
  "u_escape c =
     (let n = of_char c :: nat in [CHR 0x5C, CHR ''u'', CHR ''0'', CHR ''0'', hex_digit (n div 16), hex_digit (n mod 16)])"

definition escape_char :: "char \<Rightarrow> string" where
  "escape_char c =
     (if c = CHR 0x22 then [CHR 0x5C, CHR 0x22]
      else if c = CHR 0x5C then [CHR 0x5C, CHR 0x5C]
      else if c = CHR 0x08 then [CHR 0x5C, CHR ''b'']
      else if c = CHR 0x0C then [CHR 0x5C, CHR ''f'']
      else if c = CHR 0x0A then [CHR 0x5C, CHR ''n'']
      else if c = CHR 0x0D then [CHR 0x5C, CHR ''r'']
      else if c = CHR 0x09 then [CHR 0x5C, CHR ''t'']
      else if (of_char c :: nat) < 32 then u_escape c
      else [c])"

fun escape_loop :: "string \<Rightarrow> string \<Rightarrow> string" where
  "escape_loop buf [] = buf"
| "escape_loop buf (c # s) = escape_loop (buf @ escape_char c) s"

definition appendEscapedString :: "string \<Rightarrow> string \<Rightarrow> string" where
  "appendEscapedString buf s = escape_loop (buf @ [CHR 0x22]) s @ [CHR 0x22]"

definition appendCharSEXP :: "string \<Rightarrow> charsxp \<Rightarrow> string" where
  "appendCharSEXP buf c =
     (case c of NA_STRING \<Rightarrow> buf @ ''null'' | Chr _ \<Rightarrow> appendEscapedString buf (R_CHAR c))"

definition quoted :: "string \<Rightarrow> string" where
  "quoted s = [CHR 0x22] @ s @ [CHR 0x22]"

definition appendDouble :: "string \<Rightarrow> rdouble \<Rightarrow> string" where
  "appendDouble buf v =
     (case v of
        NA_REAL \<Rightarrow> buf @ quoted ''NA''
      | R_NaN \<Rightarrow> buf @ quoted ''NaN''
      | R_PosInf \<Rightarrow> buf @ quoted ''Inf''
      | R_NegInf \<Rightarrow> buf @ quoted ''-Inf''
      | Fin d \<Rightarrow> buf @ fmt17g d)"

definition appendInt :: "string \<Rightarrow> int \<Rightarrow> string" where
  "appendInt buf v = (if v = NA_INTEGER then buf @ quoted ''NA'' else buf @ int_to_dec v)"

text \<open>\<^verbatim>\<open>NA_LOGICAL\<close> is the same bit pattern as \<^verbatim>\<open>NA_INTEGER\<close>.\<close>

definition appendBool :: "string \<Rightarrow> int \<Rightarrow> string" where
  "appendBool buf v =
     (if v = NA_INTEGER then buf @ ''null'' else if v = 0 then buf @ ''false'' else buf @ ''true'')"

text \<open>The element loop shared by the four cases of \<^verbatim>\<open>writeAtomic\<close>: a comma before all but the first.\<close>

fun elem_loop :: "(string \<Rightarrow> 'a \<Rightarrow> string) \<Rightarrow> nat \<Rightarrow> string \<Rightarrow> 'a list \<Rightarrow> string" where
  "elem_loop app i buf [] = buf"
| "elem_loop app i buf (x # xs) =
     elem_loop app (Suc i) (app (if i > 0 then buf @ '','' else buf) x) xs"

definition write_vec :: "(string \<Rightarrow> 'a \<Rightarrow> string) \<Rightarrow> bool \<Rightarrow> string \<Rightarrow> 'a list \<Rightarrow> string" where
  "write_vec app autoUnbox buf xs =
     (if autoUnbox \<and> length xs = 1 then app buf (hd xs)
      else elem_loop app 0 (buf @ ''['') xs @ '']'')"

fun writeAtomic :: "string \<Rightarrow> sexp \<Rightarrow> bool \<Rightarrow> WriteResult \<times> string" where
  "writeAtomic buf x autoUnbox =
     (if hasClass x then (Unsupported, buf)
      else (case x of
              LGLSXP _ xs \<Rightarrow> (Ok, write_vec appendBool autoUnbox buf xs)
            | INTSXP _ xs \<Rightarrow> (Ok, write_vec appendInt autoUnbox buf xs)
            | REALSXP _ xs \<Rightarrow> (Ok, write_vec appendDouble autoUnbox buf xs)
            | STRSXP _ xs \<Rightarrow> (Ok, write_vec appendCharSEXP autoUnbox buf xs)
            | _ \<Rightarrow> (Unsupported, buf)))"

text \<open>
  \<^verbatim>\<open>writeValue\<close> and \<^verbatim>\<open>writeList\<close>, with the object loop and the array loop of the latter. R keeps the
  names attribute at the length of the list, which \<^verbatim>\<open>Rf_xlength(nms) == n\<close> checks again.
\<close>

fun writeValue :: "string \<Rightarrow> sexp \<Rightarrow> bool \<Rightarrow> int \<Rightarrow> WriteResult \<times> string"
and writeObject :: "string \<Rightarrow> charsxp list \<Rightarrow> sexp list \<Rightarrow> nat \<Rightarrow> bool \<Rightarrow> int \<Rightarrow> WriteResult \<times> string"
and writeArray :: "string \<Rightarrow> sexp list \<Rightarrow> nat \<Rightarrow> bool \<Rightarrow> int \<Rightarrow> WriteResult \<times> string"
where
  "writeValue buf (VECSXP a xs) au depth =
     (if depth > kMaxDepth then (Unsupported, buf)
      else if hasClass (VECSXP a xs) then (Unsupported, buf)
      else (case a_names a of
              Some nms \<Rightarrow>
                if length nms = length xs then writeObject (buf @ ''{'') nms xs 0 au depth
                else (Unsupported, buf)
            | None \<Rightarrow> writeArray (buf @ ''['') xs 0 au depth))"
| "writeValue buf NilSXP au depth =
     (if depth > kMaxDepth then (Unsupported, buf)
      else if depth > 0 then (Unsupported, buf) else (Ok, buf @ ''{}''))"
| "writeValue buf (LGLSXP a xs) au depth =
     (if depth > kMaxDepth then (Unsupported, buf) else writeAtomic buf (LGLSXP a xs) au)"
| "writeValue buf (INTSXP a xs) au depth =
     (if depth > kMaxDepth then (Unsupported, buf) else writeAtomic buf (INTSXP a xs) au)"
| "writeValue buf (REALSXP a xs) au depth =
     (if depth > kMaxDepth then (Unsupported, buf) else writeAtomic buf (REALSXP a xs) au)"
| "writeValue buf (STRSXP a xs) au depth =
     (if depth > kMaxDepth then (Unsupported, buf) else writeAtomic buf (STRSXP a xs) au)"
| "writeValue buf (RAWSXP _ _) au depth = (Unsupported, buf)"
| "writeValue buf (CLOSXP _) au depth = (Unsupported, buf)"
| "writeValue buf (EXTPTRSXP _) au depth = (Unsupported, buf)"
| "writeValue buf (OtherSXP _ _) au depth = (Unsupported, buf)"
| "writeObject buf nms [] i au depth = (Ok, buf @ ''}'')"
| "writeObject buf [] (x # xs) i au depth = (Unsupported, buf)"
| "writeObject buf (key # nms) (x # xs) i au depth =
     (let buf1 = (if i > 0 then buf @ '','' else buf)
      in if key = NA_STRING then (Unsupported, buf1)
         else if R_CHAR key = [] then (Unsupported, buf1)
         else (case writeValue (appendEscapedString buf1 (R_CHAR key) @ '':'') x au (depth + 1) of
                 (Ok, buf2) \<Rightarrow> writeObject buf2 nms xs (Suc i) au depth
               | (Unsupported, buf2) \<Rightarrow> (Unsupported, buf2)))"
| "writeArray buf [] i au depth = (Ok, buf @ '']'')"
| "writeArray buf (x # xs) i au depth =
     (case writeValue (if i > 0 then buf @ '','' else buf) x au (depth + 1) of
        (Ok, buf2) \<Rightarrow> writeArray buf2 xs (Suc i) au depth
      | (Unsupported, buf2) \<Rightarrow> (Unsupported, buf2))"

fun auto_unbox_flag :: "sexp \<Rightarrow> bool" where
  "auto_unbox_flag (LGLSXP _ [v]) = (v = 1)"
| "auto_unbox_flag _ = False"

text \<open>The entry point: \<^verbatim>\<open>R_NilValue\<close> tells the R side to fall back to jsonlite.\<close>

definition drogonR_to_json :: "sexp \<Rightarrow> sexp \<Rightarrow> sexp" where
  "drogonR_to_json x auto_unbox =
     (case writeValue [] x (auto_unbox_flag auto_unbox) 0 of
        (Ok, buf) \<Rightarrow> STRSXP no_attr [Chr buf]
      | (Unsupported, _) \<Rightarrow> NilSXP)"

section \<open>The reference reader\<close>

datatype json =
    JNull
  | JBool bool
  | JNum string
  | JStr string
  | JArr "json list"
  | JObj "(string \<times> json) list"

definition hex_val :: "char \<Rightarrow> nat option" where
  "hex_val c =
     (let n = of_char c :: nat
      in if 48 \<le> n \<and> n \<le> 57 then Some (n - 48)
         else if 97 \<le> n \<and> n \<le> 102 then Some (n - 87)
         else if 65 \<le> n \<and> n \<le> 70 then Some (n - 55) else None)"

definition simple_escape :: "char \<Rightarrow> char option" where
  "simple_escape e =
     (if e = CHR 0x22 \<or> e = CHR 0x5C \<or> e = CHR ''/'' then Some e
      else if e = CHR ''b'' then Some (CHR 0x08) else if e = CHR ''f'' then Some (CHR 0x0C)
      else if e = CHR ''n'' then Some (CHR 0x0A) else if e = CHR ''r'' then Some (CHR 0x0D)
      else if e = CHR ''t'' then Some (CHR 0x09) else None)"

text \<open>A four-digit escape; only ASCII code points are decoded here, which is what the writer emits.\<close>

fun u_decode :: "string \<Rightarrow> (char \<times> string) option" where
  "u_decode (a # b # c # d # s) =
     (case (hex_val a, hex_val b, hex_val c, hex_val d) of
        (Some w, Some x, Some y, Some z) \<Rightarrow>
          (let n = ((w * 16 + x) * 16 + y) * 16 + z in if n < 128 then Some (char_of n, s) else None)
      | _ \<Rightarrow> None)"
| "u_decode _ = None"

lemma u_decode_shorter: "u_decode s = Some (c, t) \<Longrightarrow> length t < length s"
  by (induction s rule: u_decode.induct) (auto simp: Let_def split: option.splits if_splits)

text \<open>The rest of a string literal after its opening quote.\<close>

function p_string :: "string \<Rightarrow> (string \<times> string) option" where
  "p_string s =
     (case s of
        [] \<Rightarrow> None
      | c # t \<Rightarrow>
          if c = CHR 0x22 then Some ([], t)
          else if c = CHR 0x5C then
            (case t of
               [] \<Rightarrow> None
             | e # u \<Rightarrow>
                 (case simple_escape e of
                    Some ch \<Rightarrow> map_option (\<lambda>(x, r). (ch # x, r)) (p_string u)
                  | None \<Rightarrow>
                      if e = CHR ''u'' then
                        (case u_decode u of
                           None \<Rightarrow> None
                         | Some (ch, v) \<Rightarrow> map_option (\<lambda>(x, r). (ch # x, r)) (p_string v))
                      else None))
          else if (of_char c :: nat) < 32 then None
          else map_option (\<lambda>(x, r). (c # x, r)) (p_string t))"
  by pat_completeness auto
termination
  by (relation "measure length") (auto dest!: u_decode_shorter)

declare p_string.simps [simp del]

definition num_char :: "char \<Rightarrow> bool" where
  "num_char c \<longleftrightarrow> is_digit c \<or> c \<in> {CHR ''-'', CHR ''+'', CHR ''.'', CHR ''e'', CHR ''E''}"

definition p_literal :: "string \<Rightarrow> (json \<times> string) option" where
  "p_literal s =
     (if has_prefix ''null'' s then Some (JNull, drop 4 s)
      else if has_prefix ''true'' s then Some (JBool True, drop 4 s)
      else if has_prefix ''false'' s then Some (JBool False, drop 5 s)
      else (let tok = takeWhile num_char s
            in case num_parts tok of None \<Rightarrow> None | Some _ \<Rightarrow> Some (JNum tok, dropWhile num_char s)))"

text \<open>Values, array elements and object members; the fuel bounds the nesting and the lengths.\<close>

fun p_value :: "nat \<Rightarrow> string \<Rightarrow> (json \<times> string) option"
and p_elems :: "nat \<Rightarrow> string \<Rightarrow> (json list \<times> string) option"
and p_members :: "nat \<Rightarrow> string \<Rightarrow> ((string \<times> json) list \<times> string) option"
where
  "p_value 0 s = None"
| "p_value (Suc n) s =
     (case s of
        [] \<Rightarrow> None
      | c # t \<Rightarrow>
          if c = CHR 0x22 then map_option (\<lambda>(x, r). (JStr x, r)) (p_string t)
          else if c = CHR ''['' then
            (if t \<noteq> [] \<and> hd t = CHR '']'' then Some (JArr [], tl t)
             else map_option (\<lambda>(xs, r). (JArr xs, r)) (p_elems n t))
          else if c = CHR ''{'' then
            (if t \<noteq> [] \<and> hd t = CHR ''}'' then Some (JObj [], tl t)
             else map_option (\<lambda>(xs, r). (JObj xs, r)) (p_members n t))
          else p_literal s)"
| "p_elems 0 s = None"
| "p_elems (Suc n) s =
     (case p_value n s of
        None \<Rightarrow> None
      | Some (v, r) \<Rightarrow>
          (case r of
             [] \<Rightarrow> None
           | c # t \<Rightarrow>
               if c = CHR '']'' then Some ([v], t)
               else if c = CHR '','' then map_option (\<lambda>(vs, r). (v # vs, r)) (p_elems n t)
               else None))"
| "p_members 0 s = None"
| "p_members (Suc n) s =
     (case s of
        [] \<Rightarrow> None
      | c # t \<Rightarrow>
          if c \<noteq> CHR 0x22 then None
          else (case p_string t of
                  None \<Rightarrow> None
                | Some (k, r) \<Rightarrow>
                    (case r of
                       [] \<Rightarrow> None
                     | d # u \<Rightarrow>
                         if d \<noteq> CHR '':'' then None
                         else (case p_value n u of
                                 None \<Rightarrow> None
                               | Some (v, w) \<Rightarrow>
                                   (case w of
                                      [] \<Rightarrow> None
                                    | e # x \<Rightarrow>
                                        if e = CHR ''}'' then Some ([(k, v)], x)
                                        else if e = CHR '','' then
                                          map_option (\<lambda>(ms, r). ((k, v) # ms, r)) (p_members n x)
                                        else None)))))"

text \<open>A complete JSON text; as much fuel as there are bytes is enough.\<close>

definition json_parse :: "string \<Rightarrow> json option" where
  "json_parse s = (case p_value (Suc (length s)) s of Some (j, []) \<Rightarrow> Some j | _ \<Rightarrow> None)"

section \<open>What a value means\<close>

text \<open>The JSON tree jsonlite's defaults assign to the values the fast path supports.\<close>

definition bool_json :: "int \<Rightarrow> json" where
  "bool_json v = (if v = NA_INTEGER then JNull else JBool (v \<noteq> 0))"

definition int_json :: "int \<Rightarrow> json" where
  "int_json v = (if v = NA_INTEGER then JStr ''NA'' else JNum (int_to_dec v))"

definition double_json :: "rdouble \<Rightarrow> json" where
  "double_json v =
     (case v of NA_REAL \<Rightarrow> JStr ''NA'' | R_NaN \<Rightarrow> JStr ''NaN'' | R_PosInf \<Rightarrow> JStr ''Inf''
      | R_NegInf \<Rightarrow> JStr ''-Inf'' | Fin d \<Rightarrow> JNum (fmt17g d))"

definition char_json :: "charsxp \<Rightarrow> json" where
  "char_json c = (case c of NA_STRING \<Rightarrow> JNull | Chr _ \<Rightarrow> JStr (R_CHAR c))"

definition vec_json :: "('a \<Rightarrow> json) \<Rightarrow> bool \<Rightarrow> 'a list \<Rightarrow> json" where
  "vec_json f au xs = (if au \<and> length xs = 1 then f (hd xs) else JArr (map f xs))"

fun tree :: "bool \<Rightarrow> sexp \<Rightarrow> json" where
  "tree au (VECSXP a xs) =
     (case a_names a of
        None \<Rightarrow> JArr (map (tree au) xs)
      | Some nms \<Rightarrow> JObj (zip (map R_CHAR nms) (map (tree au) xs)))"
| "tree au (LGLSXP _ xs) = vec_json bool_json au xs"
| "tree au (INTSXP _ xs) = vec_json int_json au xs"
| "tree au (REALSXP _ xs) = vec_json double_json au xs"
| "tree au (STRSXP _ xs) = vec_json char_json au xs"
| "tree au _ = JObj []"

section \<open>Strings\<close>

lemma hex_val_hex_digit: "n < 16 \<Longrightarrow> hex_val (hex_digit n) = Some n"
  by (auto simp: hex_val_def hex_digit_def Let_def of_char_of take_bit_nat_eq_self)

lemma u_decode_u_escape:
  assumes "(of_char c :: nat) < 32"
  shows "u_decode (drop 2 (u_escape c) @ t) = Some (c, t)"
proof -
  let ?n = "of_char c :: nat"
  have z: "hex_val (CHR ''0'') = Some 0" by (simp add: hex_val_def)
  have "?n div 16 < 16" "?n mod 16 < 16" using assms by auto
  then show ?thesis
    using assms by (simp add: u_escape_def Let_def z hex_val_hex_digit)
qed

lemma p_string_escape: "p_string (escape_char c @ t) = map_option (\<lambda>(x, r). (c # x, r)) (p_string t)"
proof (cases "c \<in> {CHR 0x22, CHR 0x5C, CHR 0x08, CHR 0x0C, CHR 0x0A, CHR 0x0D, CHR 0x09}")
  case True
  then show ?thesis
    by (elim insertE emptyE)
      (simp_all add: escape_char_def p_string.simps [of "CHR 0x5C # _"] simple_escape_def)
next
  case False
  show ?thesis
  proof (cases "(of_char c :: nat) < 32")
    case True
    then have "escape_char c @ t = CHR 0x5C # CHR ''u'' # drop 2 (u_escape c) @ t"
      using False by (simp add: escape_char_def u_escape_def Let_def)
    then show ?thesis
      by (simp add: p_string.simps [of "CHR 0x5C # _"] simple_escape_def u_decode_u_escape [OF True])
  next
    case ctl: False
    with False have "escape_char c @ t = c # t" by (simp add: escape_char_def)
    then show ?thesis using False ctl by (simp add: p_string.simps [of "c # t"])
  qed
qed

definition esc :: "string \<Rightarrow> string" where
  "esc s = concat (map escape_char s)"

lemma p_string_esc: "p_string (esc s @ CHR 0x22 # rest) = Some (s, rest)"
proof (induction s)
  case Nil
  then show ?case by (simp add: esc_def p_string.simps [of "CHR 0x22 # rest"])
next
  case (Cons c s)
  have "esc (c # s) @ CHR 0x22 # rest = escape_char c @ (esc s @ CHR 0x22 # rest)" by (simp add: esc_def)
  with Cons show ?case by (simp only: p_string_escape) simp
qed

lemma appendEscapedString_eq: "appendEscapedString buf s = buf @ CHR 0x22 # esc s @ [CHR 0x22]"
proof -
  have "escape_loop b s = b @ esc s" for b by (induction s arbitrary: b) (simp_all add: esc_def)
  then show ?thesis by (simp add: appendEscapedString_def)
qed

section \<open>Scalars\<close>

abbreviation ends_number :: "string \<Rightarrow> bool" where
  "ends_number rest \<equiv> rest = [] \<or> \<not> num_char (hd rest)"

text \<open>\<open>reads s j\<close>: whatever follows (short of continuing a number), the reader takes \<open>s\<close> as \<open>j\<close>, with no more fuel than bytes.\<close>

definition reads :: "string \<Rightarrow> json \<Rightarrow> bool" where
  "reads s j \<longleftrightarrow> s \<noteq> [] \<and> (\<forall>m rest. length s \<le> m \<longrightarrow> ends_number rest \<longrightarrow> p_value m (s @ rest) = Some (j, rest))"

lemma readsI:
  "s \<noteq> [] \<Longrightarrow> (\<And>n rest. length s \<le> Suc n \<Longrightarrow> ends_number rest \<Longrightarrow> p_value (Suc n) (s @ rest) = Some (j, rest)) \<Longrightarrow> reads s j"
  unfolding reads_def by (metis Suc_le_D length_greater_0_conv less_eq_Suc_le order_less_le_trans not0_implies_Suc not_less0)

lemma readsD: "reads s j \<Longrightarrow> length s \<le> m \<Longrightarrow> ends_number rest \<Longrightarrow> p_value m (s @ rest) = Some (j, rest)"
  unfolding reads_def by blast

lemma reads_string: "reads (CHR 0x22 # esc s @ [CHR 0x22]) (JStr s)"
  by (rule readsI) (simp_all add: p_string_esc)

lemma esc_plain: "list_all (\<lambda>c. escape_char c = [c]) s \<Longrightarrow> esc s = s"
  by (induction s) (simp_all add: esc_def)

lemma reads_quoted: "list_all (\<lambda>c. escape_char c = [c]) s \<Longrightarrow> reads (quoted s) (JStr s)"
  using reads_string [of s] by (simp add: quoted_def esc_plain)

lemma reads_null: "reads ''null'' JNull" and reads_true: "reads ''true'' (JBool True)"
  and reads_false: "reads ''false'' (JBool False)"
  by (rule readsI, simp, simp add: p_literal_def has_prefix_def)+

lemma takeWhile_num: "list_all num_char tok \<Longrightarrow> ends_number rest \<Longrightarrow> takeWhile num_char (tok @ rest) = tok"
  by (induction tok) (auto simp: takeWhile_eq_Nil_iff)

lemma dropWhile_num: "list_all num_char tok \<Longrightarrow> ends_number rest \<Longrightarrow> dropWhile num_char (tok @ rest) = rest"
  by (induction tok) (auto simp: dropWhile_eq_self_iff)

lemma reads_number:
  assumes "tok \<noteq> []" and "list_all num_char tok" and "num_parts tok = Some p"
  shows "reads tok (JNum tok)"
proof (rule readsI [OF assms(1)])
  fix n rest assume r: "ends_number rest"
  obtain c t where tok: "tok = c # t" using assms(1) by (cases tok) auto
  have "num_char c" using assms(2) tok by simp
  then have "c \<notin> {CHR 0x22, CHR ''['', CHR ''{'', CHR ''n'', CHR ''t'', CHR ''f''}"
    by (auto simp: num_char_def is_digit_def less_eq_char_def)
  then show "p_value (Suc n) (tok @ rest) = Some (JNum tok, rest)"
    using takeWhile_num [OF assms(2) r] dropWhile_num [OF assms(2) r] assms(3)
    by (simp add: tok p_literal_def has_prefix_def Let_def)
qed

lemma num_char_digit: "is_digit c \<Longrightarrow> num_char c"
  by (simp add: num_char_def)

lemma num_char_punct [simp]: "num_char CHR ''-''" "num_char CHR ''+''" "num_char CHR ''.''" "num_char CHR ''e''" "num_char CHR ''0''"
  by (simp_all add: num_char_def)

lemma list_all_digits_num: "list_all is_digit s \<Longrightarrow> list_all num_char s"
  by (auto simp: list_all_iff intro: num_char_digit)

lemma num_chars_fmt_sig17: "0 < D \<Longrightarrow> length (nat_to_dec D) = 17 \<Longrightarrow> list_all num_char (fmt_sig17 D X)"
proof -
  assume D: "0 < D" "length (nat_to_dec D) = 17"
  obtain ip fp eo where f: "fmt_sig17 D X = ip @ dot_frac fp @ exp_string eo" and ok: "parts_ok ip fp eo"
    using fmt_sig17_parts [OF D] by blast
  then show ?thesis
    by (auto simp: f parts_ok_def dot_frac_def exp_string_def intro: list_all_digits_num split: option.split)
qed

lemma fmt17g_nonempty: "fmt17g d \<noteq> []"
  by (auto simp: fmt17g_def fmt_sig17_def Let_def split: prod.split)

lemma num_chars_fmt17g: "list_all num_char (fmt17g d)"
proof (cases "dmant d = 0")
  case False
  then have n: "0 < dbl_num d" by (simp add: dbl_num_def)
  obtain D X where s: "sig17 (dbl_num d) (dbl_den d) = (D, X)" by fastforce
  note sp = sig17_spec [OF n dbl_den_pos s]
  have "list_all num_char (fmt_sig17 D X)"
    using sp length_sig17 [of D] by (intro num_chars_fmt_sig17) auto
  with False show ?thesis by (simp add: fmt17g_def s)
qed (simp add: fmt17g_def)

lemma reads_fmt17g: "reads (fmt17g d) (JNum (fmt17g d))"
  using fmt17g_reads [of d] reads_number [OF fmt17g_nonempty num_chars_fmt17g] by blast

lemma reads_int: "reads (int_to_dec v) (JNum (int_to_dec v))"
proof -
  let ?ds = "nat_to_dec (nat \<bar>v\<bar>)"
  have z: "hd ?ds = CHR ''0'' \<longrightarrow> tl ?ds = []"
    using hd_nat_to_dec [of "nat \<bar>v\<bar>"] by (cases "v = 0") (auto simp: nat_to_dec.simps [of 0])
  have e: "int_to_dec v = (if v < 0 then ''-'' else []) @ ?ds @ dot_frac [] @ exp_string None"
    by (simp add: int_to_dec_def dot_frac_def exp_string_def)
  have "num_parts (int_to_dec v) = Some (v < 0, ?ds, [], exp_value None)"
    unfolding e by (rule num_parts_render) (use z in \<open>auto simp: list_all_dec\<close>)
  then show ?thesis
    by (intro reads_number) (auto simp: int_to_dec_def list_all_digits_num list_all_dec)
qed

text \<open>Each \<open>append\<close> routine appends a text that reads as the value's meaning.\<close>

definition appends :: "(string \<Rightarrow> 'a \<Rightarrow> string) \<Rightarrow> ('a \<Rightarrow> json) \<Rightarrow> bool" where
  "appends app f \<longleftrightarrow> (\<forall>x. \<exists>s. reads s (f x) \<and> (\<forall>buf. app buf x = buf @ s))"

lemma appends_bool: "appends appendBool bool_json"
  unfolding appends_def
proof
  fix v
  show "\<exists>s. reads s (bool_json v) \<and> (\<forall>buf. appendBool buf v = buf @ s)"
    using reads_null reads_true reads_false
    by (cases "v = NA_INTEGER"; cases "v = 0") (auto simp: bool_json_def appendBool_def)
qed

lemma appends_int: "appends appendInt int_json"
  unfolding appends_def appendInt_def int_json_def
  using reads_int reads_quoted [of "''NA''"] by (auto simp: escape_char_def)

lemma appends_double: "appends appendDouble double_json"
  unfolding appends_def
proof
  fix v
  show "\<exists>s. reads s (double_json v) \<and> (\<forall>buf. appendDouble buf v = buf @ s)"
    using reads_fmt17g reads_quoted [of "''NA''"] reads_quoted [of "''NaN''"] reads_quoted [of "''Inf''"]
      reads_quoted [of "''-Inf''"]
    by (cases v) (auto simp: double_json_def appendDouble_def escape_char_def)
qed

lemma appends_char: "appends appendCharSEXP char_json"
  unfolding appends_def
proof
  fix c
  show "\<exists>s. reads s (char_json c) \<and> (\<forall>buf. appendCharSEXP buf c = buf @ s)"
    using reads_null reads_string
    by (cases c) (auto simp: char_json_def appendCharSEXP_def appendEscapedString_eq simp del: append_assoc)
qed

section \<open>Sequences\<close>

text \<open>\<open>reads_elems s js\<close>: the reader takes \<open>s\<close> as the elements \<open>js\<close> and the closing bracket.\<close>

definition reads_elems :: "string \<Rightarrow> json list \<Rightarrow> bool" where
  "reads_elems s js \<longleftrightarrow> (\<forall>m rest. length s \<le> m \<longrightarrow> p_elems m (s @ rest) = Some (js, rest))"

lemma ends_number_punct [simp]: "ends_number ('']'' @ r)" "ends_number ('','' @ r)" "ends_number (''}'' @ r)"
  by (simp_all add: num_char_def is_digit_def less_eq_char_def)

lemma reads_elems_last: "reads s j \<Longrightarrow> reads_elems (s @ '']'') [j]"
  unfolding reads_elems_def
proof (intro allI impI)
  fix m rest assume r: "reads s j" and m: "length (s @ '']'') \<le> m"
  then obtain n where n: "m = Suc n" "length s \<le> n" by (cases m) auto
  have "p_value n (s @ ('']'' @ rest)) = Some (j, '']'' @ rest)"
    using r n(2) ends_number_punct unfolding reads_def by blast
  then show "p_elems m ((s @ '']'') @ rest) = Some ([j], rest)" by (simp add: n)
qed

lemma reads_elems_cons: "reads s j \<Longrightarrow> reads_elems t js \<Longrightarrow> reads_elems (s @ '','' @ t) (j # js)"
  unfolding reads_elems_def
proof (intro allI impI)
  fix m rest
  assume r: "reads s j" and e: "\<forall>m rest. length t \<le> m \<longrightarrow> p_elems m (t @ rest) = Some (js, rest)"
    and m: "length (s @ '','' @ t) \<le> m"
  then obtain n where n: "m = Suc n" "length s \<le> n" "length t \<le> n" by (cases m) auto
  have "p_value n (s @ ('','' @ t @ rest)) = Some (j, '','' @ t @ rest)"
    using r n(2) ends_number_punct unfolding reads_def by blast
  then show "p_elems m ((s @ '','' @ t) @ rest) = Some (j # js, rest)" using e n(3) by (simp add: n)
qed

lemma p_value_close: "p_value n (CHR '']'' # t) = None"
  by (cases n) (auto simp: p_literal_def has_prefix_def num_char_def is_digit_def less_eq_char_def num_parts_def)

lemma reads_array_empty: "reads ''[]'' (JArr [])"
  by (rule readsI) simp_all

lemma reads_array:
  assumes "reads_elems s js"
  shows "reads (''['' @ s) (JArr js)"
proof (rule readsI)
  fix n rest assume "length (''['' @ s) \<le> Suc n"
  then have p: "p_elems n (s @ rest) = Some (js, rest)" using assms by (simp add: reads_elems_def)
  have "\<not> (s @ rest \<noteq> [] \<and> hd (s @ rest) = CHR '']'')"
  proof
    assume "s @ rest \<noteq> [] \<and> hd (s @ rest) = CHR '']''"
    then obtain t where "s @ rest = CHR '']'' # t" by (cases "s @ rest") auto
    with p show False by (cases n) (auto simp: p_value_close)
  qed
  with p show "p_value (Suc n) ((''['' @ s) @ rest) = Some (JArr js, rest)" by auto
qed simp

text \<open>The element loop.\<close>

lemma elem_loop_reads:
  assumes "appends app f" and "xs \<noteq> []"
  shows "\<exists>s. (\<forall>buf. elem_loop app i buf xs @ '']'' = buf @ (if i > 0 then '','' else []) @ s)
     \<and> reads_elems s (map f xs)"
  using assms(2)
proof (induction xs arbitrary: i)
  case (Cons x xs)
  obtain s where s: "reads s (f x)" "\<And>buf. app buf x = buf @ s" using assms(1) unfolding appends_def by blast
  show ?case
  proof (cases "xs = []")
    case True
    then show ?thesis using s reads_elems_last [OF s(1)] by (intro exI [of _ "s @ '']''"]) auto
  next
    case False
    then obtain t where t: "\<And>buf. elem_loop app (Suc i) buf xs @ '']'' = buf @ '','' @ t" "reads_elems t (map f xs)"
      using Cons.IH [of "Suc i"] by auto
    then show ?thesis using s reads_elems_cons [OF s(1) t(2)] by (intro exI [of _ "s @ '','' @ t"]) auto
  qed
qed simp

lemma write_vec_reads:
  assumes "appends app f"
  shows "\<exists>s. write_vec app au buf xs = buf @ s \<and> reads s (vec_json f au xs)"
proof (cases "au \<and> length xs = 1")
  case True
  then show ?thesis using assms by (auto simp: write_vec_def vec_json_def appends_def)
next
  case False
  show ?thesis
  proof (cases "xs = []")
    case True
    then show ?thesis using reads_array_empty by (auto simp: write_vec_def vec_json_def)
  next
    case ne: False
    obtain s where "\<And>buf. elem_loop app 0 buf xs @ '']'' = buf @ s" "reads_elems s (map f xs)"
      using elem_loop_reads [OF assms ne, of 0] by auto
    then show ?thesis using False reads_array [of s "map f xs"]
      by (intro exI [of _ "''['' @ s"]) (auto simp: write_vec_def vec_json_def)
  qed
qed

section \<open>Objects\<close>

definition reads_members :: "string \<Rightarrow> (string \<times> json) list \<Rightarrow> bool" where
  "reads_members s ms \<longleftrightarrow> (\<forall>m rest. length s \<le> m \<longrightarrow> p_members m (s @ rest) = Some (ms, rest))"

abbreviation member_text :: "string \<Rightarrow> string \<Rightarrow> string" where
  "member_text k s \<equiv> (CHR 0x22 # esc k @ [CHR 0x22]) @ '':'' @ s"

lemma p_members_step:
  assumes "reads s j" and "length s \<le> n" and "ends_number r"
  shows "p_members (Suc n) (member_text k s @ r) =
    (case r of [] \<Rightarrow> None
     | e # x \<Rightarrow> if e = CHR ''}'' then Some ([(k, j)], x)
                else if e = CHR '','' then map_option (\<lambda>(ms, r). ((k, j) # ms, r)) (p_members n x) else None)"
proof -
  have "p_value n (s @ r) = Some (j, r)" using assms unfolding reads_def by blast
  then show ?thesis by (simp add: p_string_esc)
qed

lemma reads_members_last: "reads s j \<Longrightarrow> reads_members (member_text k s @ ''}'') [(k, j)]"
  unfolding reads_members_def
proof (intro allI impI)
  fix m rest assume r: "reads s j" and m: "length (member_text k s @ ''}'') \<le> m"
  then obtain n where n: "m = Suc n" "length s \<le> n" by (cases m) auto
  show "p_members m ((member_text k s @ ''}'') @ rest) = Some ([(k, j)], rest)"
    using p_members_step [OF r n(2) ends_number_punct(3) [of rest], of k] by (simp add: n(1))
qed

lemma reads_members_cons:
  "reads s j \<Longrightarrow> reads_members t ms \<Longrightarrow> reads_members (member_text k s @ '','' @ t) ((k, j) # ms)"
  unfolding reads_members_def
proof (intro allI impI)
  fix m rest
  assume r: "reads s j" and e: "\<forall>m rest. length t \<le> m \<longrightarrow> p_members m (t @ rest) = Some (ms, rest)"
    and m: "length (member_text k s @ '','' @ t) \<le> m"
  then obtain n where n: "m = Suc n" "length s \<le> n" "length t \<le> n" by (cases m) auto
  show "p_members m ((member_text k s @ '','' @ t) @ rest) = Some ((k, j) # ms, rest)"
    using p_members_step [OF r n(2) ends_number_punct(2) [of "t @ rest"], of k] e n(3) by (simp add: n(1))
qed

lemma reads_object_empty: "reads ''{}'' (JObj [])"
  by (rule readsI) simp_all

lemma reads_object:
  assumes "reads_members s ms"
  shows "reads (''{'' @ s) (JObj ms)"
proof (rule readsI)
  fix n rest assume "length (''{'' @ s) \<le> Suc n"
  then have p: "p_members n (s @ rest) = Some (ms, rest)" using assms by (simp add: reads_members_def)
  have "\<not> (s @ rest \<noteq> [] \<and> hd (s @ rest) = CHR ''}'')"
  proof
    assume "s @ rest \<noteq> [] \<and> hd (s @ rest) = CHR ''}''"
    then obtain t where "s @ rest = CHR ''}'' # t" by (cases "s @ rest") auto
    with p show False by (cases n) auto
  qed
  with p show "p_value (Suc n) ((''{'' @ s) @ rest) = Some (JObj ms, rest)" by auto
qed simp

section \<open>The whole writer\<close>

lemma writeAtomic_reads:
  assumes "writeAtomic buf x au = (Ok, buf')"
  shows "\<exists>s. buf' = buf @ s \<and> reads s (tree au x)"
  using assms write_vec_reads [OF appends_bool] write_vec_reads [OF appends_int]
    write_vec_reads [OF appends_double] write_vec_reads [OF appends_char]
  by (cases x) (auto split: if_splits)

definition comma :: "nat \<Rightarrow> string" where
  "comma i = (if i > 0 then '','' else [])"

lemma comma_simps [simp]: "comma 0 = []" "comma (Suc i) = '',''"
  by (simp_all add: comma_def)

lemma comma_if: "(if i > 0 then buf @ '','' else buf) = buf @ comma i"
  by (simp add: comma_def)

text \<open>What the array loop and the object loop append from element \<open>i\<close> on.\<close>

definition elems_text :: "nat \<Rightarrow> json list \<Rightarrow> string \<Rightarrow> bool" where
  "elems_text i js t \<longleftrightarrow> (if js = [] then t = '']'' else \<exists>s. t = comma i @ s \<and> reads_elems s js)"

definition members_text :: "nat \<Rightarrow> (string \<times> json) list \<Rightarrow> string \<Rightarrow> bool" where
  "members_text i ms t \<longleftrightarrow> (if ms = [] then t = ''}'' else \<exists>s. t = comma i @ s \<and> reads_members s ms)"

lemma elems_text_reads: "elems_text 0 js t \<Longrightarrow> reads (''['' @ t) (JArr js)"
  using reads_array_empty reads_array by (auto simp: elems_text_def split: if_splits)

lemma members_text_reads: "members_text 0 ms t \<Longrightarrow> reads (''{'' @ t) (JObj ms)"
  using reads_object_empty reads_object by (auto simp: members_text_def split: if_splits)

lemma elems_text_cons: "reads s j \<Longrightarrow> elems_text (Suc i) js t \<Longrightarrow> elems_text k (j # js) (comma k @ s @ t)"
  using reads_elems_last [of s j] reads_elems_cons [of s j]
  by (cases "js = []") (auto simp: elems_text_def)

lemma members_text_cons:
  "reads s j \<Longrightarrow> members_text (Suc i) ms t \<Longrightarrow>
     members_text k ((key, j) # ms) (comma k @ (CHR 0x22 # esc key @ [CHR 0x22]) @ '':'' @ s @ t)"
  using reads_members_last [of s j key] reads_members_cons [of s j _ _ key]
  by (cases "ms = []") (auto simp: members_text_def)

lemma writer_reads:
  "writeValue buf x au depth = (Ok, buf') \<Longrightarrow> \<exists>s. buf' = buf @ s \<and> reads s (tree au x)"
  "writeObject buf nms xs i au depth = (Ok, buf') \<Longrightarrow> length nms = length xs \<Longrightarrow>
     \<exists>t. buf' = buf @ t \<and> members_text i (zip (map R_CHAR nms) (map (tree au) xs)) t"
  "writeArray buf xs i au depth = (Ok, buf') \<Longrightarrow> \<exists>t. buf' = buf @ t \<and> elems_text i (map (tree au) xs) t"
proof (induction buf x au depth and buf nms xs i au depth and buf xs i au depth
    arbitrary: buf' and buf' and buf' rule: writeValue_writeObject_writeArray.induct)
  case (1 buf a xs au depth)
  have d: "\<not> depth > kMaxDepth" "\<not> hasClass (VECSXP a xs)" using "1.prems" by (auto split: if_splits)
  show ?case
  proof (cases "a_names a")
    case None
    have w: "writeArray (buf @ ''['') xs 0 au depth = (Ok, buf')" using "1.prems" d None by simp
    from "1.IH"(1) [OF d None w] show ?thesis using None elems_text_reads by auto
  next
    case (Some nms)
    have l: "length nms = length xs" using "1.prems" d Some by (auto split: if_splits)
    have w: "writeObject (buf @ ''{'') nms xs 0 au depth = (Ok, buf')" using "1.prems" d Some l by simp
    from "1.IH"(2) [OF d Some l w l] show ?thesis using Some members_text_reads by auto
  qed
next
  case (2 buf au depth)
  then show ?case using reads_object_empty by (auto split: if_splits)
next
  case (13 buf key nms x xs i au depth)
  let ?b = "appendEscapedString (buf @ comma i) (R_CHAR key) @ '':''"
  obtain b2 where w: "writeValue ?b x au (depth + 1) = (Ok, b2)"
    and o: "writeObject b2 nms xs (Suc i) au depth = (Ok, buf')" and k: "key \<noteq> NA_STRING" "R_CHAR key \<noteq> []"
    using "13.prems"(1) by (auto simp: comma_def Let_def split: if_splits prod.splits WriteResult.splits)
  obtain s where s: "b2 = ?b @ s" "reads s (tree au x)"
    using "13.IH"(1) [OF refl] w k by (auto simp: comma_if)
  have "\<exists>t. buf' = b2 @ t \<and> members_text (Suc i) (zip (map R_CHAR nms) (map (tree au) xs)) t"
    by (rule "13.IH"(2) [OF refl k]) (use w o "13.prems"(2) in \<open>auto simp: comma_if\<close>)
  then obtain t where "buf' = b2 @ t" "members_text (Suc i) (zip (map R_CHAR nms) (map (tree au) xs)) t" by blast
  then show ?case using s members_text_cons [OF s(2), of i _ t i] by (auto simp: appendEscapedString_eq)
next
  case (15 buf x xs i au depth)
  obtain b2 where w: "writeValue (buf @ comma i) x au (depth + 1) = (Ok, b2)"
    and o: "writeArray b2 xs (Suc i) au depth = (Ok, buf')"
    using "15.prems" by (auto simp: comma_def split: if_splits prod.splits WriteResult.splits)
  obtain s where s: "b2 = (buf @ comma i) @ s" "reads s (tree au x)" using "15.IH"(1) w by (auto simp: comma_if)
  have "\<exists>t. buf' = b2 @ t \<and> elems_text (Suc i) (map (tree au) xs) t"
    by (rule "15.IH"(2)) (use w o in \<open>auto simp: comma_if\<close>)
  then obtain t where "buf' = b2 @ t" "elems_text (Suc i) (map (tree au) xs) t" by blast
  then show ?case using s elems_text_cons [OF s(2), of i _ t i] by auto
qed (auto simp: members_text_def elems_text_def simp del: writeAtomic.simps tree.simps split: if_splits dest!: writeAtomic_reads)

section \<open>Properties\<close>


text \<open>The values the fast path takes: no class attribute anywhere, no \<^verbatim>\<open>NULL\<close> below the top, names that are
  all present and non-empty, at most 64 levels.\<close>

fun supported :: "int \<Rightarrow> sexp \<Rightarrow> bool" where
  "supported depth (VECSXP a xs) =
     (depth \<le> kMaxDepth \<and> \<not> hasClass (VECSXP a xs)
      \<and> (case a_names a of
           None \<Rightarrow> True
         | Some nms \<Rightarrow> length nms = length xs \<and> list_all (\<lambda>k. k \<noteq> NA_STRING \<and> R_CHAR k \<noteq> []) nms)
      \<and> list_all (supported (depth + 1)) xs)"
| "supported depth NilSXP = (depth \<le> 0)"
| "supported depth (LGLSXP a xs) = (depth \<le> kMaxDepth \<and> \<not> hasClass (LGLSXP a xs))"
| "supported depth (INTSXP a xs) = (depth \<le> kMaxDepth \<and> \<not> hasClass (INTSXP a xs))"
| "supported depth (REALSXP a xs) = (depth \<le> kMaxDepth \<and> \<not> hasClass (REALSXP a xs))"
| "supported depth (STRSXP a xs) = (depth \<le> kMaxDepth \<and> \<not> hasClass (STRSXP a xs))"
| "supported depth _ = False"

lemma writer_supported:
  "fst (writeValue buf x au depth) = Ok \<longleftrightarrow> supported depth x"
  "length nms = length xs \<Longrightarrow>
     fst (writeObject buf nms xs i au depth) = Ok \<longleftrightarrow>
       list_all (\<lambda>k. k \<noteq> NA_STRING \<and> R_CHAR k \<noteq> []) nms \<and> list_all (supported (depth + 1)) xs"
  "fst (writeArray buf xs i au depth) = Ok \<longleftrightarrow> list_all (supported (depth + 1)) xs"
proof (induction buf x au depth and buf nms xs i au depth and buf xs i au depth
    rule: writeValue_writeObject_writeArray.induct)
  case (1 buf a xs au depth)
  then show ?case by (cases "a_names a") (auto split: if_splits)
next
  case (13 buf key nms x xs i au depth)
  then show ?case by (auto simp: Let_def split: prod.splits WriteResult.splits)
next
  case (15 buf x xs i au depth)
  then show ?case by (auto split: prod.splits WriteResult.splits)
qed (auto simp: kMaxDepth_def)

text \<open>(C32) The fast path answers exactly the values it supports: \<^verbatim>\<open>drogonR_to_json\<close> returns a string if and
  only if no value in the structure has a class, \<^verbatim>\<open>NULL\<close> occurs at most at the top, every list is
  unnamed or fully named with non-empty names, and the nesting is at most 64 deep.\<close>

theorem to_json_supported: "drogonR_to_json x ub \<noteq> NilSXP \<longleftrightarrow> supported 0 x"
  using writer_supported(1) [of "[]" x "auto_unbox_flag ub" 0]
  by (cases "writeValue [] x (auto_unbox_flag ub) 0")
    (auto simp: drogonR_to_json_def split: WriteResult.splits)

end
