(* ===== verification/FsPath.thy ===== *)
theory FsPath
  imports Prelude
begin

text \<open>
  The operations of \<^verbatim>\<open>std::filesystem::path\<close> (POSIX generic format) that \<^verbatim>\<open>resolveSafely\<close> in
  \<^verbatim>\<open>src/src/drogon_server.cpp\<close> uses: joining, \<^verbatim>\<open>is_absolute\<close> and \<^verbatim>\<open>lexically_normal\<close> as the C++ standard
  defines it, and the check itself. The theorem is that no accepted path leaves the directory.
\<close>

section \<open>Paths\<close>

fun split_slash :: "string \<Rightarrow> string list" where
  "split_slash [] = [[]]"
| "split_slash (c # s) =
     (if c = CHR ''/'' then [] # split_slash s
      else (case split_slash s of [] \<Rightarrow> [[c]] | seg # segs \<Rightarrow> (c # seg) # segs))"

definition fs_comps :: "string \<Rightarrow> string list" where
  "fs_comps s = filter (\<lambda>seg. seg \<noteq> []) (split_slash s)"

definition is_absolute :: "string \<Rightarrow> bool" where
  "is_absolute s \<longleftrightarrow> s \<noteq> [] \<and> hd s = CHR ''/''"

definition path_append :: "string \<Rightarrow> string \<Rightarrow> string" where
  "path_append dir rel =
     (if is_absolute rel then rel
      else if dir = [] \<or> last dir = CHR ''/'' then dir @ rel
      else dir @ ''/'' @ rel)"

text \<open>Steps 4 to 6 of the normalisation, left to right over the names; the accumulator is reversed.\<close>

fun norm_names :: "bool \<Rightarrow> string list \<Rightarrow> string list \<Rightarrow> string list" where
  "norm_names rooted acc [] = rev acc"
| "norm_names rooted acc (seg # segs) =
     (if seg = ''.'' then norm_names rooted acc segs
      else if seg = ''..'' then
        (if acc \<noteq> [] \<and> hd acc \<noteq> ''..'' then norm_names rooted (tl acc) segs
         else if rooted \<and> acc = [] then norm_names rooted acc segs
         else norm_names rooted (seg # acc) segs)
      else norm_names rooted (seg # acc) segs)"

fun join_slash :: "string list \<Rightarrow> string" where
  "join_slash [] = []"
| "join_slash [seg] = seg"
| "join_slash (seg # segs) = seg @ ''/'' @ join_slash segs"

definition lexically_normal :: "string \<Rightarrow> string" where
  "lexically_normal s =
     (if s = [] then []
      else let names = norm_names (is_absolute s) [] (fs_comps s);
               trailing = (last (split_slash s) \<in> {[], ''.'', ''..''} \<and> names \<noteq> [] \<and> last names \<noteq> ''..'');
               body = join_slash names @ (if trailing then ''/'' else [])
           in if is_absolute s then ''/'' @ body else if names = [] then ''.'' else body)"

section \<open>The check\<close>

fun strip_trailing_slashes :: "string \<Rightarrow> string" where
  "strip_trailing_slashes s =
     (if s \<noteq> [] \<and> last s = CHR ''/'' then strip_trailing_slashes (butlast s) else s)"

declare strip_trailing_slashes.simps [simp del]

definition resolveSafely :: "string \<Rightarrow> string \<Rightarrow> string option" where
  "resolveSafely dir rel =
     (if NUL \<in> set rel then None
      else if is_absolute rel then None
      else let norm_str = lexically_normal (path_append dir rel);
               dir_str = strip_trailing_slashes (lexically_normal dir)
           in if length norm_str \<le> length dir_str \<or> take (length dir_str) norm_str \<noteq> dir_str
                 \<or> norm_str ! length dir_str \<noteq> CHR ''/''
              then None else Some norm_str)"

section \<open>Lemmas about names\<close>

lemma split_slash_nonempty [simp]: "split_slash s \<noteq> []"
  by (cases s) (auto split: list.split)

lemma split_slash_append: "split_slash (a @ CHR ''/'' # b) = split_slash a @ split_slash b"
  by (induction a) (auto split: list.split)

lemma fs_comps_append: "fs_comps (a @ CHR ''/'' # b) = fs_comps a @ fs_comps b"
  by (simp add: fs_comps_def split_slash_append)

lemma fs_comps_slash [simp]: "fs_comps (CHR ''/'' # s) = fs_comps s"
  by (simp add: fs_comps_def)

lemma fs_comps_nil [simp]: "fs_comps [] = []"
  by (simp add: fs_comps_def)

abbreviation plain_name :: "string \<Rightarrow> bool" where
  "plain_name seg \<equiv> seg \<noteq> [] \<and> CHR ''/'' \<notin> set seg"

lemma split_slash_plain: "CHR ''/'' \<notin> set seg \<Longrightarrow> split_slash seg = [seg]"
  by (induction seg) auto

lemma fs_comps_plain: "plain_name seg \<Longrightarrow> fs_comps seg = [seg]"
  by (simp add: fs_comps_def split_slash_plain)

lemma in_split_slash: "seg \<in> set (split_slash s) \<Longrightarrow> CHR ''/'' \<notin> set seg"
  by (induction s arbitrary: seg) (auto split: if_splits list.splits)

lemma fs_comps_plain_names: "list_all plain_name (fs_comps s)"
  by (auto simp: fs_comps_def list_all_iff dest: in_split_slash)

lemma fs_comps_join: "list_all plain_name names \<Longrightarrow> fs_comps (join_slash names) = names"
  by (induction names rule: join_slash.induct) (auto simp: fs_comps_plain fs_comps_append)

lemma norm_names_plain:
  "list_all plain_name acc \<Longrightarrow> list_all plain_name segs \<Longrightarrow> list_all plain_name (norm_names rooted acc segs)"
proof (induction segs arbitrary: acc)
  case (Cons seg segs)
  then show ?case by (cases acc) auto
qed (simp add: list_all_iff)

lemma norm_names_no_dot: "''.'' \<notin> set acc \<Longrightarrow> ''.'' \<notin> set (norm_names rooted acc segs)"
proof (induction segs arbitrary: acc)
  case (Cons seg segs)
  then show ?case by (cases acc) auto
qed simp

lemma norm_names_no_dotdot: "''..'' \<notin> set acc \<Longrightarrow> ''..'' \<notin> set (norm_names True acc segs)"
proof (induction segs arbitrary: acc)
  case (Cons seg segs)
  then show ?case by (cases acc) auto
qed simp

lemma fs_comps_lexically_normal:
  assumes "is_absolute s"
  shows "fs_comps (lexically_normal s) = norm_names True [] (fs_comps s) \<and> is_absolute (lexically_normal s)"
proof -
  let ?n = "norm_names True [] (fs_comps s)"
  have p: "list_all plain_name ?n" by (rule norm_names_plain) (simp_all add: fs_comps_plain_names)
  have "fs_comps (join_slash ?n @ ''/'') = ?n"
    using fs_comps_append [of "join_slash ?n" "[]"] p by (simp add: fs_comps_join)
  then show ?thesis
    using assms p by (auto simp: lexically_normal_def is_absolute_def fs_comps_join Let_def)
qed

lemma fs_comps_strip: "fs_comps (strip_trailing_slashes s) = fs_comps s"
proof (induction s rule: strip_trailing_slashes.induct)
  case (1 s)
  show ?case
  proof (cases "s \<noteq> [] \<and> last s = CHR ''/''")
    case True
    then have "s = butlast s @ CHR ''/'' # []" by (metis append_butlast_last_id)
    then have "fs_comps s = fs_comps (butlast s)" by (metis append_Nil2 fs_comps_append fs_comps_nil)
    with True 1 show ?thesis by (subst strip_trailing_slashes.simps) simp
  next
    case False
    then show ?thesis by (subst strip_trailing_slashes.simps) auto
  qed
qed

section \<open>Containment\<close>

text \<open>The names of a directory after normalisation, and what it means to lie inside it.\<close>

definition dir_names :: "string \<Rightarrow> string list" where
  "dir_names dir = norm_names True [] (fs_comps dir)"

definition inside :: "string \<Rightarrow> string \<Rightarrow> bool" where
  "inside dir p \<longleftrightarrow> is_absolute p \<and> ''.'' \<notin> set (fs_comps p) \<and> ''..'' \<notin> set (fs_comps p)
     \<and> take (length (dir_names dir)) (fs_comps p) = dir_names dir"

lemma is_absolute_append: "is_absolute dir \<Longrightarrow> \<not> is_absolute rel \<Longrightarrow> is_absolute (path_append dir rel)"
  by (cases dir) (auto simp: path_append_def is_absolute_def)

lemma resolveSafely_inside:
  assumes "is_absolute dir" and "resolveSafely dir rel = Some out"
  shows "inside dir out"
proof -
  let ?d = "strip_trailing_slashes (lexically_normal dir)"
  have rel: "\<not> is_absolute rel" and out: "out = lexically_normal (path_append dir rel)"
    and pre: "length ?d < length out" "take (length ?d) out = ?d" "out ! length ?d = CHR ''/''"
    using assms(2) by (auto simp: resolveSafely_def Let_def not_le split: if_splits)
  have "out = ?d @ CHR ''/'' # drop (Suc (length ?d)) out"
    using pre id_take_nth_drop [of "length ?d" out] by simp
  then have "fs_comps out = fs_comps ?d @ fs_comps (drop (Suc (length ?d)) out)"
    by (metis fs_comps_append)
  moreover have "fs_comps ?d = dir_names dir"
    using fs_comps_lexically_normal [OF assms(1)] by (simp add: fs_comps_strip dir_names_def)
  moreover note fs_comps_lexically_normal [OF is_absolute_append [OF assms(1) rel], folded out]
  moreover have "''.'' \<notin> set (fs_comps out)" "''..'' \<notin> set (fs_comps out)"
    using calculation(3) norm_names_no_dot norm_names_no_dotdot by simp_all
  ultimately show ?thesis by (simp add: inside_def)
qed

section \<open>Plain relative paths are resolved\<close>

lemma norm_names_append: "norm_names rooted acc (xs @ ys) = norm_names rooted (rev (norm_names rooted acc xs)) ys"
proof (induction xs arbitrary: acc)
  case (Cons x xs)
  then show ?case by (cases acc) auto
qed simp

lemma norm_names_ordinary: "''.'' \<notin> set ys \<Longrightarrow> ''..'' \<notin> set ys \<Longrightarrow> norm_names rooted acc ys = rev acc @ ys"
  by (induction ys arbitrary: acc) auto

lemma join_slash_append:
  "xs \<noteq> [] \<Longrightarrow> ys \<noteq> [] \<Longrightarrow> join_slash (xs @ ys) = join_slash xs @ ''/'' @ join_slash ys"
  by (induction xs rule: join_slash.induct) (auto simp: neq_Nil_conv)

lemma join_slash_ends: "names \<noteq> [] \<Longrightarrow> list_all plain_name names \<Longrightarrow> join_slash names \<noteq> [] \<and> last (join_slash names) \<noteq> CHR ''/''"
  by (induction names rule: join_slash.induct) (auto simp: dest: last_in_set)

lemma last_split_join: "names \<noteq> [] \<Longrightarrow> list_all plain_name names \<Longrightarrow> last (split_slash (a @ CHR ''/'' # join_slash names)) = last names"
  by (induction names arbitrary: a rule: join_slash.induct)
    (auto simp: split_slash_append split_slash_plain split: if_splits)

lemma strip_trailing_keep: "s = [] \<or> last s \<noteq> CHR ''/'' \<Longrightarrow> strip_trailing_slashes s = s"
  by (subst strip_trailing_slashes.simps) auto

lemma strip_trailing_one: "s = [] \<or> last s \<noteq> CHR ''/'' \<Longrightarrow> strip_trailing_slashes (s @ ''/'') = s"
  by (subst strip_trailing_slashes.simps) (simp add: strip_trailing_keep)

lemma dir_str_absolute:
  assumes "is_absolute dir"
  shows "strip_trailing_slashes (lexically_normal dir) =
    (if dir_names dir = [] then [] else ''/'' @ join_slash (dir_names dir))"
proof (cases "dir_names dir = []")
  case True
  then have "lexically_normal dir = [] @ ''/''"
    using assms by (auto simp: lexically_normal_def dir_names_def is_absolute_def)
  then show ?thesis using True strip_trailing_one [of "[]"] by simp
next
  case False
  let ?b = "''/'' @ join_slash (dir_names dir)"
  have p: "list_all plain_name (dir_names dir)"
    unfolding dir_names_def by (rule norm_names_plain) (simp_all add: fs_comps_plain_names)
  have l: "last ?b \<noteq> CHR ''/''" using join_slash_ends [OF False p] by simp
  have "lexically_normal dir = ?b \<or> lexically_normal dir = ?b @ ''/''"
    using assms False by (auto simp: lexically_normal_def dir_names_def is_absolute_def Let_def)
  then show ?thesis using l False strip_trailing_keep [of ?b] strip_trailing_one [of ?b] by auto
qed

lemma resolveSafely_plain:
  assumes "is_absolute dir" and "names \<noteq> []" and "list_all plain_name names"
    and "''.'' \<notin> set names" and "''..'' \<notin> set names" and "NUL \<notin> set (join_slash names)"
  shows "resolveSafely dir (join_slash names) = Some (''/'' @ join_slash (dir_names dir @ names))"
proof -
  let ?rel = "join_slash names"
  have hd: "\<not> is_absolute ?rel"
    using assms(2,3) by (cases names rule: join_slash.cases) (auto simp: is_absolute_def hd_append dest: hd_in_set)
  obtain a where a: "path_append dir ?rel = a @ CHR ''/'' # ?rel" "fs_comps a = fs_comps dir"
  proof (cases "last dir = CHR ''/''")
    case True
    with assms(1) have d: "dir = butlast dir @ CHR ''/'' # []" by (metis append_butlast_last_id is_absolute_def)
    then have "fs_comps (butlast dir) = fs_comps dir" by (metis append_Nil2 fs_comps_append fs_comps_nil)
    moreover have "path_append dir ?rel = butlast dir @ CHR ''/'' # ?rel"
      using True hd d by (metis append.assoc append_Cons append_Nil path_append_def)
    ultimately show ?thesis using that by blast
  next
    case False
    then show ?thesis using assms(1) hd that [of dir] by (auto simp: path_append_def is_absolute_def)
  qed
  have ab: "is_absolute (path_append dir ?rel)" by (rule is_absolute_append [OF assms(1) hd])
  have "norm_names True [] (fs_comps (path_append dir ?rel)) = dir_names dir @ names"
    using assms(3-5) a by (simp add: fs_comps_append fs_comps_join norm_names_append norm_names_ordinary dir_names_def)
  moreover have "last (split_slash (path_append dir ?rel)) = last names"
    using last_split_join [OF assms(2,3)] a(1) by simp
  moreover have "last names \<notin> {[], ''.'', ''..''}" using last_in_set [OF assms(2)] assms(3-5) by (auto simp: list_all_iff)
  ultimately have n: "lexically_normal (path_append dir ?rel) = ''/'' @ join_slash (dir_names dir @ names)"
    using ab by (auto simp: lexically_normal_def is_absolute_def Let_def)
  show ?thesis
    using assms(2,6) hd n join_slash_append [of "dir_names dir" names]
    by (auto simp: resolveSafely_def Let_def dir_str_absolute [OF assms(1)] nth_append)
qed

end
