(* ===== verification/Codecs.thy ===== *)
theory Codecs
  imports Prelude
begin

text \<open>
  The text codecs of \<^verbatim>\<open>src/src/drogon/lib/src/Utilities.cc\<close> that requests go through: percent
  encoding of paths and query components, hexadecimal strings and Base64, each with its decoder and
  the round trip. Bytes are characters, and arithmetic on them is done on their codes.
\<close>

unbundle bit_operations_syntax

abbreviation code :: "char \<Rightarrow> nat" where
  "code c \<equiv> of_char c"

lemma code_less [simp]: "code c < 256"
  by simp

lemma code_high [simp]: "code c div 16 mod 16 = code c div 16" "code c div 4 mod 64 = code c div 4"
  "code c div 64 mod 4 = code c div 64"
  using code_less [of c] by (simp_all add: div_less_iff_less_mult)

section \<open>Percent encoding\<close>

text \<open>\<^verbatim>\<open>charToHex\<close>: two upper-case digits.\<close>

definition upperHex :: "nat \<Rightarrow> char" where
  "upperHex d = char_of (d + (if d > 9 then 65 - 10 else 48))"

definition charToHex :: "char \<Rightarrow> string" where
  "charToHex c = [upperHex ((code c AND 0xF0) div 16), upperHex (code c AND 0x0F)]"

text \<open>The characters that are passed through: letters, digits and marks.\<close>

definition url_alnum :: string where
  "url_alnum = ''ABCDEFGHIJKLMNOPQRSTUVWXYZabcdefghijklmnopqrstuvwxyz0123456789''"

definition component_keep :: string where
  "component_keep = url_alnum @ ''-_.!~*()''"

definition path_keep :: string where
  "path_keep = url_alnum @ ''-_.!~*'' @ [CHR 0x27] @ ''()&=/'' @ [CHR 0x5C] @ ''?''"

fun url_encode_with :: "string \<Rightarrow> string \<Rightarrow> string" where
  "url_encode_with keep [] = []"
| "url_encode_with keep (c # cs) =
     (if c = CHR '' '' then ''+'' else if c \<in> set keep then [c] else CHR ''%'' # charToHex c)
     @ url_encode_with keep cs"

definition urlEncodeComponent :: "string \<Rightarrow> string" where
  "urlEncodeComponent src = url_encode_with component_keep src"

definition urlEncode :: "string \<Rightarrow> string" where
  "urlEncode src = url_encode_with path_keep src"

definition needUrlDecoding :: "string \<Rightarrow> bool" where
  "needUrlDecoding s \<longleftrightarrow> list_ex (\<lambda>c. c = CHR ''+'' \<or> c = CHR ''%'') s"

definition isxdigit :: "char \<Rightarrow> bool" where
  "isxdigit c \<longleftrightarrow> CHR ''0'' \<le> c \<and> c \<le> CHR ''9'' \<or> CHR ''a'' \<le> c \<and> c \<le> CHR ''f'' \<or> CHR ''A'' \<le> c \<and> c \<le> CHR ''F''"

definition xvalue :: "char \<Rightarrow> nat" where
  "xvalue c =
     (if CHR ''0'' \<le> c \<and> c \<le> CHR ''9'' then code c - 48
      else if CHR ''a'' \<le> c \<and> c \<le> CHR ''f'' then code c - 97 + 10
      else if CHR ''A'' \<le> c \<and> c \<le> CHR ''F'' then code c - 65 + 10
      else code c)"

fun urlDecode :: "string \<Rightarrow> string" where
  "urlDecode [] = []"
| "urlDecode (c # cs) =
     (if c = CHR ''+'' then CHR '' '' # urlDecode cs
      else if c = CHR ''%'' then
        (case cs of
           x1 # x2 # rest \<Rightarrow>
             if isxdigit x1 \<and> isxdigit x2 then char_of (xvalue x1 * 16 + xvalue x2) # urlDecode rest
             else CHR ''%'' # urlDecode cs
         | _ \<Rightarrow> CHR ''%'' # urlDecode cs)
      else c # urlDecode cs)"

lemma code_upperHex: "d < 16 \<Longrightarrow> code (upperHex d) = (if d > 9 then d + 55 else d + 48)"
  by (simp add: upperHex_def of_char_of take_bit_eq_mod)

lemma upperHex_digit: "d < 16 \<Longrightarrow> isxdigit (upperHex d) \<and> xvalue (upperHex d) = d"
  by (auto simp: code_upperHex isxdigit_def xvalue_def less_eq_char_def)

lemma and_shift_field:
  "(n AND push_bit m (mask k)) div 2 ^ m = (n div 2 ^ m) mod (2 ^ k :: nat)"
proof -
  have "(n AND push_bit m (mask k)) div 2 ^ m = drop_bit m (n AND push_bit m (mask k))"
    by (simp add: drop_bit_eq_div)
  also have "\<dots> = drop_bit m n AND mask k"
    by (simp only: drop_bit_and) (simp add: drop_bit_eq_div push_bit_eq_mult)
  finally show ?thesis by (simp add: take_bit_eq_mask [symmetric] drop_bit_eq_div take_bit_eq_mod)
qed

lemma and_fields:
  "(n AND 0xF0) div 16 = (n div 16) mod (16 :: nat)" "(n AND 0xFC) div 4 = (n div 4) mod (64 :: nat)"
  "(n AND 0xC0) div 64 = (n div 64) mod (4 :: nat)" "(n AND 0x30) div 16 = (n div 16) mod (4 :: nat)"
  "(n AND 0x3C) div 4 = (n div 4) mod (16 :: nat)"
  using and_shift_field [of n 4 4] and_shift_field [of n 2 6] and_shift_field [of n 6 2]
    and_shift_field [of n 4 2] and_shift_field [of n 2 4]
  by (simp_all add: push_bit_eq_mult mask_eq_exp_minus_1)

lemma and_mask_mod:
  "n AND 0x0F = (n mod 16 :: nat)" "n AND 0x3F = (n mod 64 :: nat)" "n AND 0x03 = (n mod 4 :: nat)"
proof -
  have "mask 4 = (0x0F :: nat)" "mask 6 = (0x3F :: nat)" "mask 2 = (0x03 :: nat)"
    by (simp_all add: mask_eq_exp_minus_1)
  then show "n AND 0x0F = (n mod 16 :: nat)" "n AND 0x3F = (n mod 64 :: nat)" "n AND 0x03 = (n mod 4 :: nat)"
    by (simp_all add: take_bit_eq_mask [symmetric] take_bit_eq_mod flip: \<open>mask 4 = _\<close> \<open>mask 6 = _\<close> \<open>mask 2 = _\<close>)
qed

lemma charToHex_digits:
  obtains x1 x2 where "charToHex c = [x1, x2]" "isxdigit x1" "isxdigit x2"
    "char_of (xvalue x1 * 16 + xvalue x2) = c"
proof (rule that)
  let ?x1 = "upperHex (code c div 16)" and ?x2 = "upperHex (code c mod 16)"
  show "charToHex c = [?x1, ?x2]" using code_less [of c] by (simp add: charToHex_def and_fields and_mask_mod)
  have d: "code c div 16 < 16" using code_less [of c] by linarith
  show "isxdigit ?x1" "isxdigit ?x2" using upperHex_digit [OF d] upperHex_digit [of "code c mod 16"] by simp_all
  show "char_of (xvalue ?x1 * 16 + xvalue ?x2) = c"
    using upperHex_digit [OF d] upperHex_digit [of "code c mod 16"] by simp
qed

lemma urlDecode_encode_step:
  assumes "CHR ''+'' \<notin> set keep" and "CHR ''%'' \<notin> set keep"
  shows "urlDecode (url_encode_with keep (c # cs)) = c # urlDecode (url_encode_with keep cs)"
proof -
  obtain x1 x2 where "charToHex c = [x1, x2]" "isxdigit x1" "isxdigit x2"
    "char_of (xvalue x1 * 16 + xvalue x2) = c" by (rule charToHex_digits)
  then show ?thesis using assms by auto
qed

lemma urlDecode_encode_with:
  "CHR ''+'' \<notin> set keep \<Longrightarrow> CHR ''%'' \<notin> set keep \<Longrightarrow> urlDecode (url_encode_with keep s) = s"
  by (induction s) (simp, simp only: urlDecode_encode_step not_False_eq_True simp_thms)

lemma keep_no_escape:
  "CHR ''+'' \<notin> set component_keep" "CHR ''%'' \<notin> set component_keep"
  "CHR ''+'' \<notin> set path_keep" "CHR ''%'' \<notin> set path_keep"
  by (simp_all add: component_keep_def path_keep_def url_alnum_def)

lemma urlDecode_urlEncodeComponent: "urlDecode (urlEncodeComponent s) = s"
  by (simp add: urlEncodeComponent_def urlDecode_encode_with keep_no_escape)

lemma urlDecode_urlEncode: "urlDecode (urlEncode s) = s"
  by (simp add: urlEncode_def urlDecode_encode_with keep_no_escape)

lemma urlDecode_id: "\<not> needUrlDecoding s \<Longrightarrow> urlDecode s = s"
  by (induction s) (auto simp: needUrlDecoding_def)

section \<open>Hexadecimal strings\<close>

definition nibble :: "char \<Rightarrow> nat option" where
  "nibble c =
     (if CHR ''0'' \<le> c \<and> c \<le> CHR ''9'' then Some (code c - 48)
      else if CHR ''a'' \<le> c \<and> c \<le> CHR ''f'' then Some (code c - 97 + 10)
      else if CHR ''A'' \<le> c \<and> c \<le> CHR ''F'' then Some (code c - 65 + 10)
      else None)"

fun hex_loop :: "string \<Rightarrow> string option" where
  "hex_loop (c1 # c2 # cs) =
     (case (nibble c1, nibble c2) of
        (Some v1, Some v2) \<Rightarrow> map_option ((#) (char_of (v1 * 16 + v2))) (hex_loop cs)
      | _ \<Rightarrow> None)"
| "hex_loop _ = Some []"

definition hexToBinaryString :: "string \<Rightarrow> string" where
  "hexToBinaryString s = (case hex_loop s of None \<Rightarrow> [] | Some r \<Rightarrow> r)"

definition hexOut :: "bool \<Rightarrow> nat \<Rightarrow> char" where
  "hexOut lowerCase v = (if v < 10 then char_of (v + 48) else if \<not> lowerCase then char_of (v + 55) else char_of (v + 87))"

fun binaryStringToHex :: "string \<Rightarrow> bool \<Rightarrow> string" where
  "binaryStringToHex [] lowerCase = []"
| "binaryStringToHex (c # cs) lowerCase =
     hexOut lowerCase (drop_bit 4 (code c AND 0xF0)) # hexOut lowerCase (code c AND 0x0F)
     # binaryStringToHex cs lowerCase"

lemma code_hexOut: "v < 16 \<Longrightarrow> code (hexOut lc v) = (if v < 10 then v + 48 else if \<not> lc then v + 55 else v + 87)"
  by (simp add: hexOut_def of_char_of take_bit_eq_mod)

lemma nibble_hexOut: "v < 16 \<Longrightarrow> nibble (hexOut lc v) = Some v"
  by (auto simp: code_hexOut nibble_def less_eq_char_def)

lemma hex_loop_binary: "hex_loop (binaryStringToHex s lc) = Some s"
proof (induction s)
  case (Cons c cs)
  have "code c div 16 < 16" using code_less [of c] by linarith
  then have "nibble (hexOut lc (code c div 16)) = Some (code c div 16)" by (rule nibble_hexOut)
  moreover have "nibble (hexOut lc (code c mod 16)) = Some (code c mod 16)" by (rule nibble_hexOut) simp
  moreover have "drop_bit 4 (code c AND 0xF0) = code c div 16" "code c AND 0x0F = code c mod 16"
    using code_less [of c] by (simp_all add: drop_bit_eq_div and_fields and_mask_mod)
  ultimately show ?case using Cons by simp
qed simp

lemma hexToBinaryString_round_trip: "hexToBinaryString (binaryStringToHex s lc) = s"
  by (simp add: hexToBinaryString_def hex_loop_binary)

section \<open>Base64\<close>

definition base64Chars :: string where
  "base64Chars = ''ABCDEFGHIJKLMNOPQRSTUVWXYZabcdefghijklmnopqrstuvwxyz0123456789+/''"

definition urlBase64Chars :: string where
  "urlBase64Chars = ''ABCDEFGHIJKLMNOPQRSTUVWXYZabcdefghijklmnopqrstuvwxyz0123456789-_''"

text \<open>\<^verbatim>\<open>Base64CharMap\<close>: the table filled by its constructor; the entries it leaves alone are 0.\<close>

definition getIndex :: "char \<Rightarrow> nat" where
  "getIndex c =
     (if CHR ''A'' \<le> c \<and> c \<le> CHR ''Z'' then code c - 65
      else if CHR ''a'' \<le> c \<and> c \<le> CHR ''z'' then 26 + (code c - 97)
      else if CHR ''0'' \<le> c \<and> c \<le> CHR ''9'' then 52 + (code c - 48)
      else if c = CHR ''+'' \<or> c = CHR ''-'' then 62
      else if c = CHR ''/'' \<or> c = CHR ''_'' then 63
      else if c = NUL then 0xFF else 0)"

definition isBase64 :: "char \<Rightarrow> bool" where
  "isBase64 c \<longleftrightarrow> CHR ''A'' \<le> c \<and> c \<le> CHR ''Z'' \<or> CHR ''a'' \<le> c \<and> c \<le> CHR ''z'' \<or> CHR ''0'' \<le> c \<and> c \<le> CHR ''9''
     \<or> c \<in> {CHR ''+'', CHR ''/'', CHR ''-'', CHR ''_''}"

text \<open>The four indices made of \<^verbatim>\<open>charArray3\<close>, and the three bytes made of \<^verbatim>\<open>charArray4\<close>.\<close>

definition to4 :: "nat \<Rightarrow> nat \<Rightarrow> nat \<Rightarrow> nat list" where
  "to4 a b c =
     [(a AND 0xFC) div 4, push_bit 4 (a AND 0x03) + (b AND 0xF0) div 16,
      push_bit 2 (b AND 0x0F) + (c AND 0xC0) div 64, c AND 0x3F]"

definition to3 :: "nat \<Rightarrow> nat \<Rightarrow> nat \<Rightarrow> nat \<Rightarrow> string" where
  "to3 p q r s =
     [char_of (push_bit 2 p + (q AND 0x30) div 16),
      char_of (push_bit 4 (q AND 0x0F) + (r AND 0x3C) div 4),
      char_of (push_bit 6 (r AND 0x03) + s)]"

text \<open>The loop keeps at most two bytes in \<^verbatim>\<open>charArray3\<close>; the end pads them with zeros.\<close>

definition base64_tail :: "string \<Rightarrow> bool \<Rightarrow> string \<Rightarrow> string" where
  "base64_tail charSet padded buf =
     (if buf = [] then []
      else let i = length buf; arr = map code buf @ [0, 0, 0]; idx = to4 (arr ! 0) (arr ! 1) (arr ! 2)
           in map (\<lambda>j. charSet ! j) (take (i + 1) idx) @ (if padded then replicate (3 - i) CHR ''='' else []))"

fun base64_loop :: "string \<Rightarrow> bool \<Rightarrow> string \<Rightarrow> string \<Rightarrow> string" where
  "base64_loop charSet padded buf [] = base64_tail charSet padded buf"
| "base64_loop charSet padded buf (c # cs) =
     (let buf' = buf @ [c]
      in if length buf' = 3
         then map (\<lambda>j. charSet ! j) (to4 (code (buf' ! 0)) (code (buf' ! 1)) (code (buf' ! 2)))
              @ base64_loop charSet padded [] cs
         else base64_loop charSet padded buf' cs)"

definition base64Encode :: "string \<Rightarrow> bool \<Rightarrow> bool \<Rightarrow> string" where
  "base64Encode s urlSafe padded =
     base64_loop (if urlSafe then urlBase64Chars else base64Chars) padded [] s"

definition base64_dec_tail :: "string \<Rightarrow> string" where
  "base64_dec_tail buf =
     (if buf = [] then []
      else let arr = map getIndex (buf @ replicate (4 - length buf) NUL)
           in take (length buf - 1) (to3 (arr ! 0) (arr ! 1) (arr ! 2) (arr ! 3)))"

fun base64_dec_loop :: "string \<Rightarrow> string \<Rightarrow> string" where
  "base64_dec_loop buf [] = base64_dec_tail buf"
| "base64_dec_loop buf (c # cs) =
     (if c = CHR ''='' then base64_dec_tail buf
      else if \<not> isBase64 c then base64_dec_loop buf cs
      else let buf' = buf @ [c]; arr = map getIndex buf'
           in if length buf' = 4
              then to3 (arr ! 0) (arr ! 1) (arr ! 2) (arr ! 3) @ base64_dec_loop [] cs
              else base64_dec_loop buf' cs)"

definition base64Decode :: "string \<Rightarrow> string" where
  "base64Decode s = base64_dec_loop [] s"

abbreviation alphabet :: "string \<Rightarrow> bool" where
  "alphabet charSet \<equiv> charSet = base64Chars \<or> charSet = urlBase64Chars"

lemma alphabet_table:
  "list_all (\<lambda>i. isBase64 (base64Chars ! i) \<and> getIndex (base64Chars ! i) = i) [0..<64]"
  "list_all (\<lambda>i. isBase64 (urlBase64Chars ! i) \<and> getIndex (urlBase64Chars ! i) = i) [0..<64]"
  by code_simp+

lemma isBase64_not_pad: "isBase64 c \<Longrightarrow> c \<noteq> CHR ''=''"
  by (auto simp: isBase64_def less_eq_char_def)

lemma alphabet_index:
  "alphabet charSet \<Longrightarrow> i < 64 \<Longrightarrow> isBase64 (charSet ! i) \<and> getIndex (charSet ! i) = i \<and> charSet ! i \<noteq> CHR ''=''"
  using alphabet_table by (auto simp: list_all_iff isBase64_not_pad)

lemma to4_code:
  "to4 (code a) (code b) (code c) =
     [code a div 4, code a mod 4 * 16 + code b div 16, code b mod 16 * 4 + code c div 64, code c mod 64]"
  by (simp add: to4_def and_fields and_mask_mod push_bit_eq_mult)

lemma to4_code_zero:
  "to4 (code a) (code b) 0 = [code a div 4, code a mod 4 * 16 + code b div 16, code b mod 16 * 4, 0]"
  "to4 (code a) 0 0 = [code a div 4, code a mod 4 * 16, 0, 0]"
  by (simp_all add: to4_def and_fields and_mask_mod push_bit_eq_mult)

lemma code_div_bounds: "code c div 4 < 64" "code c div 16 < 16" "code c div 64 < 4"
  using code_less [of c] by (simp_all add: div_less_iff_less_mult)

lemma code_six_bits:
  "code a div 4 < 64" "code a mod 4 * 16 + code b div 16 < 64" "code b mod 16 * 4 + code c div 64 < 64"
  "code c mod 64 < 64" "code a mod 4 * 16 < 64" "code b mod 16 * 4 < 64"
proof -
  have m: "code a mod 4 < 4" "code b mod 16 < 16" by simp_all
  note d = code_div_bounds(1) [of a] code_div_bounds(2) [of b] code_div_bounds(3) [of c]
  show "code a div 4 < 64" "code c mod 64 < 64" using d by simp_all
  show "code a mod 4 * 16 + code b div 16 < 64" "code b mod 16 * 4 + code c div 64 < 64"
    "code a mod 4 * 16 < 64" "code b mod 16 * 4 < 64"
    using m d by linarith+
qed

lemma code_div_div [simp]: "code c div 16 div 16 = 0" "code c div 64 div 4 = 0"
  using code_div_bounds [of c] by simp_all

lemma code_to3_field:
  "(code a mod 4 * 16 + code b div 16) div 16 mod 4 = code a mod 4" "(code a mod 4 * 16 + code b div 16) mod 16 = code b div 16"
  "(code b mod 16 * 4 + code c div 64) div 4 mod 16 = code b mod 16" "(code b mod 16 * 4 + code c div 64) mod 4 = code c div 64"
  by (simp_all add: div_add1_eq)

lemma mod_div_sums:
  "a div 4 * 4 + a mod 4 = (a :: nat)" "a div 16 * 16 + a mod 16 = a" "a div 64 * 64 + a mod 64 = a"
  by simp_all

lemma to3_to4:
  "to3 (code a div 4) (code a mod 4 * 16 + code b div 16) (code b mod 16 * 4 + code c div 64) (code c mod 64) = [a, b, c]"
  by (simp add: to3_def and_fields and_mask_mod push_bit_eq_mult code_to3_field mod_div_sums)

lemma list3_cases:
  obtains "s = []" | x where "s = [x]" | x y where "s = [x, y]" | x y z r where "s = x # y # z # r"
  by (cases s rule: remdups_adj.cases; cases "tl (tl s)") auto

lemma base64_dec_four:
  "isBase64 w \<Longrightarrow> isBase64 x \<Longrightarrow> isBase64 y \<Longrightarrow> isBase64 z \<Longrightarrow>
    base64_dec_loop [] (w # x # y # z # r) = to3 (getIndex w) (getIndex x) (getIndex y) (getIndex z) @ base64_dec_loop [] r"
  by (simp add: isBase64_not_pad)

lemma getIndex_NUL: "getIndex NUL = 255"
  by (simp add: getIndex_def less_eq_char_def)

lemma base64_dec_read:
  "isBase64 w \<Longrightarrow> isBase64 x \<Longrightarrow> base64_dec_loop [] (w # x # r) = base64_dec_loop [w, x] r"
  "isBase64 w \<Longrightarrow> isBase64 x \<Longrightarrow> isBase64 y \<Longrightarrow> base64_dec_loop [] (w # x # y # r) = base64_dec_loop [w, x, y] r"
  by (simp_all add: isBase64_not_pad)

lemma base64_dec_pad: "base64_dec_loop buf (replicate n CHR ''='') = base64_dec_tail buf"
  by (cases n) simp_all

lemma base64_dec_tail_eval:
  "base64_dec_tail [w, x] = [char_of (push_bit 2 (getIndex w) + (getIndex x AND 0x30) div 16)]"
  "base64_dec_tail [w, x, y] =
     [char_of (push_bit 2 (getIndex w) + (getIndex x AND 0x30) div 16),
      char_of (push_bit 4 (getIndex x AND 0x0F) + (getIndex y AND 0x3C) div 4)]"
  by (simp_all add: base64_dec_tail_def to3_def)

lemma base64_loop_round_trip:
  assumes "alphabet charSet"
  shows "base64_dec_loop [] (base64_loop charSet padded [] s) = s"
proof (induction s rule: measure_induct_rule [of length])
  case (less s)
  note ix = alphabet_index [OF assms]
  show ?case
  proof (cases s rule: list3_cases)
    case 1
    then show ?thesis by (simp add: base64_tail_def base64_dec_tail_def)
  next
    case (2 a)
    moreover have "base64_loop charSet padded [] [a] =
      charSet ! (code a div 4) # charSet ! (code a mod 4 * 16) # replicate (if padded then 2 else 0) CHR ''=''"
      by (simp add: base64_tail_def to4_code_zero)
    ultimately show ?thesis
      using ix code_six_bits(1) [of a] code_six_bits(5) [of a]
      by (simp add: base64_dec_read base64_dec_pad base64_dec_tail_eval and_fields push_bit_eq_mult mod_div_sums
          del: base64_dec_loop.simps base64_loop.simps)
  next
    case (3 a b)
    obtain n where n: "base64_loop charSet padded [] [a, b] =
      charSet ! (code a div 4) # charSet ! (code a mod 4 * 16 + code b div 16) # charSet ! (code b mod 16 * 4)
      # replicate n CHR ''=''"
      by (rule that [of "if padded then 1 else 0"]) (simp add: base64_tail_def to4_code_zero numeral_2_eq_2)
    have "isBase64 (charSet ! (code a div 4))" "isBase64 (charSet ! (code a mod 4 * 16 + code b div 16))"
      "isBase64 (charSet ! (code b mod 16 * 4))"
      using ix code_six_bits by simp_all
    note r = base64_dec_read(2) [OF this]
    show ?thesis
      using 3 ix code_six_bits(1) [of a] code_six_bits(2) [of a b] code_six_bits(6) [of b]
      by (simp add: n r base64_dec_pad base64_dec_tail_eval and_fields and_mask_mod push_bit_eq_mult
          code_to3_field mod_div_sums del: base64_dec_loop.simps base64_loop.simps)
  next
    case (4 a b c r)
    then have "base64_dec_loop [] (base64_loop charSet padded [] r) = r" using less by simp
    then show ?thesis
      using 4 ix code_six_bits(1) [of a] code_six_bits(2) [of a b] code_six_bits(3) [of b c] code_six_bits(4) [of c] by (simp add: to4_code base64_dec_four to3_to4 del: base64_dec_loop.simps)
  qed
qed

lemma base64_round_trip: "base64Decode (base64Encode s urlSafe padded) = s"
  by (simp add: base64Decode_def base64Encode_def base64_loop_round_trip)


end
