(* ===== verification/HttpRequest.thy ===== *)
theory HttpRequest
  imports HttpMessage Codecs
begin

text \<open>
  \<^verbatim>\<open>HttpRequestImpl\<close> (\<^verbatim>\<open>src/src/drogon/lib/src/HttpRequestImpl.h\<close> and \<^verbatim>\<open>.cc\<close>): the request object the
  parser fills and the handlers read. The body is either in memory or in a temporary file, whose
  content is kept; sessions, attributes, certificates and JSON bodies are left out because the bridge
  does not use them.
\<close>

section \<open>The request object\<close>

datatype HttpMethod = Get | Post | Head | Put | Delete | Options | Patch | Invalid

datatype ReqStreamStatus = NoStream | Open | Finish | Error

record request =
  rq_method :: HttpMethod
  rq_previousMethod :: HttpMethod
  rq_version :: Version
  rq_path :: string
  rq_originalPath :: string
  rq_pathEncode :: bool
  rq_query :: string
  rq_headers :: "(string \<times> string) list"     \<comment> \<open>keys distinct; the order is the traversal order\<close>
  rq_cookies :: "(string \<times> string) list"
  rq_contentLengthHeaderValue :: "size_t option"
  rq_realContentLength :: size_t
  rq_parameters :: "(string \<times> string) list"
  rq_flagForParsingParameters :: bool
  rq_cacheFile :: "string option"              \<comment> \<open>content of the temporary file, if there is one\<close>
  rq_expect :: "string option"
  rq_content :: string
  rq_contentType :: content_type
  rq_contentTypeString :: string
  rq_flagForParsingContentType :: bool
  rq_keepAlive :: bool
  rq_passThrough :: bool
  rq_routingParams :: "string list"
  rq_streamStatus :: ReqStreamStatus

definition HttpRequestImpl :: request where
  "HttpRequestImpl =
     \<lparr>rq_method = Invalid, rq_previousMethod = Invalid, rq_version = kUnknown, rq_path = [],
      rq_originalPath = [], rq_pathEncode = True, rq_query = [], rq_headers = [], rq_cookies = [],
      rq_contentLengthHeaderValue = None, rq_realContentLength = 0, rq_parameters = [],
      rq_flagForParsingParameters = False, rq_cacheFile = None, rq_expect = None, rq_content = [],
      rq_contentType = CT_TEXT_PLAIN, rq_contentTypeString = [], rq_flagForParsingContentType = False,
      rq_keepAlive = True, rq_passThrough = False, rq_routingParams = [], rq_streamStatus = NoStream\<rparr>"

text \<open>\<^verbatim>\<open>reset()\<close> assigns every member but \<^verbatim>\<open>passThrough_\<close>.\<close>

definition rq_reset :: "request \<Rightarrow> request" where
  "rq_reset r =
     \<lparr>rq_method = Invalid, rq_previousMethod = Invalid, rq_version = kUnknown, rq_path = [],
      rq_originalPath = [], rq_pathEncode = True, rq_query = [], rq_headers = [], rq_cookies = [],
      rq_contentLengthHeaderValue = None, rq_realContentLength = 0, rq_parameters = [],
      rq_flagForParsingParameters = False, rq_cacheFile = None, rq_expect = None, rq_content = [],
      rq_contentType = CT_TEXT_PLAIN, rq_contentTypeString = [], rq_flagForParsingContentType = False,
      rq_keepAlive = True, rq_passThrough = rq_passThrough r, rq_routingParams = [], rq_streamStatus = NoStream\<rparr>"

definition rq_setVersion :: "Version \<Rightarrow> request \<Rightarrow> request" where
  "rq_setVersion v r =
     (let r1 = r\<lparr>rq_version := v\<rparr> in if v = kHttp10 then r1\<lparr>rq_keepAlive := False\<rparr> else r1)"

definition rq_setMethod :: "HttpMethod \<Rightarrow> request \<Rightarrow> request" where
  "rq_setMethod m r = r\<lparr>rq_previousMethod := rq_method r, rq_method := m\<rparr>"

text \<open>\<^verbatim>\<open>setMethod(start, end)\<close>: the method named by the bytes, by length and then by comparison.\<close>

definition methodOfBytes :: "string \<Rightarrow> HttpMethod" where
  "methodOfBytes m =
     (if length m = 3 then (if m = ''GET'' then Get else if m = ''PUT'' then Put else Invalid)
      else if length m = 4 then (if m = ''POST'' then Post else if m = ''HEAD'' then Head else Invalid)
      else if length m = 5 then (if m = ''PATCH'' then Patch else Invalid)
      else if length m = 6 then (if m = ''DELETE'' then Delete else Invalid)
      else if length m = 7 then (if m = ''OPTIONS'' then Options else Invalid)
      else Invalid)"

definition rq_setMethodBytes :: "string \<Rightarrow> request \<Rightarrow> bool \<times> request" where
  "rq_setMethodBytes m r = (methodOfBytes m \<noteq> Invalid, r\<lparr>rq_method := methodOfBytes m\<rparr>)"

definition rq_isHead :: "request \<Rightarrow> bool" where
  "rq_isHead r \<longleftrightarrow> rq_method r = Head \<or> rq_method r = Get \<and> rq_previousMethod r = Head"

fun methodString :: "HttpMethod \<Rightarrow> string" where
  "methodString Get = ''GET''"
| "methodString Post = ''POST''"
| "methodString Head = ''HEAD''"
| "methodString Put = ''PUT''"
| "methodString Delete = ''DELETE''"
| "methodString Options = ''OPTIONS''"
| "methodString Patch = ''PATCH''"
| "methodString Invalid = ''UNKNOWN''"

fun versionString :: "Version \<Rightarrow> string" where
  "versionString kHttp10 = ''HTTP/1.0''"
| "versionString kHttp11 = ''HTTP/1.1''"
| "versionString kUnknown = ''UNKNOWN''"

text \<open>\<^verbatim>\<open>setPath(start, end)\<close> appends to the members, which a reset left empty, unless it decodes.\<close>

definition rq_setPathBytes :: "string \<Rightarrow> request \<Rightarrow> request" where
  "rq_setPathBytes s r =
     (if needUrlDecoding s
      then r\<lparr>rq_originalPath := rq_originalPath r @ s, rq_path := urlDecode s\<rparr>
      else r\<lparr>rq_path := rq_path r @ s\<rparr>)"

definition rq_setPath :: "string \<Rightarrow> request \<Rightarrow> request" where
  "rq_setPath p r = r\<lparr>rq_path := p\<rparr>"

definition rq_getOriginalPath :: "request \<Rightarrow> string" where
  "rq_getOriginalPath r = (if rq_originalPath r = [] then rq_path r else rq_originalPath r)"

definition rq_setQuery :: "string \<Rightarrow> request \<Rightarrow> request" where
  "rq_setQuery s r = r\<lparr>rq_query := s\<rparr>"

section \<open>The body\<close>

definition rq_isStreamMode :: "request \<Rightarrow> bool" where
  "rq_isStreamMode r \<longleftrightarrow> rq_streamStatus r \<noteq> NoStream"

definition rq_bodyView :: "request \<Rightarrow> string" where
  "rq_bodyView r =
     (if rq_isStreamMode r then []
      else case rq_cacheFile r of Some f \<Rightarrow> f | None \<Rightarrow> rq_content r)"

text \<open>\<open>maxMem\<close> is \<^verbatim>\<open>getClientMaxMemoryBodySize()\<close>.\<close>

definition rq_reserveBodySize :: "size_t \<Rightarrow> size_t \<Rightarrow> request \<Rightarrow> request" where
  "rq_reserveBodySize maxMem len r =
     (case rq_cacheFile r of
        Some _ \<Rightarrow> r
      | None \<Rightarrow> if len \<le> maxMem then r
                 else if rq_content r \<noteq> [] then r\<lparr>rq_cacheFile := Some (rq_content r), rq_content := []\<rparr>
                 else r\<lparr>rq_cacheFile := Some []\<rparr>)"

text \<open>
  \<^verbatim>\<open>appendToBody\<close> of bytes that exist in memory, without a stream reader (none is installed by the
  bridge). The caller is responsible for the length; see the parser.
\<close>

definition rq_appendToBody :: "size_t \<Rightarrow> string \<Rightarrow> request \<Rightarrow> request" where
  "rq_appendToBody maxMem s r0 =
     (let r = r0\<lparr>rq_realContentLength := rq_realContentLength r0 + of_nat (length s)\<rparr>
      in case rq_cacheFile r of
           Some f \<Rightarrow> r\<lparr>rq_cacheFile := Some (f @ s)\<rparr>
         | None \<Rightarrow>
             if length (rq_content r) + length s \<le> unat maxMem
             then r\<lparr>rq_content := rq_content r @ s\<rparr>
             else r\<lparr>rq_cacheFile := Some (rq_content r @ s), rq_content := []\<rparr>)"

section \<open>Headers and cookies\<close>

definition isspace :: "char \<Rightarrow> bool" where
  "isspace c \<longleftrightarrow> c \<in> {CHR '' '', CHR 0x09, CHR 0x0A, CHR 0x0B, CHR 0x0C, CHR 0x0D}"

abbreviation ltrim :: "string \<Rightarrow> string" where
  "ltrim s \<equiv> dropWhile isspace s"

abbreviation rtrim :: "string \<Rightarrow> string" where
  "rtrim s \<equiv> rev (dropWhile isspace (rev s))"

text \<open>\<^verbatim>\<open>headers_.emplace(k, v)\<close>: an existing entry is kept.\<close>

definition hemplace :: "string \<Rightarrow> string \<Rightarrow> (string \<times> string) list \<Rightarrow> (string \<times> string) list" where
  "hemplace k v hs = (if k \<in> fst ` set hs then hs else hs @ [(k, v)])"

definition rq_getHeaderBy :: "string \<Rightarrow> request \<Rightarrow> string" where
  "rq_getHeaderBy k r = (case map_of (rq_headers r) k of None \<Rightarrow> [] | Some v \<Rightarrow> v)"

definition rq_getHeader :: "string \<Rightarrow> request \<Rightarrow> string" where
  "rq_getHeader field r = rq_getHeaderBy (map tolower field) r"

definition rq_removeHeaderBy :: "string \<Rightarrow> request \<Rightarrow> request" where
  "rq_removeHeaderBy k r = r\<lparr>rq_headers := filter (\<lambda>(k', _). k' \<noteq> k) (rq_headers r)\<rparr>"

definition rq_addHeader :: "string \<Rightarrow> string \<Rightarrow> request \<Rightarrow> request" where
  "rq_addHeader field v r = r\<lparr>rq_headers := hput (map tolower field) v (rq_headers r)\<rparr>"

text \<open>One \<^verbatim>\<open>name=value\<close> item of a cookie header, and the loop over the items between semicolons.\<close>

definition before :: "char \<Rightarrow> string \<Rightarrow> string" where
  "before c s = takeWhile (\<lambda>x. x \<noteq> c) s"

definition behind :: "char \<Rightarrow> string \<Rightarrow> string" where
  "behind c s = tl (dropWhile (\<lambda>x. x \<noteq> c) s)"

lemma behind_shorter: "c \<in> set s \<Longrightarrow> length (behind c s) < length s"
  by (induction s) (auto simp: behind_def)

definition cookie_item :: "string \<Rightarrow> (string \<times> string) list \<Rightarrow> (string \<times> string) list" where
  "cookie_item coo cs =
     (if CHR ''='' \<in> set coo then hput (ltrim (before CHR ''='' coo)) (ltrim (behind CHR ''='' coo)) cs else cs)"

function cookie_loop :: "string \<Rightarrow> (string \<times> string) list \<Rightarrow> (string \<times> string) list" where
  "cookie_loop v cs =
     (if CHR '';'' \<in> set v then cookie_loop (behind CHR '';'' v) (cookie_item (before CHR '';'' v) cs)
      else if v \<noteq> [] then cookie_item v cs else cs)"
  by pat_completeness auto
termination
  by (relation "measure (length \<circ> fst)") (auto simp: behind_shorter)

text \<open>
  \<^verbatim>\<open>addHeader(start, colon, end)\<close>: the field name lower-cased, the value trimmed; cookies go to their
  own table, \<^verbatim>\<open>expect\<close> and \<^verbatim>\<open>connection\<close> are interpreted, and every other field is kept under its first
  value.
\<close>

definition rq_addHeaderBytes :: "string \<Rightarrow> string \<Rightarrow> request \<Rightarrow> request" where
  "rq_addHeaderBytes fieldBytes valueBytes r =
     (let field = map tolower fieldBytes; v = rtrim (ltrim valueBytes)
      in if field = ''cookie'' then r\<lparr>rq_cookies := cookie_loop v (rq_cookies r)\<rparr>
         else
           let r1 = (if field = ''expect'' then r\<lparr>rq_expect := Some v\<rparr>
                     else if field = ''connection'' then
                       (if rq_version r = kHttp11
                        then (if v = ''close'' then r\<lparr>rq_keepAlive := False\<rparr> else r)
                        else if v = ''Keep-Alive'' \<or> v = ''keep-alive'' then r\<lparr>rq_keepAlive := True\<rparr> else r)
                     else r)
           in r1\<lparr>rq_headers := hemplace field v (rq_headers r1)\<rparr>)"

definition rq_parseContentTypeAndString :: "request \<Rightarrow> request" where
  "rq_parseContentTypeAndString r =
     (if rq_flagForParsingContentType r then r
      else
        let s = rq_getHeaderBy ''content-type'' r; r1 = r\<lparr>rq_flagForParsingContentType := True\<rparr>
        in if s = [] then r1\<lparr>rq_contentType := CT_NONE\<rparr>
           else let ct = parseContentType (if CHR '';'' \<in> set s then before CHR '';'' s else s)
                in r1\<lparr>rq_contentType := (if ct = CT_NONE then CT_CUSTOM else ct), rq_contentTypeString := s\<rparr>)"

section \<open>Parameters\<close>

text \<open>\<^verbatim>\<open>parameters_[k]\<close> without an assignment default-inserts the empty string.\<close>

definition param_item :: "string \<Rightarrow> (string \<times> string) list \<Rightarrow> (string \<times> string) list" where
  "param_item coo ps =
     (if CHR ''='' \<in> set coo
      then hput (urlDecode (ltrim (before CHR ''='' coo))) (urlDecode (behind CHR ''='' coo)) ps
      else hemplace (urlDecode coo) [] ps)"

function param_loop :: "string \<Rightarrow> (string \<times> string) list \<Rightarrow> (string \<times> string) list" where
  "param_loop v ps =
     (if CHR ''&'' \<in> set v then param_loop (behind CHR ''&'' v) (param_item (before CHR ''&'' v) ps)
      else if v \<noteq> [] then param_item v ps else ps)"
  by pat_completeness auto
termination
  by (relation "measure (length \<circ> fst)") (auto simp: behind_shorter)

declare cookie_loop.simps [simp del] param_loop.simps [simp del]

definition parse_pairs :: "string \<Rightarrow> (string \<times> string) list \<Rightarrow> (string \<times> string) list" where
  "parse_pairs input ps = param_loop (dropWhile (\<lambda>c. c = CHR ''?'' \<or> isspace c) input) ps"

definition infix_of :: "string \<Rightarrow> string \<Rightarrow> bool" where
  "infix_of p s \<longleftrightarrow> list_ex (\<lambda>i. has_prefix p (drop i s)) [0..<Suc (length s)]"

definition rq_parseParameters :: "request \<Rightarrow> request" where
  "rq_parseParameters r =
     (let ps1 = (if rq_query r \<noteq> [] then parse_pairs (rq_query r) (rq_parameters r) else rq_parameters r);
          input = rq_bodyView r;
          type = map tolower (rq_getHeaderBy ''content-type'' r);
          ps2 = (if input \<noteq> [] \<and> (type = [] \<or> infix_of ''application/x-www-form-urlencoded'' type)
                 then parse_pairs input ps1 else ps1)
      in r\<lparr>rq_parameters := ps2\<rparr>)"

definition rq_parametersOnce :: "request \<Rightarrow> request" where
  "rq_parametersOnce r =
     (if rq_flagForParsingParameters r then r else rq_parseParameters (r\<lparr>rq_flagForParsingParameters := True\<rparr>))"

definition rq_getParameter :: "string \<Rightarrow> request \<Rightarrow> string" where
  "rq_getParameter k r = (case map_of (rq_parameters (rq_parametersOnce r)) k of Some v \<Rightarrow> v | None \<Rightarrow> [])"

definition rq_setQueryParameter :: "string \<Rightarrow> string \<Rightarrow> request \<Rightarrow> request" where
  "rq_setQueryParameter k v r =
     r\<lparr>rq_query := rq_query r @ (if rq_query r \<noteq> [] then ''&'' else [])
                    @ urlEncodeComponent k @ ''='' @ urlEncodeComponent v\<rparr>"

section \<open>Rendering a request\<close>

text \<open>
  \<^verbatim>\<open>appendToBuffer\<close> into an empty buffer, for requests that are not multipart forms. The parameters are
  sent in the query string, or in the body of a form post.
\<close>

definition form_content :: "(string \<times> string) list \<Rightarrow> string" where
  "form_content ps =
     butlast (concat (map (\<lambda>(k, v). urlEncodeComponent k @ ''='' @ urlEncodeComponent v @ ''&'') ps))"

definition target_of :: "request \<Rightarrow> string" where
  "target_of r =
     (if rq_path r \<noteq> [] then (if rq_pathEncode r then urlEncode (rq_path r) else rq_path r) else ''/'')
     @ (if rq_query r \<noteq> [] then ''?'' @ rq_query r else [])"

definition sends_parameters :: "request \<Rightarrow> bool" where
  "sends_parameters r \<longleftrightarrow> \<not> rq_passThrough r \<and> rq_parameters r \<noteq> []"

definition request_target :: "request \<Rightarrow> string" where
  "request_target r =
     (let out = target_of r
      in if sends_parameters r \<and> rq_contentType r \<noteq> CT_APPLICATION_X_FORM
         then out @ (if CHR ''?'' \<in> set out then (if behind CHR ''?'' out \<noteq> [] then ''&'' else []) else ''?'')
              @ form_content (rq_parameters r)
         else out)"

definition form_body :: "request \<Rightarrow> string" where
  "form_body r =
     (if sends_parameters r \<and> rq_contentType r = CT_APPLICATION_X_FORM then form_content (rq_parameters r) else [])"

definition entity_lines :: "request \<Rightarrow> string list" where
  "entity_lines r =
     (if rq_passThrough r then []
      else
        (if form_body r \<noteq> [] \<or> rq_content r \<noteq> [] then
           [''content-length: '' @ nat_to_dec (length (form_body r) + length (rq_content r))]
           @ (if rq_contentTypeString r = [] then [''content-type: '' @ contentTypeToMime (rq_contentType r)] else [])
         else if rq_method r \<in> {Post, Put, Options, Patch} then [''content-length: 0''] else [])
        @ (if rq_contentTypeString r \<noteq> [] then [''content-type: '' @ rq_contentTypeString r] else []))"

definition cookie_lines :: "request \<Rightarrow> string list" where
  "cookie_lines r =
     (if rq_cookies r \<noteq> []
      then [''cookie: '' @ butlast (concat (map (\<lambda>(k, v). k @ ''='' @ v @ '';'') (rq_cookies r)))] else [])"

definition appendToBuffer :: "request \<Rightarrow> string" where
  "appendToBuffer r =
     (if rq_method r = Invalid then []
      else
        let line = methodString (rq_method r) @ '' '' @ request_target r @ '' ''
        in if rq_version r = kUnknown then line
           else line @ versionString (rq_version r) @ CRLF
                @ renderLines (entity_lines r @ map (\<lambda>(k, v). k @ '': '' @ v) (rq_headers r) @ cookie_lines r)
                @ CRLF @ form_body r @ rq_content r)"

section \<open>Query parameters survive the round trip\<close>

lemma before_append [simp]: "c \<notin> set a \<Longrightarrow> before c (a @ c # b) = a"
  by (induction a) (auto simp: before_def)

lemma behind_append [simp]: "c \<notin> set a \<Longrightarrow> behind c (a @ c # b) = b"
  by (induction a) (auto simp: behind_def)

lemma charToHex_chars: "c \<in> set (charToHex x) \<Longrightarrow> code c \<in> {48..57} \<union> {65..70}"
proof -
  assume c: "c \<in> set (charToHex x)"
  have "code x div 16 < 16" by (rule code_div_bounds)
  then have "code (upperHex (code x div 16)) \<in> {48..57} \<union> {65..70}" by (auto simp: code_upperHex)
  moreover have "code (upperHex (code x mod 16)) \<in> {48..57} \<union> {65..70}"
    using mod_less_divisor [of 16 "code x"] by (auto simp: code_upperHex)
  ultimately show ?thesis
    using c by (auto simp: charToHex_def and_fields and_mask_mod)
qed

definition query_safe :: "char \<Rightarrow> bool" where
  "query_safe c \<longleftrightarrow> c \<noteq> CHR ''&'' \<and> c \<noteq> CHR ''='' \<and> c \<noteq> CHR ''?'' \<and> \<not> isspace c"

lemma query_safe_code: "code c \<in> {48..57} \<union> {65..70} \<Longrightarrow> query_safe c"
  by (auto simp: query_safe_def isspace_def)

lemma component_keep_safe: "list_all query_safe component_keep"
  by (simp add: component_keep_def url_alnum_def query_safe_def isspace_def)

lemma component_safe: "c \<in> set (urlEncodeComponent s) \<Longrightarrow> query_safe c"
  unfolding urlEncodeComponent_def
proof (induction s)
  case (Cons x xs)
  then show ?case
    using component_keep_safe query_safe_code [OF charToHex_chars [of c x]]
    by (auto simp: list_all_iff split: if_splits) (simp_all add: query_safe_def isspace_def)
qed simp

definition query_item :: "string \<times> string \<Rightarrow> string" where
  "query_item kv = urlEncodeComponent (fst kv) @ ''='' @ urlEncodeComponent (snd kv)"

lemma ltrim_id: "(\<And>c. c \<in> set s \<Longrightarrow> \<not> isspace c) \<Longrightarrow> ltrim s = s"
  by (cases s) auto

lemma param_item_query: "param_item (query_item kv) ps = hput (fst kv) (snd kv) ps"
proof -
  have "CHR ''='' \<notin> set (urlEncodeComponent (fst kv))" "\<And>c. c \<in> set (urlEncodeComponent (fst kv)) \<Longrightarrow> \<not> isspace c"
    using component_safe by (auto simp: query_safe_def)
  then show ?thesis
    by (simp add: param_item_def query_item_def ltrim_id urlDecode_urlEncodeComponent)
qed

lemma query_item_chars: "CHR ''&'' \<notin> set (query_item kv)" "query_item kv \<noteq> []"
  "dropWhile (\<lambda>c. c = CHR ''?'' \<or> isspace c) (query_item kv @ s) = query_item kv @ s"
proof -
  show "CHR ''&'' \<notin> set (query_item kv)" using component_safe by (auto simp: query_item_def query_safe_def)
  show "query_item kv \<noteq> []" by (simp add: query_item_def)
  show "dropWhile (\<lambda>c. c = CHR ''?'' \<or> isspace c) (query_item kv @ s) = query_item kv @ s"
    using component_safe [of _ "fst kv"]
    by (cases "urlEncodeComponent (fst kv)") (auto simp: query_item_def query_safe_def isspace_def)
qed

definition more_items :: "(string \<times> string) list \<Rightarrow> string" where
  "more_items kvs = concat (map (\<lambda>kv. ''&'' @ query_item kv) kvs)"

abbreviation put_all :: "(string \<times> string) list \<Rightarrow> (string \<times> string) list \<Rightarrow> (string \<times> string) list" where
  "put_all kvs ps \<equiv> fold (\<lambda>kv. hput (fst kv) (snd kv)) kvs ps"

lemma param_loop_items: "param_loop (query_item kv @ more_items kvs) ps = put_all kvs (hput (fst kv) (snd kv) ps)"
proof (induction kvs arbitrary: kv ps)
  case Nil
  show ?case by (subst param_loop.simps) (simp add: more_items_def query_item_chars param_item_query)
next
  case (Cons kv' kvs)
  have "query_item kv @ more_items (kv' # kvs) = query_item kv @ CHR ''&'' # (query_item kv' @ more_items kvs)"
    by (simp add: more_items_def)
  then show ?case
    using Cons.IH by (subst param_loop.simps) (simp add: query_item_chars param_item_query)
qed

lemma query_of_fold:
  "rq_query r \<noteq> [] \<Longrightarrow>
    fold (\<lambda>kv. rq_setQueryParameter (fst kv) (snd kv)) kvs r = r\<lparr>rq_query := rq_query r @ more_items kvs\<rparr>"
proof (induction kvs arbitrary: r)
  case (Cons kv kvs)
  let ?r = "rq_setQueryParameter (fst kv) (snd kv) r"
  have "?r = r\<lparr>rq_query := rq_query r @ ''&'' @ query_item kv\<rparr>"
    using Cons.prems by (simp add: rq_setQueryParameter_def query_item_def)
  with Cons.IH [of ?r] show ?case by (simp add: more_items_def)
qed (simp add: more_items_def)

text \<open>Query parameters survive the round trip.  Whatever key/value pairs a client adds with
  \<^verbatim>\<open>setQueryParameter\<close>, arbitrary bytes included, the server side parses the resulting query string back
  to exactly these pairs, the last value of a repeated key winning.\<close>
lemma query_parameters_round_trip:
  "rq_parameters (rq_parametersOnce
     (fold (\<lambda>kv. rq_setQueryParameter (fst kv) (snd kv)) kvs HttpRequestImpl)) =
   fold (\<lambda>kv. hput (fst kv) (snd kv)) kvs []"
proof (cases kvs)
  case Nil
  then show ?thesis
    by (simp add: rq_parametersOnce_def rq_parseParameters_def HttpRequestImpl_def rq_bodyView_def)
next
  case (Cons kv rest)
  let ?r = "rq_setQueryParameter (fst kv) (snd kv) HttpRequestImpl"
  have r: "?r = HttpRequestImpl\<lparr>rq_query := query_item kv\<rparr>"
    by (simp add: rq_setQueryParameter_def query_item_def HttpRequestImpl_def)
  then have "fold (\<lambda>kv. rq_setQueryParameter (fst kv) (snd kv)) kvs HttpRequestImpl =
      HttpRequestImpl\<lparr>rq_query := query_item kv @ more_items rest\<rparr>"
    using query_of_fold [of ?r rest] Cons by (simp add: query_item_chars)
  then show ?thesis
    using Cons by (simp add: rq_parametersOnce_def rq_parseParameters_def HttpRequestImpl_def rq_bodyView_def
      rq_isStreamMode_def query_item_chars parse_pairs_def param_loop_items)
qed

end
