(* ===== verification/StaticFiles.thy ===== *)
theory StaticFiles
  imports FsPath HttpRequest RValue
begin

text \<open>
  Static mounts of \<^verbatim>\<open>src/src/drogon_server.cpp\<close>: the regular expression a mount is registered under and
  the handler that serves a file below its directory. The file system is an argument, a map from paths
  to contents; the application's 404 page and its \<^verbatim>\<open>useSendfile\<close> setting are arguments as well.
\<close>

section \<open>The mount's regular expression\<close>

definition regex_special :: string where
  "regex_special = CHR 0x5C # ''.+*?()[]{}|^$''"

fun escapeRegex :: "string \<Rightarrow> string" where
  "escapeRegex [] = []"
| "escapeRegex (c # cs) =
     (if c \<in> set regex_special then [CHR 0x5C, c] else [c]) @ escapeRegex cs"

record StaticMount =
  mount :: string
  dir :: string

definition static_regex :: "StaticMount \<Rightarrow> string" where
  "static_regex sm = ''^'' @ escapeRegex (mount sm) @ ''/(.*)$''"

text \<open>
  How an ECMAScript engine reads a pattern made of literals only: an escaped character stands for itself,
  and so does a character without a special meaning; a bare special character is not a literal.
\<close>

fun read_literals :: "string \<Rightarrow> string option" where
  "read_literals [] = Some []"
| "read_literals (c # cs) =
     (if c = CHR 0x5C then (case cs of [] \<Rightarrow> None | d # ds \<Rightarrow> map_option ((#) d) (read_literals ds))
      else if c \<in> set regex_special then None
      else map_option ((#) c) (read_literals cs))"

text \<open>
  Matching a pattern of the form \<^verbatim>\<open>^literals/(.*)$\<close>: the literals, a slash, and a capture that a dot
  loop can match, which excludes line terminators.
\<close>

definition match_mount :: "string \<Rightarrow> string \<Rightarrow> string option" where
  "match_mount pat url =
     (if has_prefix ''^'' pat \<and> has_prefix (rev ''/(.*)$'') (rev pat) then
        (case read_literals (take (length pat - 7) (drop 1 pat)) of
           None \<Rightarrow> None
         | Some lit \<Rightarrow>
             if has_prefix (lit @ ''/'') url \<and> list_all (\<lambda>c. c \<noteq> CHR 0x0A \<and> c \<noteq> CHR 0x0D) (drop (length lit + 1) url)
             then Some (drop (length lit + 1) url) else None)
      else None)"

section \<open>The handler\<close>

definition forbidden :: response where
  "forbidden = setBody ''403 Forbidden'' (setContentTypeCode CT_TEXT_PLAIN (setStatusCode 403 newHttpResponse))"

definition serve_static :: "response \<Rightarrow> bool \<Rightarrow> (string \<Rightarrow> string option) \<Rightarrow> string \<Rightarrow> request \<Rightarrow> response" where
  "serve_static notFound useSendfile fs d req =
     (let params = rq_routingParams req; rel = (if params = [] then [] else params ! 0)
      in case resolveSafely d rel of
           None \<Rightarrow> forbidden
         | Some full \<Rightarrow> newFileResponse notFound useSendfile (fs full) full 0 0 False [] CT_NONE [])"

datatype static_error = StaticRunning | MountNotString | DirNotString

text \<open>\<^verbatim>\<open>drogonR_register_static\<close>: the new table of mounts.\<close>

definition drogonR_register_static ::
  "bool \<Rightarrow> sexp \<Rightarrow> sexp \<Rightarrow> StaticMount list \<Rightarrow> static_error + StaticMount list" where
  "drogonR_register_static running mount_s dir_s ms =
     (if running then Inl StaticRunning
      else case as_one_string mount_s of
             None \<Rightarrow> Inl MountNotString
           | Some m \<Rightarrow>
               (case as_one_string dir_s of
                  None \<Rightarrow> Inl DirNotString
                | Some d \<Rightarrow> Inr (ms @ [\<lparr>mount = m, dir = d\<rparr>])))"

section \<open>Properties\<close>

lemma read_literals_escape: "read_literals (escapeRegex s) = Some s"
  by (induction s) (auto simp: regex_special_def)

lemma static_regex_read:
  "take (length (static_regex sm) - 7) (drop 1 (static_regex sm)) = escapeRegex (mount sm)"
  by (simp add: static_regex_def)

text \<open>A mount matches its own prefix only.  Read as a regular expression, the pattern registered for a
  mount matches exactly the URLs that consist of the mount, a slash and a rest without line breaks,
  and captures that rest, whatever special characters the mount contains.\<close>
lemma mount_regex_exact:
  "match_mount (static_regex sm) url = Some rel \<longleftrightarrow>
     url = mount sm @ ''/'' @ rel \<and> list_all (\<lambda>c. c \<noteq> CHR 0x0A \<and> c \<noteq> CHR 0x0D) rel"
proof -
  have "has_prefix ''^'' (static_regex sm)" "has_prefix (rev ''/(.*)$'') (rev (static_regex sm))"
    by (simp_all add: static_regex_def has_prefix_def)
  then have "match_mount (static_regex sm) url =
      (if has_prefix (mount sm @ ''/'') url \<and> list_all (\<lambda>c. c \<noteq> CHR 0x0A \<and> c \<noteq> CHR 0x0D) (drop (length (mount sm) + 1) url)
       then Some (drop (length (mount sm) + 1) url) else None)"
    unfolding match_mount_def static_regex_read read_literals_escape by simp
  then show ?thesis by (auto simp: has_prefix_iff)
qed

lemma whole_file_response:
  "statusCode (newFileResponse nf sf (Some content) p 0 0 False [] CT_NONE []) = 200"
  "\<not> (sf \<and> of_nat (length content) > (204800 :: size_t)) \<Longrightarrow> length content < 2 ^ 64 \<Longrightarrow>
    body (newFileResponse nf sf (Some content) p 0 0 False [] CT_NONE []) = Some content"
  by (auto simp: newFileResponse_def Let_def setBody_def HttpResponseImpl_def unat_of_nat)

text \<open>(C17) Static files never leave their directory.  For a mount on an absolute directory, the response to
  any request, whatever its routing parameter, depends only on files inside the directory: two file
  systems that agree there give the same response.  A parameter that does not stay inside is answered
  403 without touching the file system.\<close>
theorem static_containment:
  assumes "is_absolute d" and "\<And>p. inside d p \<Longrightarrow> fs p = fs' p"
  shows "serve_static nf sf fs d req = serve_static nf sf fs' d req
    \<and> (resolveSafely d (if rq_routingParams req = [] then [] else rq_routingParams req ! 0) = None \<longrightarrow>
        serve_static nf sf fs d req = forbidden)"
  using assms(2) resolveSafely_inside [OF assms(1)]
  by (auto simp: serve_static_def Let_def split: option.split)

theorem static_containment_witness:
  "serve_static newHttpResponse True (\<lambda>p. if p = ''/etc/passwd'' then Some ''root'' else None) ''/srv/www''
     (HttpRequestImpl\<lparr>rq_routingParams := [''../../etc/passwd'']\<rparr>)
   = serve_static newHttpResponse True (\<lambda>_. None) ''/srv/www'' (HttpRequestImpl\<lparr>rq_routingParams := [''../../etc/passwd'']\<rparr>)"
proof -
  have n: "dir_names ''/srv/www'' = [''srv'', ''www'']" by code_simp
  have "inside ''/srv/www'' p \<Longrightarrow> p \<noteq> ''/etc/passwd''" for p
  proof
    assume i: "inside ''/srv/www'' p" and p: "p = ''/etc/passwd''"
    have "fs_comps ''/etc/passwd'' = [''etc'', ''passwd'']" by code_simp
    with i p n show False by (simp add: inside_def)
  qed
  then show ?thesis
    using static_containment [of "''/srv/www''" "\<lambda>p. if p = ''/etc/passwd'' then Some ''root'' else None" "\<lambda>_. None"]
    by (simp add: is_absolute_def)
qed

text \<open>Plain paths are served.  For a mount on an absolute directory, a routing parameter made of ordinary
  names names the file of that path below the directory; an existing file is answered with status 200
  and its whole content (from memory, or by \<^verbatim>\<open>sendfile\<close> when large), a missing one with the 404 page.\<close>
lemma static_serves_plain:
  assumes "is_absolute d" and "names \<noteq> []" and "list_all plain_name names" and "''.'' \<notin> set names" and "''..'' \<notin> set names"
    and "NUL \<notin> set (join_slash names)" and "rq_routingParams req = [join_slash names]"
  shows "case fs (''/'' @ join_slash (dir_names d @ names)) of
      None \<Rightarrow> serve_static nf sf fs d req = nf
    | Some content \<Rightarrow> statusCode (serve_static nf sf fs d req) = 200
        \<and> (length content \<le> 204800 \<longrightarrow> body (serve_static nf sf fs d req) = Some content)"
proof -
  have r: "serve_static nf sf fs d req =
      (let full = ''/'' @ join_slash (dir_names d @ names) in newFileResponse nf sf (fs full) full 0 0 False [] CT_NONE [])"
    using assms(7) by (simp add: serve_static_def resolveSafely_plain [OF assms(1-6)] Let_def)
  have small: "\<not> of_nat n > (204800 :: size_t)" if "n \<le> 204800" for n
    using that by (simp add: word_less_nat_alt unat_of_nat)
  show ?thesis
    unfolding r Let_def
    by (auto simp: whole_file_response small split: option.split) (simp add: newFileResponse_def)
qed

text \<open>Range requests are not honoured.  The handler's response does not depend on the request's headers,
  and it is never a partial one: its status is that of the 404 page, 200 or 403.\<close>
lemma static_ignores_range:
  "serve_static nf sf fs d (req\<lparr>rq_headers := hs\<rparr>) = serve_static nf sf fs d req
   \<and> statusCode (serve_static nf sf fs d req) \<in> {statusCode nf, 200, 403}"
proof -
  have "statusCode (newFileResponse nf sf f p 0 0 False [] CT_NONE []) \<in> {statusCode nf, 200}" for f p
    by (cases f) (simp add: newFileResponse_def, simp add: whole_file_response)
  moreover have "statusCode forbidden = 403" by (simp add: forbidden_def response_defs)
  ultimately show ?thesis by (auto simp: serve_static_def Let_def split: option.split)
qed

end
