(* ===== verification/MsgBuffer.thy ===== *)
theory MsgBuffer
  imports Prelude
begin

text \<open>
  \<^verbatim>\<open>trantor::MsgBuffer\<close> (\<^verbatim>\<open>src/src/drogon/trantor/utils/MsgBuffer.h\<close> and \<^verbatim>\<open>.cc\<close>), the byte buffer behind
  every connection: one array with a readable window \<^verbatim>\<open>[head_, tail_)\<close>, eight bytes of slack in front,
  growth by reallocation. Every access to the array is checked: an operation that would leave the array
  is \<open>None\<close>. The client's view is the string of readable bytes; the refinement at the end says that
  the buffer behaves as that string and that \<open>None\<close> never happens.
\<close>

section \<open>The buffer\<close>

record msgbuf =
  head :: nat
  initCap :: nat
  buffer :: string
  tail :: nat

definition kBufferOffset :: nat where
  "kBufferOffset = 8"

definition newMsgBuffer :: "nat \<Rightarrow> msgbuf" where
  "newMsgBuffer len =
     \<lparr>head = kBufferOffset, initCap = len, buffer = replicate (len + kBufferOffset) NUL, tail = kBufferOffset\<rparr>"

definition readableBytes :: "msgbuf \<Rightarrow> nat" where
  "readableBytes b = tail b - head b"

definition writableBytes :: "msgbuf \<Rightarrow> nat" where
  "writableBytes b = length (buffer b) - tail b"

text \<open>The bytes \<^verbatim>\<open>[peek(), beginWrite())\<close>.\<close>

definition readable :: "msgbuf \<Rightarrow> string" where
  "readable b = take (readableBytes b) (drop (head b) (buffer b))"

text \<open>A \<^verbatim>\<open>memcpy\<close> or \<^verbatim>\<open>std::copy\<close> of \<open>s\<close> to index \<open>i\<close> of the array, inside its bounds.\<close>

definition write_at :: "nat \<Rightarrow> string \<Rightarrow> string \<Rightarrow> string option" where
  "write_at i s buf =
     (if i + length s \<le> length buf then Some (take i buf @ s @ drop (i + length s) buf) else None)"

section \<open>Writing\<close>

definition put_tail :: "string \<Rightarrow> msgbuf \<Rightarrow> msgbuf option" where
  "put_tail s b =
     map_option (\<lambda>arr. b\<lparr>buffer := arr, tail := tail b + length s\<rparr>) (write_at (tail b) s (buffer b))"

text \<open>
  \<^verbatim>\<open>ensureWritableBytes\<close>. The new buffer made in the last branch appends the old content with
  \<^verbatim>\<open>append(*this)\<close>, whose own \<^verbatim>\<open>ensureWritableBytes\<close> returns at once because the new buffer is large
  enough; a nested growth would be \<open>None\<close> here and is excluded by the lemmas below.
\<close>

definition ensureWritableBytes :: "nat \<Rightarrow> msgbuf \<Rightarrow> msgbuf option" where
  "ensureWritableBytes len b =
     (if writableBytes b \<ge> len then Some b
      else if head b + writableBytes b \<ge> len + kBufferOffset then
        map_option (\<lambda>arr. b\<lparr>buffer := arr, tail := kBufferOffset + (tail b - head b), head := kBufferOffset\<rparr>)
          (write_at kBufferOffset (readable b) (buffer b))
      else
        let newLen = (if length (buffer b) * 2 > kBufferOffset + readableBytes b + len
                      then length (buffer b) * 2 else readableBytes b + len);
            newbuffer = newMsgBuffer newLen
        in if writableBytes newbuffer \<ge> readableBytes b then put_tail (readable b) newbuffer else None)"

definition mb_append :: "string \<Rightarrow> msgbuf \<Rightarrow> msgbuf option" where
  "mb_append s b = Option.bind (ensureWritableBytes (length s) b) (put_tail s)"

definition mb_addInFront :: "string \<Rightarrow> msgbuf \<Rightarrow> msgbuf option" where
  "mb_addInFront s b =
     (if head b \<ge> length s then
        map_option (\<lambda>arr. b\<lparr>buffer := arr, head := head b - length s\<rparr>)
          (write_at (head b - length s) s (buffer b))
      else if length s \<le> writableBytes b then
        Option.bind (write_at (head b + length s) (readable b) (buffer b)) (\<lambda>arr.
        map_option (\<lambda>arr'. b\<lparr>buffer := arr', tail := tail b + length s\<rparr>) (write_at (head b) s arr))
      else
        let newLen = (if length s + readableBytes b < initCap b then initCap b else length s + readableBytes b)
        in Option.bind (mb_append s (newMsgBuffer newLen)) (mb_append (readable b)))"

text \<open>
  \<^verbatim>\<open>readFd\<close>: \<open>data\<close> is what \<^verbatim>\<open>readv\<close> delivered, first into the free space of the array, then into the
  8192 bytes on the stack (which are offered only when the free space is smaller than that).
\<close>

definition readv_capacity :: "msgbuf \<Rightarrow> nat" where
  "readv_capacity b = (if writableBytes b < 8192 then writableBytes b + 8192 else writableBytes b)"

definition mb_readFd :: "string \<Rightarrow> msgbuf \<Rightarrow> msgbuf option" where
  "mb_readFd data b =
     (let writable = writableBytes b
      in if length data \<le> writable then put_tail data b
         else Option.bind (write_at (tail b) (take writable data) (buffer b)) (\<lambda>arr.
              mb_append (drop writable data) (b\<lparr>buffer := arr, tail := length arr\<rparr>)))"

section \<open>Reading\<close>

text \<open>\<^verbatim>\<open>buffer_.resize(n)\<close>.\<close>

definition resized :: "nat \<Rightarrow> string \<Rightarrow> string" where
  "resized n buf = take n buf @ replicate (n - length buf) NUL"

definition retrieveAll :: "msgbuf \<Rightarrow> msgbuf" where
  "retrieveAll b =
     (let b1 = (if length (buffer b) > initCap b * 2 then b\<lparr>buffer := resized (initCap b + kBufferOffset) (buffer b)\<rparr> else b)
      in b1\<lparr>tail := kBufferOffset, head := kBufferOffset\<rparr>)"

definition mb_retrieve :: "nat \<Rightarrow> msgbuf \<Rightarrow> msgbuf" where
  "mb_retrieve len b = (if len \<ge> readableBytes b then retrieveAll b else b\<lparr>head := head b + len\<rparr>)"

definition mb_read :: "nat \<Rightarrow> msgbuf \<Rightarrow> string \<times> msgbuf" where
  "mb_read len b =
     (let n = (if len > readableBytes b then readableBytes b else len)
      in (take n (drop (head b) (buffer b)), mb_retrieve n b))"

definition mb_unwrite :: "nat \<Rightarrow> msgbuf \<Rightarrow> msgbuf" where
  "mb_unwrite offset b = b\<lparr>tail := tail b - offset\<rparr>"

text \<open>\<^verbatim>\<open>findCRLF\<close>: the offset of the first CRLF among the readable bytes.\<close>

fun find_crlf :: "string \<Rightarrow> nat option" where
  "find_crlf (c # d # cs) =
     (if c = CHR 0x0D \<and> d = CHR 0x0A then Some 0 else map_option Suc (find_crlf (d # cs)))"
| "find_crlf _ = None"

definition findCRLF :: "msgbuf \<Rightarrow> nat option" where
  "findCRLF b = find_crlf (readable b)"

section \<open>Integers in network order\<close>

text \<open>\<^verbatim>\<open>htons\<close>, \<^verbatim>\<open>htonl\<close>, \<^verbatim>\<open>hton64\<close>: the bytes of a number, most significant first.\<close>

fun be_bytes :: "nat \<Rightarrow> nat \<Rightarrow> string" where
  "be_bytes 0 n = []"
| "be_bytes (Suc k) n = be_bytes k (n div 256) @ [char_of n]"

definition be_value :: "string \<Rightarrow> nat" where
  "be_value s = foldl (\<lambda>v c. 256 * v + of_char c) 0 s"

definition appendInt8 :: "8 word \<Rightarrow> msgbuf \<Rightarrow> msgbuf option" where
  "appendInt8 w b = mb_append (be_bytes 1 (unat w)) b"

definition appendInt16 :: "16 word \<Rightarrow> msgbuf \<Rightarrow> msgbuf option" where
  "appendInt16 w b = mb_append (be_bytes 2 (unat w)) b"

definition appendInt32 :: "32 word \<Rightarrow> msgbuf \<Rightarrow> msgbuf option" where
  "appendInt32 w b = mb_append (be_bytes 4 (unat w)) b"

definition appendInt64 :: "64 word \<Rightarrow> msgbuf \<Rightarrow> msgbuf option" where
  "appendInt64 w b = mb_append (be_bytes 8 (unat w)) b"

definition addInFrontInt16 :: "16 word \<Rightarrow> msgbuf \<Rightarrow> msgbuf option" where
  "addInFrontInt16 w b = mb_addInFront (be_bytes 2 (unat w)) b"

definition addInFrontInt32 :: "32 word \<Rightarrow> msgbuf \<Rightarrow> msgbuf option" where
  "addInFrontInt32 w b = mb_addInFront (be_bytes 4 (unat w)) b"

definition addInFrontInt64 :: "64 word \<Rightarrow> msgbuf \<Rightarrow> msgbuf option" where
  "addInFrontInt64 w b = mb_addInFront (be_bytes 8 (unat w)) b"

text \<open>The readers assert that enough bytes are there; \<open>None\<close> is the failed assertion.\<close>

definition peekInt :: "nat \<Rightarrow> msgbuf \<Rightarrow> nat option" where
  "peekInt k b = (if readableBytes b \<ge> k then Some (be_value (take k (drop (head b) (buffer b)))) else None)"

definition readInt16 :: "msgbuf \<Rightarrow> (16 word \<times> msgbuf) option" where
  "readInt16 b = map_option (\<lambda>n. (of_nat n, mb_retrieve 2 b)) (peekInt 2 b)"

definition readInt32 :: "msgbuf \<Rightarrow> (32 word \<times> msgbuf) option" where
  "readInt32 b = map_option (\<lambda>n. (of_nat n, mb_retrieve 4 b)) (peekInt 4 b)"

definition readInt64 :: "msgbuf \<Rightarrow> (64 word \<times> msgbuf) option" where
  "readInt64 b = map_option (\<lambda>n. (of_nat n, mb_retrieve 8 b)) (peekInt 8 b)"

section \<open>The interface\<close>

text \<open>
  What the connections rely on: a buffer is a string of bytes; bytes are appended at its end or put in
  front, consumed from its front, and taken back from its end.
\<close>

datatype buf_op = Append string | AddInFront string | ReadFd string | Retrieve nat | Unwrite nat

locale byte_buffer =
  fixes abs :: "'b \<Rightarrow> string"
    and ok :: "'b \<Rightarrow> bool"
    and op_append :: "string \<Rightarrow> 'b \<Rightarrow> 'b option"
    and op_front :: "string \<Rightarrow> 'b \<Rightarrow> 'b option"
    and op_readFd :: "string \<Rightarrow> 'b \<Rightarrow> 'b option"
    and op_retrieve :: "nat \<Rightarrow> 'b \<Rightarrow> 'b"
    and op_unwrite :: "nat \<Rightarrow> 'b \<Rightarrow> 'b"
  assumes append_law: "ok b \<Longrightarrow> \<exists>b'. op_append s b = Some b' \<and> ok b' \<and> abs b' = abs b @ s"
    and front_law: "ok b \<Longrightarrow> \<exists>b'. op_front s b = Some b' \<and> ok b' \<and> abs b' = s @ abs b"
    and readFd_law: "ok b \<Longrightarrow> \<exists>b'. op_readFd s b = Some b' \<and> ok b' \<and> abs b' = abs b @ s"
    and retrieve_law: "ok b \<Longrightarrow> ok (op_retrieve n b) \<and> abs (op_retrieve n b) = drop n (abs b)"
    and unwrite_law: "ok b \<Longrightarrow> n \<le> length (abs b) \<Longrightarrow>
      ok (op_unwrite n b) \<and> abs (op_unwrite n b) = take (length (abs b) - n) (abs b)"
begin

fun run :: "buf_op list \<Rightarrow> 'b \<Rightarrow> 'b option" where
  "run [] b = Some b"
| "run (Append s # ops) b = Option.bind (op_append s b) (run ops)"
| "run (AddInFront s # ops) b = Option.bind (op_front s b) (run ops)"
| "run (ReadFd s # ops) b = Option.bind (op_readFd s b) (run ops)"
| "run (Retrieve n # ops) b = run ops (op_retrieve n b)"
| "run (Unwrite n # ops) b = run ops (op_unwrite n b)"

end

text \<open>The specification: the same operations on a string; taking back more than there is is excluded.\<close>

fun spec_ops :: "buf_op list \<Rightarrow> string \<Rightarrow> string option" where
  "spec_ops [] s = Some s"
| "spec_ops (Append x # ops) s = spec_ops ops (s @ x)"
| "spec_ops (AddInFront x # ops) s = spec_ops ops (x @ s)"
| "spec_ops (ReadFd x # ops) s = spec_ops ops (s @ x)"
| "spec_ops (Retrieve n # ops) s = spec_ops ops (drop n s)"
| "spec_ops (Unwrite n # ops) s = (if n \<le> length s then spec_ops ops (take (length s - n) s) else None)"

context byte_buffer
begin

lemma run_refines:
  "ok b \<Longrightarrow> spec_ops ops (abs b) = Some s \<Longrightarrow> \<exists>b'. run ops b = Some b' \<and> ok b' \<and> abs b' = s"
proof (induction ops arbitrary: b)
  case (Cons op ops)
  show ?case
  proof (cases op)
    case (Append x)
    with Cons append_law [of b x] show ?thesis by fastforce
  next
    case (AddInFront x)
    with Cons front_law [of b x] show ?thesis by fastforce
  next
    case (ReadFd x)
    with Cons readFd_law [of b x] show ?thesis by fastforce
  next
    case (Retrieve n)
    with Cons retrieve_law [of b n] show ?thesis by simp
  next
    case (Unwrite n)
    with Cons unwrite_law [of b n] show ?thesis by (simp split: if_splits)
  qed
qed simp

end

section \<open>The buffer satisfies the interface\<close>

definition mb_inv :: "msgbuf \<Rightarrow> bool" where
  "mb_inv b \<longleftrightarrow> head b \<le> tail b \<and> tail b \<le> length (buffer b) \<and> kBufferOffset \<le> length (buffer b)"

lemma length_readable: "mb_inv b \<Longrightarrow> length (readable b) = readableBytes b"
  by (auto simp: mb_inv_def readable_def readableBytes_def)

lemma newMsgBuffer_ok: "mb_inv (newMsgBuffer n)" "readable (newMsgBuffer n) = []" "writableBytes (newMsgBuffer n) = n"
  "readableBytes (newMsgBuffer n) = 0"
  by (simp_all add: newMsgBuffer_def mb_inv_def readable_def readableBytes_def writableBytes_def)

lemma write_at_ok: "i + length s \<le> length buf \<Longrightarrow>
  \<exists>arr. write_at i s buf = Some arr \<and> length arr = length buf \<and> take i arr = take i buf
    \<and> take (length s) (drop i arr) = s \<and> drop (i + length s) arr = drop (i + length s) buf"
  by (auto simp: write_at_def)

lemma put_tail_ok:
  assumes "mb_inv b" and "length s \<le> writableBytes b"
  shows "\<exists>b'. put_tail s b = Some b' \<and> mb_inv b' \<and> readable b' = readable b @ s"
proof -
  have le: "tail b + length s \<le> length (buffer b)"
    using assms by (auto simp: mb_inv_def writableBytes_def)
  have "take (tail b + length s - head b) (drop (head b) (take (tail b) (buffer b) @ s @ drop (tail b + length s) (buffer b))) =
      take (tail b - head b) (drop (head b) (buffer b)) @ s"
    using assms le by (simp add: mb_inv_def drop_take)
  then show ?thesis
    using assms le by (auto simp: put_tail_def write_at_def mb_inv_def readable_def readableBytes_def)
qed

lemma ensureWritableBytes_ok:
  assumes inv: "mb_inv b"
  shows "\<exists>b'. ensureWritableBytes len b = Some b' \<and> mb_inv b' \<and> readable b' = readable b \<and> len \<le> writableBytes b'"
proof -
  consider "len \<le> writableBytes b" | "\<not> len \<le> writableBytes b" "len + kBufferOffset \<le> head b + writableBytes b"
    | "\<not> len \<le> writableBytes b" "\<not> len + kBufferOffset \<le> head b + writableBytes b" by blast
  then show ?thesis
  proof cases
    case 1
    then show ?thesis using inv by (simp add: ensureWritableBytes_def)
  next
    case 2
    then have "kBufferOffset + length (readable b) \<le> length (buffer b)"
      using inv by (simp add: length_readable mb_inv_def readableBytes_def writableBytes_def)
    from write_at_ok [OF this] obtain arr where arr: "write_at kBufferOffset (readable b) (buffer b) = Some arr"
      "length arr = length (buffer b)" "take (length (readable b)) (drop kBufferOffset arr) = readable b" by blast
    with 2 inv show ?thesis
      by (auto simp: ensureWritableBytes_def mb_inv_def readable_def [of "b\<lparr>buffer := _, tail := _, head := _\<rparr>"]
          length_readable readableBytes_def writableBytes_def)
  next
    case 3
    define newLen where "newLen = (if length (buffer b) * 2 > kBufferOffset + readableBytes b + len
                      then length (buffer b) * 2 else readableBytes b + len)"
    have le: "readableBytes b + len \<le> newLen" by (simp add: newLen_def)
    have "length (readable b) \<le> writableBytes (newMsgBuffer newLen)"
      using le by (simp add: length_readable [OF inv] newMsgBuffer_ok)
    from put_tail_ok [OF newMsgBuffer_ok(1) this] obtain b' where
      b': "put_tail (readable b) (newMsgBuffer newLen) = Some b'" "mb_inv b'" "readable b' = readable b"
      by (auto simp: newMsgBuffer_ok)
    have "len \<le> writableBytes b'"
      using b'(1) le by (auto simp: put_tail_def write_at_def newMsgBuffer_def writableBytes_def length_readable [OF inv] split: if_splits)
    moreover have "ensureWritableBytes len b = Some b'"
      using 3 b'(1) le by (simp add: ensureWritableBytes_def newLen_def [symmetric] newMsgBuffer_ok Let_def)
    ultimately show ?thesis using b' by blast
  qed
qed

lemma mb_append_ok:
  assumes "mb_inv b"
  shows "\<exists>b'. mb_append s b = Some b' \<and> mb_inv b' \<and> readable b' = readable b @ s"
proof -
  from ensureWritableBytes_ok [OF assms] obtain b1 where
    "ensureWritableBytes (length s) b = Some b1" "mb_inv b1" "readable b1 = readable b" "length s \<le> writableBytes b1" by blast
  with put_tail_ok [of b1 s] show ?thesis by (auto simp: mb_append_def)
qed

lemma mb_addInFront_ok:
  assumes inv: "mb_inv b"
  shows "\<exists>b'. mb_addInFront s b = Some b' \<and> mb_inv b' \<and> readable b' = s @ readable b"
proof -
  consider "length s \<le> head b" | "\<not> length s \<le> head b" "length s \<le> writableBytes b"
    | "\<not> length s \<le> head b" "\<not> length s \<le> writableBytes b" by blast
  then show ?thesis
  proof cases
    case 1
    then have "take (tail b - (head b - length s)) (s @ drop (head b) (buffer b)) = s @ readable b"
      using inv by (auto simp: mb_inv_def readable_def readableBytes_def)
    with 1 inv show ?thesis
      by (auto simp: mb_addInFront_def write_at_def mb_inv_def readable_def readableBytes_def)
  next
    case 2
    let ?n = "length s" and ?h = "head b"
    have le: "?h + ?n + length (readable b) \<le> length (buffer b)" "length (readable b) = tail b - ?h" "?h \<le> tail b"
      using 2 inv by (auto simp: length_readable mb_inv_def readableBytes_def writableBytes_def)
    define arr where "arr = take (?h + ?n) (buffer b) @ readable b @ drop (?h + ?n + length (readable b)) (buffer b)"
    have arr: "write_at (?h + ?n) (readable b) (buffer b) = Some arr" "length arr = length (buffer b)"
      using le by (simp_all add: write_at_def arr_def)
    define arr' where "arr' = take ?h arr @ s @ drop (?h + ?n) arr"
    have arr': "write_at ?h s arr = Some arr'" "length arr' = length (buffer b)"
      using le arr by (simp_all add: write_at_def arr'_def)
    have "drop ?h arr' = s @ readable b @ drop (?h + ?n + length (readable b)) (buffer b)"
      using le by (simp add: arr'_def arr_def)
    then have "take (tail b + ?n - ?h) (drop ?h arr') = s @ readable b"
      using le by simp
    with 2 arr arr' inv le show ?thesis
      by (auto simp: mb_addInFront_def mb_inv_def readable_def [of "b\<lparr>buffer := _, tail := _\<rparr>"] readableBytes_def)
  next
    case 3
    let ?nl = "if length s + readableBytes b < initCap b then initCap b else length s + readableBytes b"
    from mb_append_ok [OF newMsgBuffer_ok(1)] obtain b1 where
      "mb_append s (newMsgBuffer ?nl) = Some b1" "mb_inv b1" "readable b1 = s" by (auto simp: newMsgBuffer_ok)
    with mb_append_ok [of b1 "readable b"] 3 show ?thesis by (simp add: mb_addInFront_def Let_def)
  qed
qed

lemma mb_readFd_ok:
  assumes inv: "mb_inv b"
  shows "\<exists>b'. mb_readFd data b = Some b' \<and> mb_inv b' \<and> readable b' = readable b @ data"
proof (cases "length data \<le> writableBytes b")
  case True
  with put_tail_ok [OF inv] show ?thesis by (simp add: mb_readFd_def Let_def)
next
  case False
  let ?w = "writableBytes b"
  have len: "length (take ?w data) = ?w" "tail b + ?w = length (buffer b)"
    using False inv by (auto simp: writableBytes_def mb_inv_def)
  from put_tail_ok [OF inv, of "take ?w data"] len obtain b1 where
    b1: "put_tail (take ?w data) b = Some b1" "mb_inv b1" "readable b1 = readable b @ take ?w data" by auto
  then obtain arr where arr: "write_at (tail b) (take ?w data) (buffer b) = Some arr"
    "b1 = b\<lparr>buffer := arr, tail := tail b + ?w\<rparr>" "length arr = length (buffer b)"
    using len by (auto simp: put_tail_def write_at_def split: if_splits)
  with mb_append_ok [OF b1(2), of "drop ?w data"] b1(3) False len show ?thesis
    by (auto simp: mb_readFd_def Let_def)
qed

lemma mb_retrieve_ok:
  assumes "mb_inv b"
  shows "mb_inv (mb_retrieve n b) \<and> readable (mb_retrieve n b) = drop n (readable b)"
proof (cases "n \<ge> readableBytes b")
  case True
  then have "drop n (readable b) = []" using length_readable [OF assms] by simp
  with True assms show ?thesis
    by (auto simp: mb_retrieve_def retrieveAll_def Let_def mb_inv_def readable_def readableBytes_def resized_def)
next
  case False
  then show ?thesis using assms
    by (auto simp: mb_retrieve_def mb_inv_def readable_def readableBytes_def drop_take add.commute)
qed

lemma mb_unwrite_ok:
  "mb_inv b \<Longrightarrow> n \<le> length (readable b) \<Longrightarrow>
    mb_inv (mb_unwrite n b) \<and> readable (mb_unwrite n b) = take (length (readable b) - n) (readable b)"
  by (auto simp: length_readable) (auto simp: mb_unwrite_def mb_inv_def readable_def readableBytes_def min_def add.commute)

interpretation mb: byte_buffer readable mb_inv mb_append mb_addInFront mb_readFd mb_retrieve mb_unwrite
  by unfold_locales (simp_all add: mb_append_ok mb_addInFront_ok mb_readFd_ok mb_retrieve_ok mb_unwrite_ok)

section \<open>Integers\<close>

lemma be_bytes_length [simp]: "length (be_bytes k n) = k"
  by (induction k arbitrary: n) auto

lemma be_value_snoc: "be_value (s @ [c]) = 256 * be_value s + of_char c"
  by (simp add: be_value_def)

lemma be_value_bytes: "be_value (be_bytes k n) = n mod 256 ^ k"
proof (induction k arbitrary: n)
  case 0
  show ?case by (simp add: be_value_def)
next
  case (Suc k)
  have "n mod 256 ^ Suc k = 256 * (n div 256 mod 256 ^ k) + n mod 256"
    using mod_mult2_eq [of n 256 "256 ^ k"] by simp
  with Suc show ?case by (simp add: be_value_snoc of_char_of take_bit_eq_mod)
qed

lemma peekInt_readable: "mb_inv b \<Longrightarrow> k \<le> length (readable b) \<Longrightarrow> peekInt k b = Some (be_value (take k (readable b)))"
  by (simp add: length_readable peekInt_def) (simp add: readable_def min_absorb1)

text \<open>The buffer's operations by name, as a run of the interface.\<close>

fun run_msgbuf :: "buf_op list \<Rightarrow> msgbuf \<Rightarrow> msgbuf option" where
  "run_msgbuf [] b = Some b"
| "run_msgbuf (Append s # ops) b = Option.bind (mb_append s b) (run_msgbuf ops)"
| "run_msgbuf (AddInFront s # ops) b = Option.bind (mb_addInFront s b) (run_msgbuf ops)"
| "run_msgbuf (ReadFd s # ops) b = Option.bind (mb_readFd s b) (run_msgbuf ops)"
| "run_msgbuf (Retrieve n # ops) b = run_msgbuf ops (mb_retrieve n b)"
| "run_msgbuf (Unwrite n # ops) b = run_msgbuf ops (mb_unwrite n b)"

lemma run_msgbuf_run: "run_msgbuf ops b = mb.run ops b"
proof (induction ops arbitrary: b)
  case (Cons op ops)
  have "run_msgbuf ops = mb.run ops" by (rule ext) (rule Cons)
  then show ?case by (cases op) simp_all
qed simp



lemma append_int:
  assumes "mb_inv b" and "n < 256 ^ k"
  shows "\<exists>b1. mb_append (be_bytes k n) b = Some b1 \<and> peekInt k (mb_retrieve (readableBytes b) b1) = Some n
    \<and> readable (mb_retrieve k (mb_retrieve (readableBytes b) b1)) = []"
proof -
  from mb_append_ok [OF assms(1)] obtain b1 where
    b1: "mb_append (be_bytes k n) b = Some b1" "mb_inv b1" "readable b1 = readable b @ be_bytes k n" by blast
  then have "mb_inv (mb_retrieve (readableBytes b) b1)" "readable (mb_retrieve (readableBytes b) b1) = be_bytes k n"
    using mb_retrieve_ok [of b1 "readableBytes b"] length_readable [OF assms(1)] by simp_all
  with b1(1) assms(2) mb_retrieve_ok [of "mb_retrieve (readableBytes b) b1" k] show ?thesis
    by (simp add: peekInt_readable be_value_bytes)
qed

lemma front_int:
  assumes "mb_inv b" and "n < 256 ^ k"
  shows "\<exists>b1. mb_addInFront (be_bytes k n) b = Some b1 \<and> peekInt k b1 = Some n \<and> readable (mb_retrieve k b1) = readable b"
proof -
  from mb_addInFront_ok [OF assms(1)] obtain b1 where
    b1: "mb_addInFront (be_bytes k n) b = Some b1" "mb_inv b1" "readable b1 = be_bytes k n @ readable b" by blast
  with assms(2) mb_retrieve_ok [of b1 k] show ?thesis
    by (simp add: peekInt_readable be_value_bytes)
qed

lemma unat_bytes: "unat (w16 :: 16 word) < 256 ^ 2" "unat (w32 :: 32 word) < 256 ^ 4" "unat (w64 :: 64 word) < 256 ^ 8"
  by (rule order_less_le_trans [OF unsigned_less]; simp)+

text \<open>Integers survive the buffer.  Behind whatever bytes are already readable, a 16 or 64 bit
  number that is appended in network order is read back unchanged once those bytes are consumed, and a
  32 bit number put in front of the buffer is read back at once, leaving the old bytes.\<close>
lemma msgbuf_int_round_trip:
  assumes "mb_inv b"
  shows "(\<exists>b1 b2. appendInt16 w16 b = Some b1 \<and> readInt16 (mb_retrieve (readableBytes b) b1) = Some (w16, b2) \<and> readable b2 = [])
    \<and> (\<exists>b1 b2. appendInt64 w64 b = Some b1 \<and> readInt64 (mb_retrieve (readableBytes b) b1) = Some (w64, b2) \<and> readable b2 = [])
    \<and> (\<exists>b1 b2. addInFrontInt32 w32 b = Some b1 \<and> readInt32 b1 = Some (w32, b2) \<and> readable b2 = readable b)"
  using append_int [OF assms unat_bytes(1) [of w16]] append_int [OF assms unat_bytes(3) [of w64]]
    front_int [OF assms unat_bytes(2) [of w32]]
  by (auto simp: appendInt16_def appendInt64_def addInFrontInt32_def readInt16_def readInt32_def readInt64_def)

end
