(* ===== verification/HttpRequestParser.thy ===== *)
theory HttpRequestParser
  imports HttpRequest MsgBuffer "HOL-Library.Code_Target_Nat"
begin

text \<open>
  \<^verbatim>\<open>HttpRequestParser\<close> (\<^verbatim>\<open>src/src/drogon/lib/src/HttpRequestParser.cc\<close>): the incremental parser that
  every connection runs over its receive buffer, one \<open>parse_step\<close> per turn of the \<^verbatim>\<open>while\<close> loop. The
  buffer is the string of readable bytes (see the refinement in \<^verbatim>\<open>MsgBuffer\<close>); the application's
  settings are an argument. Reading outside the buffer, which the C++ code can be made to do, is the
  outcome \<open>Undefined\<close>.
\<close>

section \<open>Numbers on the wire\<close>

abbreviation hexval :: "string \<Rightarrow> nat" where
  "hexval s \<equiv> foldl (\<lambda>v c. 16 * v + xvalue c) 0 s"

text \<open>An optional sign, after white space.\<close>

definition signed_rest :: "string \<Rightarrow> bool \<times> string" where
  "signed_rest s =
     (case ltrim s of
        c # cs \<Rightarrow> if c = CHR ''-'' then (True, cs) else if c = CHR ''+'' then (False, cs) else (False, c # cs)
      | [] \<Rightarrow> (False, []))"

text \<open>\<^verbatim>\<open>strtol(s, &end, 16)\<close>: an optional \<^verbatim>\<open>0x\<close>, then digits; clamped to \<^verbatim>\<open>long\<close>, 0 without digits.\<close>

definition strip_0x :: "string \<Rightarrow> string" where
  "strip_0x s =
     (case s of
        a # b # d # cs \<Rightarrow> if a = CHR ''0'' \<and> (b = CHR ''x'' \<or> b = CHR ''X'') \<and> isxdigit d then d # cs else s
      | _ \<Rightarrow> s)"

definition strtol16 :: "string \<Rightarrow> int" where
  "strtol16 s =
     (let (neg, r) = signed_rest (c_str s); v = int (hexval (takeWhile isxdigit (strip_0x r)))
      in if neg then max (- (2 ^ 63)) (- v) else min (2 ^ 63 - 1) v)"

text \<open>\<^verbatim>\<open>std::stoull(s)\<close>: \<open>None\<close> when it throws; a minus sign negates modulo \<open>2\<^sup>6\<^sup>4\<close>.\<close>

definition stoull :: "string \<Rightarrow> size_t option" where
  "stoull s =
     (let (neg, r) = signed_rest (c_str s); ds = takeWhile is_digit r; v = dec_value ds
      in if ds = [] \<or> v \<ge> 2 ^ 64 then None
         else Some (if neg then - of_nat v else of_nat v))"

section \<open>The parser\<close>

datatype HttpRequestParseStatus =
  kExpectMethod | kExpectRequestLine | kExpectHeaders | kExpectBody | kExpectChunkLen
  | kExpectChunkBody | kExpectLastEmptyChunk | kGotAll

record app_config =
  clientMaxBodySize :: size_t
  clientMaxMemoryBodySize :: size_t
  requestStreamEnabled :: bool
  connAlive :: bool                 \<comment> \<open>\<^verbatim>\<open>conn_.lock()\<close> succeeds\<close>
  continueResponse :: string        \<comment> \<open>the rendered 100 Continue response\<close>

record parser =
  p_status :: HttpRequestParseStatus
  p_request :: request
  p_remain :: size_t                \<comment> \<open>\<^verbatim>\<open>remainContentLength_\<close>\<close>
  p_chunk :: size_t                 \<comment> \<open>\<^verbatim>\<open>currentChunkLength_\<close>\<close>
  p_counter :: nat                  \<comment> \<open>\<^verbatim>\<open>requestsCounter_\<close>\<close>
  p_sent :: "string list"           \<comment> \<open>what the parser itself sent on the connection\<close>

definition newParser :: parser where
  "newParser =
     \<lparr>p_status = kExpectMethod, p_request = HttpRequestImpl, p_remain = 0, p_chunk = 0, p_counter = 0, p_sent = []\<rparr>"

text \<open>\<^verbatim>\<open>reset()\<close>: a fresh request, from the pool or new; both are in the initial state.\<close>

definition parser_reset :: "parser \<Rightarrow> parser" where
  "parser_reset p = p\<lparr>p_remain := 0, p_status := kExpectMethod, p_request := HttpRequestImpl\<rparr>"

definition METHOD_MAX_LEN :: nat where "METHOD_MAX_LEN = 7"
definition CRLF_LEN :: nat where "CRLF_LEN = 2"
definition TRUNK_LEN_MAX_LEN :: nat where "TRUNK_LEN_MAX_LEN = 16"

text \<open>\<^verbatim>\<open>processRequestLine(begin, end)\<close>: the target and the version.\<close>

definition target_path :: "string \<Rightarrow> string" where
  "target_path t =
     (let slash = dropWhile (\<lambda>c. c \<noteq> CHR ''/'') t
      in if slash \<noteq> t \<and> 1 < length slash \<and> slash ! 1 = CHR ''/''
         then dropWhile (\<lambda>c. c \<noteq> CHR ''/'') (drop 2 slash) else slash)"

definition processRequestLine :: "string \<Rightarrow> request \<Rightarrow> bool \<times> request" where
  "processRequestLine line r =
     (if CHR '' '' \<notin> set line then (False, r)
      else
        let slash = target_path (before CHR '' '' line);
            r1 = (if slash \<noteq> [] then rq_setPathBytes (before CHR ''?'' slash) r else rq_setPath ''/'' r);
            r2 = (if CHR ''?'' \<in> set slash then rq_setQuery (behind CHR ''?'' slash) r1 else r1);
            rest = behind CHR '' '' line
        in if length rest = 8 \<and> take 7 rest = ''HTTP/1.''
           then (if last rest = CHR ''1'' then (True, rq_setVersion kHttp11 r2)
                 else if last rest = CHR ''0'' then (True, rq_setVersion kHttp10 r2)
                 else (False, r2))
           else (False, r2))"

datatype verdict = Return int | Undefined

text \<open>One turn of the loop: \<open>None\<close> is \<^verbatim>\<open>continue\<close>.\<close>

type_synonym turn = "verdict option \<times> parser \<times> string"

definition step_method :: "parser \<Rightarrow> string \<Rightarrow> turn" where
  "step_method p buf =
     (if CHR '' '' \<notin> set buf
      then (Some (Return (if length buf > METHOD_MAX_LEN then - 400 else 0)), p, buf)
      else
        let (found, r) = rq_setMethodBytes (before CHR '' '' buf) (p_request p)
        in if \<not> found then (Some (Return (- 405)), p\<lparr>p_request := r\<rparr>, buf)
           else (None, p\<lparr>p_request := r, p_status := kExpectRequestLine\<rparr>, behind CHR '' '' buf))"

definition step_request_line :: "parser \<Rightarrow> string \<Rightarrow> turn" where
  "step_request_line p buf =
     (case find_crlf buf of
        None \<Rightarrow> (Some (Return (if length buf \<ge> 64 * 1024 then - 414 else 0)), p, buf)
      | Some i \<Rightarrow>
          let (succeed, r) = processRequestLine (take i buf) (p_request p)
          in if \<not> succeed then (Some (Return (- 400)), p\<lparr>p_request := r\<rparr>, buf)
             else (None, p\<lparr>p_request := r, p_status := kExpectHeaders\<rparr>, drop (i + CRLF_LEN) buf))"

text \<open>The end of the headers: body framing, size limit, expectations, stream mode.\<close>

definition framing :: "parser \<Rightarrow> int + parser" where
  "framing p =
     (let r = p_request p; len = rq_getHeaderBy ''content-length'' r
      in if len \<noteq> [] then
           (case stoull len of
              None \<Rightarrow> Inl (- 400)
            | Some n \<Rightarrow> Inr (p\<lparr>p_remain := n, p_request := r\<lparr>rq_contentLengthHeaderValue := Some n\<rparr>,
                              p_status := (if n = 0 then kGotAll else kExpectBody)\<rparr>))
         else
           let encode = rq_getHeaderBy ''transfer-encoding'' r
           in if encode = [] then Inr (p\<lparr>p_status := kGotAll\<rparr>)
              else if encode = ''chunked'' then Inr (p\<lparr>p_status := kExpectChunkLen\<rparr>)
              else Inl (- 501))"

definition check_expect :: "app_config \<Rightarrow> parser \<Rightarrow> int + parser" where
  "check_expect cfg p =
     (let expect = (case rq_expect (p_request p) of None \<Rightarrow> [] | Some e \<Rightarrow> e)
      in if expect = ''100-continue'' \<and> rq_version (p_request p) = kHttp11 then
           (if p_remain p = 0 then Inl (- 400)
            else if \<not> connAlive cfg then Inl (- 1)
            else Inr (p\<lparr>p_sent := p_sent p @ [continueResponse cfg]\<rparr>))
         else if expect \<noteq> [] then Inl (- 417) else Inr p)"

definition end_of_headers :: "app_config \<Rightarrow> parser \<Rightarrow> string \<Rightarrow> turn" where
  "end_of_headers cfg p buf =
     (case framing p of
        Inl e \<Rightarrow> (Some (Return e), p, buf)
      | Inr p1 \<Rightarrow>
          if p_remain p1 > clientMaxBodySize cfg then (Some (Return (- 413)), p1, buf)
          else
            case check_expect cfg p1 of
              Inl e \<Rightarrow> (Some (Return e), p1, buf)
            | Inr p2 \<Rightarrow>
                if requestStreamEnabled cfg then
                  (let p3 = p2\<lparr>p_request := (p_request p2)\<lparr>rq_streamStatus := Open\<rparr>\<rparr>
                   in if p_status p3 = kGotAll
                      then (Some (Return 2), p3\<lparr>p_counter := Suc (p_counter p3)\<rparr>, buf)
                      else (Some (Return 3), p3, buf))
                else
                  (None,
                   if p_remain p2 \<noteq> 0
                   then p2\<lparr>p_request := rq_reserveBodySize (clientMaxMemoryBodySize cfg) (p_remain p2) (p_request p2)\<rparr>
                   else p2, buf))"

definition step_headers :: "app_config \<Rightarrow> parser \<Rightarrow> string \<Rightarrow> turn" where
  "step_headers cfg p buf =
     (case find_crlf buf of
        None \<Rightarrow> (Some (Return (if length buf \<ge> 64 * 1024 then - 400 else 0)), p, buf)
      | Some i \<Rightarrow>
          let line = take i buf; rest = drop (i + CRLF_LEN) buf
          in if CHR '':'' \<in> set line
             then (None, p\<lparr>p_request := rq_addHeaderBytes (before CHR '':'' line) (behind CHR '':'' line) (p_request p)\<rparr>, rest)
             else end_of_headers cfg p rest)"

definition step_body :: "app_config \<Rightarrow> parser \<Rightarrow> string \<Rightarrow> turn" where
  "step_body cfg p buf =
     (let n = min (unat (p_remain p)) (length buf);
          p1 = (if n \<noteq> 0
                then p\<lparr>p_request := rq_appendToBody (clientMaxMemoryBodySize cfg) (take n buf) (p_request p),
                       p_remain := p_remain p - of_nat n\<rparr>
                else p);
          buf1 = drop n buf
      in if p_remain p1 = 0
         then (Some (Return 1), p1\<lparr>p_status := kGotAll, p_counter := Suc (p_counter p1)\<rparr>, buf1)
         else (Some (Return 0), p1, buf1))"

definition step_chunk_len :: "app_config \<Rightarrow> parser \<Rightarrow> string \<Rightarrow> turn" where
  "step_chunk_len cfg p buf =
     (case find_crlf buf of
        None \<Rightarrow> (Some (Return (if length buf > TRUNK_LEN_MAX_LEN + CRLF_LEN then - 400 else 0)), p, buf)
      | Some i \<Rightarrow>
          let n = of_int (strtol16 (take i buf)) :: size_t; p1 = p\<lparr>p_chunk := n\<rparr>
          in if n \<noteq> 0 then
               (if n + p_remain p1 > clientMaxBodySize cfg then (Some (Return (- 413)), p1, buf)
                else (None, p1\<lparr>p_status := kExpectChunkBody\<rparr>, drop (i + CRLF_LEN) buf))
             else (None, p1\<lparr>p_status := kExpectLastEmptyChunk\<rparr>, drop (i + CRLF_LEN) buf))"

text \<open>The comparison is made in \<^verbatim>\<open>size_t\<close>; passing it with fewer bytes than announced is undefined.\<close>

definition step_chunk_body :: "app_config \<Rightarrow> parser \<Rightarrow> string \<Rightarrow> turn" where
  "step_chunk_body cfg p buf =
     (let n = p_chunk p
      in if length buf < unat (n + of_nat CRLF_LEN) then (Some (Return 0), p, buf)
         else if length buf < unat n + CRLF_LEN then (Some Undefined, p, buf)
         else if buf ! unat n \<noteq> CHR 0x0D \<or> buf ! (unat n + 1) \<noteq> CHR 0x0A then (Some (Return (- 400)), p, buf)
         else (None,
               p\<lparr>p_request := rq_appendToBody (clientMaxMemoryBodySize cfg) (take (unat n) buf) (p_request p),
                 p_remain := p_remain p + n, p_chunk := 0, p_status := kExpectChunkLen\<rparr>,
               drop (unat n + CRLF_LEN) buf))"

definition step_last_chunk :: "parser \<Rightarrow> string \<Rightarrow> turn" where
  "step_last_chunk p buf =
     (if length buf < CRLF_LEN then (Some (Return 0), p, buf)
      else if buf ! 0 \<noteq> CHR 0x0D \<or> buf ! 1 \<noteq> CHR 0x0A then (Some (Return (- 400)), p, buf)
      else
        let r = p_request p;
            r1 = (if \<not> rq_isStreamMode r
                  then rq_removeHeaderBy ''transfer-encoding''
                         (rq_addHeader ''content-length'' (nat_to_dec (unat (rq_realContentLength r))) r)
                  else r)
        in (Some (Return 1), p\<lparr>p_request := r1, p_status := kGotAll, p_counter := Suc (p_counter p)\<rparr>,
            drop CRLF_LEN buf))"

fun parse_step :: "app_config \<Rightarrow> parser \<Rightarrow> string \<Rightarrow> turn" where
  "parse_step cfg p buf =
     (case p_status p of
        kExpectMethod \<Rightarrow> step_method p buf
      | kExpectRequestLine \<Rightarrow> step_request_line p buf
      | kExpectHeaders \<Rightarrow> step_headers cfg p buf
      | kExpectBody \<Rightarrow> step_body cfg p buf
      | kExpectChunkLen \<Rightarrow> step_chunk_len cfg p buf
      | kExpectChunkBody \<Rightarrow> step_chunk_body cfg p buf
      | kExpectLastEmptyChunk \<Rightarrow> step_last_chunk p buf
      | kGotAll \<Rightarrow> (Some (Return 1), p\<lparr>p_counter := Suc (p_counter p)\<rparr>, buf))"

lemmas step_defs =
  step_method_def step_request_line_def step_headers_def step_body_def step_chunk_len_def
  step_chunk_body_def step_last_chunk_def

section \<open>Every turn makes progress\<close>

lemma find_crlf_bound: "find_crlf buf = Some i \<Longrightarrow> i + 2 \<le> length buf"
  by (induction buf arbitrary: i rule: find_crlf.induct) (auto split: if_splits)

text \<open>A turn that continues has consumed bytes.\<close>

lemma parse_step_shorter:
  "parse_step cfg p buf = (None, p', buf') \<Longrightarrow> length buf' < length buf"
  by (cases "p_status p")
    (auto simp: step_defs end_of_headers_def Let_def CRLF_LEN_def behind_shorter
      split: if_splits option.splits prod.splits sum.splits dest: find_crlf_bound)

text \<open>\<^verbatim>\<open>parseRequest(buf)\<close>, the loop itself; it ends because every turn that continues consumes bytes.\<close>

function parseRequest :: "app_config \<Rightarrow> parser \<Rightarrow> string \<Rightarrow> verdict \<times> parser \<times> string" where
  "parseRequest cfg p buf =
     (case parse_step cfg p buf of
        (Some v, p', buf') \<Rightarrow> (v, p', buf')
      | (None, p', buf') \<Rightarrow> parseRequest cfg p' buf')"
  by pat_completeness auto
termination
  by (relation "measure (\<lambda>(cfg, p, buf). length buf)") (auto dest!: parse_step_shorter [OF sym] simp del: parse_step.simps)

declare parse_step.simps [simp del] parseRequest.simps [simp del]

section \<open>Parsing does not depend on how the bytes arrive\<close>

lemma find_crlf_append: "find_crlf buf = Some i \<Longrightarrow> find_crlf (buf @ ys) = Some i"
  by (induction buf arbitrary: i rule: find_crlf.induct) (auto split: if_splits)

lemma unat_minus_of_nat:
  assumes "k \<le> unat (w :: size_t)"
  shows "unat (w - of_nat k) = unat w - k"
proof -
  have "k < 2 ^ 64" using assms unsigned_less [of w, where ?'a = nat] by simp
  then have k: "unat (of_nat k :: size_t) = k" by (simp add: unat_of_nat)
  then have "of_nat k \<le> w" using assms by (simp add: word_le_nat_alt)
  then show ?thesis by (simp add: unat_sub k)
qed

lemma before_in: "c \<in> set buf \<Longrightarrow> before c (buf @ ys) = before c buf"
  by (simp add: before_def)

lemma behind_in: "c \<in> set buf \<Longrightarrow> behind c (buf @ ys) = behind c buf @ ys"
  by (induction buf) (auto simp: behind_def)

lemma rq_appendToBody_append:
  "rq_appendToBody m (a @ b) r = rq_appendToBody m b (rq_appendToBody m a r)"
  by (cases "rq_cacheFile r") (auto simp: rq_appendToBody_def Let_def)

text \<open>A turn that continues does the same with more bytes behind the ones it looked at.\<close>

lemma end_of_headers_more:
  "end_of_headers cfg p buf = (v, p', buf') \<Longrightarrow> end_of_headers cfg p (buf @ ys) = (v, p', buf' @ ys)"
  by (auto simp: end_of_headers_def Let_def split: if_splits sum.splits)

lemma end_of_headers_nonzero: "end_of_headers cfg p buf \<noteq> (Some (Return 0), p', buf')"
  by (auto simp: end_of_headers_def framing_def check_expect_def Let_def split: if_splits sum.splits option.splits)

lemma step_headers_more:
  assumes "step_headers cfg p buf = (v, p', buf')" and "find_crlf buf \<noteq> None"
  shows "step_headers cfg p (buf @ ys) = (v, p', buf' @ ys)"
proof -
  from assms(2) obtain i where i: "find_crlf buf = Some i" by blast
  have b: "i + CRLF_LEN \<le> length buf" using find_crlf_bound [OF i] by (simp add: CRLF_LEN_def)
  then have t: "i - length buf = 0" "i + CRLF_LEN - length buf = 0" by simp_all
  show ?thesis
    using assms(1) i find_crlf_append [OF i, of ys] end_of_headers_more
    by (auto simp: step_headers_def Let_def t split: if_splits)
qed

lemma parse_step_continue:
  assumes "parse_step cfg p buf = (None, p', buf')"
  shows "parse_step cfg p (buf @ ys) = (None, p', buf' @ ys)"
proof (cases "p_status p")
  case kExpectMethod
  with assms show ?thesis
    by (auto simp: parse_step.simps step_method_def before_in behind_in split: if_splits prod.splits)
next
  case kExpectRequestLine
  with assms show ?thesis
    by (auto simp: parse_step.simps step_request_line_def Let_def CRLF_LEN_def find_crlf_append
        split: if_splits prod.splits option.splits dest: find_crlf_bound)
next
  case kExpectHeaders
  with assms have "step_headers cfg p buf = (None, p', buf')" "find_crlf buf \<noteq> None"
    by (auto simp: parse_step.simps step_headers_def split: option.splits)
  from step_headers_more [OF this] kExpectHeaders show ?thesis by (simp add: parse_step.simps)
next
  case kExpectBody
  with assms show ?thesis by (auto simp: parse_step.simps step_body_def Let_def split: if_splits)
next
  case kExpectChunkLen
  with assms show ?thesis
    by (auto simp: parse_step.simps step_chunk_len_def Let_def CRLF_LEN_def find_crlf_append
        split: if_splits option.splits dest: find_crlf_bound)
next
  case kExpectChunkBody
  with assms show ?thesis
    by (auto simp: parse_step.simps step_chunk_body_def Let_def CRLF_LEN_def nth_append split: if_splits)
next
  case kExpectLastEmptyChunk
  with assms show ?thesis by (auto simp: parse_step.simps step_last_chunk_def Let_def split: if_splits)
next
  case kGotAll
  with assms show ?thesis by (simp add: parse_step.simps)
qed

text \<open>A turn that completes a request leaves the bytes behind it alone.\<close>

lemma step_body_complete:
  assumes "step_body cfg p buf = (Some (Return 1), p', buf')"
  shows "step_body cfg p (buf @ ys) = (Some (Return 1), p', buf' @ ys)"
proof -
  have le: "unat (p_remain p) \<le> length buf"
  proof (rule ccontr)
    assume "\<not> ?thesis"
    then have lt: "length buf < unat (p_remain p)" by simp
    have "unat (p_remain p - of_nat (length buf)) = unat (p_remain p) - length buf"
      using lt by (simp add: unat_minus_of_nat less_imp_le)
    then have "p_remain p - of_nat (length buf) \<noteq> 0" using lt by (auto simp: unat_eq_zero [symmetric])
    with assms lt show False by (auto simp: step_body_def Let_def min_def split: if_splits)
  qed
  then have "min (unat (p_remain p)) (length (buf @ ys)) = unat (p_remain p)"
    "min (unat (p_remain p)) (length buf) = unat (p_remain p)" by simp_all
  with assms le show ?thesis by (auto simp: step_body_def Let_def split: if_splits)
qed

lemma parse_step_complete:
  assumes "parse_step cfg p buf = (Some (Return k), p', buf')" and "0 < k"
  shows "parse_step cfg p (buf @ ys) = (Some (Return k), p', buf' @ ys)"
proof (cases "p_status p")
  case kExpectHeaders
  with assms have "step_headers cfg p buf = (Some (Return k), p', buf')" "find_crlf buf \<noteq> None"
    by (auto simp: parse_step.simps step_headers_def split: option.splits if_splits)
  from step_headers_more [OF this] kExpectHeaders show ?thesis by (simp add: parse_step.simps)
next
  case kExpectBody
  then have "step_body cfg p buf = (Some (Return k), p', buf')" using assms by (simp add: parse_step.simps)
  moreover from this have "k = 1" using assms(2) by (auto simp: step_body_def Let_def split: if_splits)
  ultimately show ?thesis using kExpectBody step_body_complete by (simp add: parse_step.simps)
next
  case kExpectLastEmptyChunk
  with assms show ?thesis
    by (auto simp: parse_step.simps step_last_chunk_def Let_def CRLF_LEN_def nth_append split: if_splits)
qed (use assms in \<open>auto simp: parse_step.simps step_defs Let_def split: if_splits option.splits prod.splits\<close>)

text \<open>A turn that asks for more bytes has consumed nothing, or is in the middle of a body.\<close>

lemma step_body_resume:
  assumes "step_body cfg p buf = (Some (Return 0), p', buf')"
  shows "step_body cfg p (buf @ ys) = step_body cfg p' (buf' @ ys) \<and> p_status p' = p_status p"
proof -
  let ?m = "clientMaxMemoryBodySize cfg"
  have lt: "length buf < unat (p_remain p)"
  proof (rule ccontr)
    assume "\<not> ?thesis"
    then have "min (unat (p_remain p)) (length buf) = unat (p_remain p)" by simp
    with assms show False by (cases "p_remain p = 0") (simp_all add: step_body_def Let_def unat_gt_0)
  qed
  have u: "unat (p_remain p - of_nat (length buf)) = unat (p_remain p) - length buf"
    using lt by (simp add: unat_minus_of_nat)
  show ?thesis
  proof (cases "buf = []")
    case True
    with assms lt show ?thesis by (auto simp: step_body_def Let_def unat_eq_zero split: if_splits)
  next
    case False
    then have p': "p' = p\<lparr>p_request := rq_appendToBody ?m buf (p_request p), p_remain := p_remain p - of_nat (length buf)\<rparr>"
      and buf': "buf' = []"
      using assms lt by (auto simp: step_body_def Let_def split: if_splits)
    define n where "n = min (unat (p_remain p) - length buf) (length ys)"
    have n: "min (unat (p_remain p)) (length buf + length ys) = length buf + n"
      "min (unat (p_remain p) - length buf) (length ys) = n" using lt by (auto simp: n_def)
    have r: "p_remain p - of_nat (length buf + n) = p_remain p - of_nat (length buf) - of_nat n" by simp
    show ?thesis
    proof (cases "n = 0")
      case True
      with False show ?thesis by (simp add: step_body_def Let_def n p' buf' u)
    next
      case nz: False
      have "take (length buf + n) (buf @ ys) = buf @ take n ys" "drop (length buf + n) (buf @ ys) = drop n ys" by simp_all
      with False nz show ?thesis
        by (simp add: step_body_def Let_def n p' buf' u rq_appendToBody_append r del: take_append drop_append of_nat_add)
    qed
  qed
qed

lemma parse_step_wait:
  assumes "parse_step cfg p buf = (Some (Return 0), p', buf')"
  shows "parse_step cfg p (buf @ ys) = parse_step cfg p' (buf' @ ys)"
proof (cases "p_status p = kExpectBody")
  case True
  with assms step_body_resume [of cfg p buf p' buf' ys] show ?thesis by (simp add: parse_step.simps)
next
  case False
  then have "p' = p \<and> buf' = buf"
    using assms end_of_headers_nonzero
    by (cases "p_status p") (auto simp: parse_step.simps step_defs Let_def split: if_splits option.splits prod.splits)
  then show ?thesis by simp
qed

text \<open>The same for the whole loop.\<close>

lemma parseRequest_wait:
  "parseRequest cfg p buf = (Return 0, p', buf') \<Longrightarrow> parseRequest cfg p (buf @ ys) = parseRequest cfg p' (buf' @ ys)"
proof (induction cfg p buf rule: parseRequest.induct)
  case (1 cfg p buf)
  obtain v p1 b1 where st: "parse_step cfg p buf = (v, p1, b1)" by (metis prod_cases3)
  show ?case
  proof (cases v)
    case None
    with st 1 have "parseRequest cfg p1 (b1 @ ys) = parseRequest cfg p' (buf' @ ys)"
      by (simp add: parseRequest.simps [of cfg p buf])
    moreover have "parse_step cfg p (buf @ ys) = (None, p1, b1 @ ys)"
      using parse_step_continue st None by simp
    ultimately show ?thesis by (simp add: parseRequest.simps [of cfg p "buf @ ys"])
  next
    case (Some w)
    with st 1 have "parse_step cfg p buf = (Some (Return 0), p', buf')" by (simp add: parseRequest.simps [of cfg p buf])
    from parse_step_wait [OF this] show ?thesis
      by (simp add: parseRequest.simps [of cfg p "buf @ ys"] parseRequest.simps [of cfg p' "buf' @ ys"])
  qed
qed

lemma parseRequest_complete:
  "parseRequest cfg p buf = (Return k, p', buf') \<Longrightarrow> 0 < k \<Longrightarrow> parseRequest cfg p (buf @ ys) = (Return k, p', buf' @ ys)"
proof (induction cfg p buf rule: parseRequest.induct)
  case (1 cfg p buf)
  obtain v p1 b1 where st: "parse_step cfg p buf = (v, p1, b1)" by (metis prod_cases3)
  show ?case
  proof (cases v)
    case None
    with st 1 have "parseRequest cfg p1 (b1 @ ys) = (Return k, p', buf' @ ys)"
      by (simp add: parseRequest.simps [of cfg p buf])
    moreover have "parse_step cfg p (buf @ ys) = (None, p1, b1 @ ys)"
      using parse_step_continue st None by simp
    ultimately show ?thesis by (simp add: parseRequest.simps [of cfg p "buf @ ys"])
  next
    case (Some w)
    with st 1 have "parse_step cfg p buf = (Some (Return k), p', buf')" by (simp add: parseRequest.simps [of cfg p buf])
    from parse_step_complete [OF this "1.prems"(2)] show ?thesis
      by (simp add: parseRequest.simps [of cfg p "buf @ ys"])
  qed
qed

definition example_config :: app_config where
  "example_config = \<lparr>clientMaxBodySize = 1048576, clientMaxMemoryBodySize = 65536, requestStreamEnabled = False,
     connAlive = True, continueResponse = []\<rparr>"

section \<open>The body limit\<close>

text \<open>The bytes of the body received so far, wherever they are kept.\<close>

definition rq_stored :: "request \<Rightarrow> string" where
  "rq_stored r = (case rq_cacheFile r of Some f \<Rightarrow> f | None \<Rightarrow> rq_content r)"

lemma rq_stored_append [simp]: "rq_stored (rq_appendToBody m s r) = rq_stored r @ s"
  by (auto simp: rq_stored_def rq_appendToBody_def Let_def split: option.split)

lemma rq_stored_reserve [simp]: "rq_stored (rq_reserveBodySize m n r) = rq_stored r"
  by (auto simp: rq_stored_def rq_reserveBodySize_def split: option.split)

lemma rq_stored_others [simp]:
  "rq_stored (snd (rq_setMethodBytes m r)) = rq_stored r" "rq_stored (rq_addHeaderBytes f v r) = rq_stored r"
  "rq_stored (snd (processRequestLine line r)) = rq_stored r" "rq_stored (r\<lparr>rq_streamStatus := st\<rparr>) = rq_stored r"
  "rq_stored (r\<lparr>rq_contentLengthHeaderValue := n\<rparr>) = rq_stored r"
  "rq_stored (rq_removeHeaderBy k r) = rq_stored r" "rq_stored (rq_addHeader k v r) = rq_stored r"
  by (cases "rq_cacheFile r"; simp add: rq_stored_def rq_setMethodBytes_def rq_addHeaderBytes_def processRequestLine_def Let_def
      rq_setPathBytes_def rq_setPath_def rq_setQuery_def rq_setVersion_def rq_removeHeaderBy_def rq_addHeader_def)+

definition body_inv :: "app_config \<Rightarrow> parser \<Rightarrow> bool" where
  "body_inv cfg p \<longleftrightarrow>
     (let stored = length (rq_stored (p_request p)); M = unat (clientMaxBodySize cfg); remain = unat (p_remain p)
      in case p_status p of
           kExpectMethod \<Rightarrow> stored = 0 \<and> remain = 0
         | kExpectRequestLine \<Rightarrow> stored = 0 \<and> remain = 0
         | kExpectHeaders \<Rightarrow> stored = 0 \<and> remain = 0
         | kExpectBody \<Rightarrow> stored + remain \<le> M
         | kExpectChunkLen \<Rightarrow> stored = remain \<and> remain \<le> M
         | kExpectChunkBody \<Rightarrow> stored = remain \<and> remain + unat (p_chunk p) \<le> M
         | kExpectLastEmptyChunk \<Rightarrow> stored = remain \<and> remain \<le> M
         | kGotAll \<Rightarrow> stored \<le> M)"

lemma strtol16_range: "CHR ''-'' \<notin> set s \<Longrightarrow> 0 \<le> strtol16 s \<and> strtol16 s < 2 ^ 63"
proof -
  assume "CHR ''-'' \<notin> set s"
  then have m: "CHR ''-'' \<notin> set (ltrim (c_str s))"
    by (auto simp: c_str_def dest!: set_dropWhileD set_takeWhileD)
  then have "\<not> fst (signed_rest (c_str s))"
    by (auto simp: signed_rest_def split: list.split)
  then show ?thesis
    by (auto simp: strtol16_def Let_def split: prod.splits)
qed

lemma unat_chunk: "CHR ''-'' \<notin> set s \<Longrightarrow> unat (of_int (strtol16 s) :: size_t) < 2 ^ 63"
proof -
  assume "CHR ''-'' \<notin> set s"
  then obtain n where "strtol16 s = int n" "n < 2 ^ 63"
    using strtol16_range [of s] by (metis nonneg_int_cases of_nat_less_iff of_nat_numeral of_nat_power)
  then show ?thesis by (simp add: unat_of_nat)
qed

definition small_limit :: "app_config \<Rightarrow> bool" where
  "small_limit cfg \<longleftrightarrow> unat (clientMaxBodySize cfg) < 2 ^ 62"

lemma unat_add_small: "unat a < 2 ^ 63 \<Longrightarrow> unat b < 2 ^ 62 \<Longrightarrow> unat (a + b :: size_t) = unat a + unat b"
  by (simp add: unat_word_ariths)

text \<open>What one turn does to the invariant.\<close>

definition turn_ok :: "app_config \<Rightarrow> turn \<Rightarrow> bool" where
  "turn_ok cfg t =
     (case t of (v, p', buf') \<Rightarrow>
        v \<noteq> Some Undefined \<and> (v = None \<longrightarrow> body_inv cfg p')
        \<and> length (rq_stored (p_request p')) \<le> unat (clientMaxBodySize cfg))"

lemma framing_ok:
  "framing p = Inr p1 \<Longrightarrow> rq_stored (p_request p) = [] \<Longrightarrow> p_remain p = 0 \<Longrightarrow>
    rq_stored (p_request p1) = [] \<and> p_status p1 \<in> {kGotAll, kExpectBody, kExpectChunkLen} \<and> (p_status p1 = kExpectChunkLen \<longrightarrow> p_remain p1 = 0)"
  by (auto simp: framing_def Let_def split: if_splits option.splits)

lemma check_expect_ok:
  "check_expect cfg p = Inr p1 \<Longrightarrow> p_request p1 = p_request p \<and> p_status p1 = p_status p \<and> p_remain p1 = p_remain p"
  by (auto simp: check_expect_def Let_def split: if_splits)

lemma end_of_headers_ok:
  assumes "rq_stored (p_request p) = []" and "p_remain p = 0"
  shows "turn_ok cfg (end_of_headers cfg p buf)"
proof (cases "framing p")
  case (Inl e)
  then show ?thesis using assms by (simp add: turn_ok_def end_of_headers_def)
next
  case (Inr p1)
  note f = framing_ok [OF Inr assms]
  show ?thesis
  proof (cases "p_remain p1 > clientMaxBodySize cfg")
    case True
    then show ?thesis using Inr f by (simp add: turn_ok_def end_of_headers_def)
  next
    case False
    then have le: "unat (p_remain p1) \<le> unat (clientMaxBodySize cfg)" by (simp add: word_le_nat_alt not_less)
    show ?thesis
    proof (cases "check_expect cfg p1")
      case (Inl e)
      then show ?thesis using Inr f False by (simp add: turn_ok_def end_of_headers_def)
    next
      case r: (Inr p2)
      from check_expect_ok [OF r] f le False Inr r show ?thesis
        by (auto simp: turn_ok_def end_of_headers_def Let_def body_inv_def)
    qed
  qed
qed

text \<open>The line at the front of the buffer, if it is complete, has no minus sign.\<close>

definition unsigned_line :: "string \<Rightarrow> bool" where
  "unsigned_line buf = (case find_crlf buf of None \<Rightarrow> True | Some i \<Rightarrow> CHR ''-'' \<notin> set (take i buf))"

lemma step_chunk_len_ok:
  assumes "body_inv cfg p" and "p_status p = kExpectChunkLen" and "small_limit cfg"
    and "unsigned_line buf"
  shows "turn_ok cfg (step_chunk_len cfg p buf)"
proof (cases "find_crlf buf")
  case None
  then show ?thesis using assms by (auto simp: turn_ok_def step_chunk_len_def body_inv_def Let_def)
next
  case (Some i)
  let ?n = "of_int (strtol16 (take i buf)) :: size_t"
  have "CHR ''-'' \<notin> set (take i buf)" using assms(4) Some by (simp add: unsigned_line_def)
  then have "unat ?n < 2 ^ 63" by (rule unat_chunk)
  moreover have "unat (p_remain p) < 2 ^ 62" using assms by (auto simp: body_inv_def small_limit_def Let_def)
  ultimately have "unat (?n + p_remain p) = unat ?n + unat (p_remain p)" by (rule unat_add_small)
  then show ?thesis
    using Some assms by (auto simp: turn_ok_def step_chunk_len_def body_inv_def Let_def word_le_nat_alt not_less)
qed

lemma step_chunk_body_ok:
  assumes "body_inv cfg p" and "p_status p = kExpectChunkBody" and "small_limit cfg"
  shows "turn_ok cfg (step_chunk_body cfg p buf)"
proof -
  have le: "unat (p_remain p) + unat (p_chunk p) < 2 ^ 62" "length (rq_stored (p_request p)) = unat (p_remain p)"
    using assms by (auto simp: body_inv_def small_limit_def Let_def)
  then have a: "unat (p_chunk p + of_nat CRLF_LEN) = unat (p_chunk p) + CRLF_LEN"
    "unat (p_remain p + p_chunk p) = unat (p_remain p) + unat (p_chunk p)"
    by (simp_all add: unat_word_ariths CRLF_LEN_def)
  show ?thesis
    using assms le by (auto simp: turn_ok_def step_chunk_body_def body_inv_def Let_def a not_less)
qed

lemma step_body_ok:
  assumes "body_inv cfg p" and "p_status p = kExpectBody"
  shows "turn_ok cfg (step_body cfg p buf)"
  using assms by (auto simp: turn_ok_def step_body_def body_inv_def Let_def)

lemma turn_ok_step:
  assumes "body_inv cfg p" and "small_limit cfg" and "p_status p = kExpectChunkLen \<longrightarrow> unsigned_line buf"
  shows "turn_ok cfg (parse_step cfg p buf)"
proof (cases "p_status p")
  case kExpectMethod
  then show ?thesis using assms(1) rq_stored_others(1) [of "before CHR '' '' buf" "p_request p"]
    by (auto simp: parse_step.simps turn_ok_def step_method_def body_inv_def Let_def simp del: rq_stored_others split: prod.splits)
next
  case kExpectRequestLine
  then have st: "rq_stored (p_request p) = []" "p_remain p = 0" using assms(1) by (simp_all add: body_inv_def unat_eq_zero)
  show ?thesis
  proof (cases "find_crlf buf")
    case None
    with kExpectRequestLine st show ?thesis by (simp add: parse_step.simps step_request_line_def turn_ok_def)
  next
    case (Some i)
    obtain ok r where pr: "processRequestLine (take i buf) (p_request p) = (ok, r)" by fastforce
    then have "rq_stored r = []" using rq_stored_others(3) [of "take i buf" "p_request p"] st by simp
    with kExpectRequestLine Some pr st show ?thesis
      by (simp add: parse_step.simps step_request_line_def turn_ok_def body_inv_def)
  qed
next
  case kExpectHeaders
  then show ?thesis using assms(1) end_of_headers_ok [of p]
    by (auto simp: parse_step.simps step_headers_def body_inv_def Let_def unat_eq_zero turn_ok_def [of cfg "(_, _)"]
        split: option.splits)
next
  case kExpectBody
  then show ?thesis using step_body_ok [OF assms(1)] by (simp add: parse_step.simps)
next
  case kExpectChunkLen
  then show ?thesis using step_chunk_len_ok [OF assms(1) _ assms(2)] assms(3) by (simp add: parse_step.simps)
next
  case kExpectChunkBody
  then show ?thesis using step_chunk_body_ok [OF assms(1) _ assms(2)] by (simp add: parse_step.simps)
next
  case kExpectLastEmptyChunk
  then show ?thesis using assms(1) by (auto simp: parse_step.simps turn_ok_def step_last_chunk_def body_inv_def Let_def)
next
  case kGotAll
  then show ?thesis using assms(1) by (auto simp: parse_step.simps turn_ok_def body_inv_def Let_def)
qed

text \<open>All chunk length lines that a run of the parser meets have no minus sign.\<close>

function unsigned_chunks :: "app_config \<Rightarrow> parser \<Rightarrow> string \<Rightarrow> bool" where
  "unsigned_chunks cfg p buf \<longleftrightarrow>
     (p_status p = kExpectChunkLen \<longrightarrow> unsigned_line buf)
     \<and> (case parse_step cfg p buf of (None, p', buf') \<Rightarrow> unsigned_chunks cfg p' buf' | _ \<Rightarrow> True)"
  by pat_completeness auto
termination
  by (relation "measure (\<lambda>(cfg, p, buf). length buf)") (auto dest!: parse_step_shorter [OF sym])

declare unsigned_chunks.simps [simp del]

lemma parseRequest_body_limit:
  "small_limit cfg \<Longrightarrow> body_inv cfg p \<Longrightarrow> unsigned_chunks cfg p buf \<Longrightarrow> parseRequest cfg p buf = (v, p', buf') \<Longrightarrow>
    v \<noteq> Undefined \<and> length (rq_stored (p_request p')) \<le> unat (clientMaxBodySize cfg)"
proof (induction cfg p buf rule: parseRequest.induct)
  case (1 cfg p buf)
  obtain w p1 b1 where st: "parse_step cfg p buf = (w, p1, b1)" by (metis prod_cases3)
  have "p_status p = kExpectChunkLen \<longrightarrow> unsigned_line buf"
    using "1.prems"(3) by (simp add: unsigned_chunks.simps [of cfg p buf])
  from turn_ok_step [OF "1.prems"(2,1) this] st have t: "turn_ok cfg (w, p1, b1)" by simp
  show ?case
  proof (cases w)
    case None
    with 1 st t show ?thesis
      by (simp add: turn_ok_def parseRequest.simps [of cfg p buf] unsigned_chunks.simps [of cfg p buf])
  next
    case (Some u)
    with "1.prems"(4) st t show ?thesis by (auto simp: turn_ok_def parseRequest.simps [of cfg p buf])
  qed
qed

text \<open>(C21) The body limit holds.  As long as no chunk length line of the request carries a minus sign, and
  the configured limit is below \<open>2\<^sup>6\<^sup>2\<close> bytes, the parser never reads outside its buffer, and the body it
  stores never exceeds \<^verbatim>\<open>clientMaxBodySize\<close>: neither a declared length nor any sequence of chunks gets past
  the check.\<close>
theorem body_limit_enforced:
  assumes "small_limit cfg" and "unsigned_chunks cfg newParser buf" and "parseRequest cfg newParser buf = (v, p', buf')"
  shows "v \<noteq> Undefined \<and> length (rq_stored (p_request p')) \<le> unat (clientMaxBodySize cfg)"
  by (rule parseRequest_body_limit [OF assms(1) _ assms(2,3)])
    (simp add: body_inv_def newParser_def rq_stored_def HttpRequestImpl_def)

definition example_chunked :: "string \<Rightarrow> string" where
  "example_chunked tail_chunks = ''POST / HTTP/1.1'' @ CRLF @ ''transfer-encoding: chunked'' @ CRLF @ CRLF
     @ ''2'' @ CRLF @ ''ab'' @ CRLF @ tail_chunks"

theorem body_limit_enforced_witness:
  "fst (parseRequest example_config newParser (example_chunked (''0'' @ CRLF @ CRLF))) \<noteq> Undefined
   \<and> length (rq_stored (p_request (fst (snd (parseRequest example_config newParser (example_chunked (''0'' @ CRLF @ CRLF)))))))
     \<le> unat (clientMaxBodySize example_config)"
proof -
  have "small_limit example_config" "unsigned_chunks example_config newParser (example_chunked (''0'' @ CRLF @ CRLF))"
    by code_simp+
  then show ?thesis using body_limit_enforced by (metis prod.collapse)
qed


end
