(* ===== verification/HttpConnection.thy ===== *)
theory HttpConnection
  imports HttpRequestParser
begin

text \<open>
  \<^verbatim>\<open>HttpServer::onMessage\<close> (\<^verbatim>\<open>src/src/drogon/lib/src/HttpServer.cc\<close>): what a plain HTTP connection does
  with the bytes that arrive, from the receive buffer to the requests handed to \<^verbatim>\<open>onRequests\<close>. The model
  keeps the requests that were handed over and the error responses in the order they were sent. Request
  streaming is off in this program, so \<^verbatim>\<open>streamFinish\<close> and \<^verbatim>\<open>streamError\<close> do not occur.
\<close>

record http_conn =
  hc_parser :: parser
  hc_buf :: string
  hc_stop :: bool                  \<comment> \<open>\<^verbatim>\<open>isStop()\<close>\<close>
  hc_ready :: "request list"       \<comment> \<open>\<^verbatim>\<open>getRequestBuffer()\<close>\<close>
  hc_handled :: "request list"     \<comment> \<open>requests passed to \<^verbatim>\<open>onRequests\<close>, in order\<close>
  hc_wire :: "string list"         \<comment> \<open>error responses sent\<close>

definition newHttpConn :: http_conn where
  "newHttpConn =
     \<lparr>hc_parser = newParser, hc_buf = [], hc_stop = False, hc_ready = [], hc_handled = [], hc_wire = []\<rparr>"

definition errorResponse :: "int \<Rightarrow> string" where
  "errorResponse status =
     ''HTTP/1.1 '' @ int_to_dec status @ '' '' @ statusCodeToString status @ CRLF @ ''Connection: close'' @ CRLF @ CRLF"

text \<open>How the loop ends: it is done, it returned early, or the parser left its buffer.\<close>

datatype loop_end = Finished | Returned | Crashed

lemma parseRequest_length:
  "parseRequest cfg p buf = (v, p', buf') \<Longrightarrow> length buf' \<le> length buf"
proof (induction cfg p buf rule: parseRequest.induct)
  case (1 cfg p buf)
  obtain w p1 b1 where st: "parse_step cfg p buf = (w, p1, b1)" by (metis prod_cases3)
  show ?case
  proof (cases w)
    case None
    from 1 st None have "length buf' \<le> length b1" by (simp add: parseRequest.simps [of cfg p buf])
    with parse_step_shorter [of cfg p buf p1 b1] st None show ?thesis by simp
  next
    case (Some u)
    have "length b1 \<le> length buf"
      using st Some by (cases "p_status p")
        (auto simp: parse_step.simps step_defs end_of_headers_def Let_def split: if_splits option.splits prod.splits sum.splits)
    with 1 st Some show ?thesis by (simp add: parseRequest.simps [of cfg p buf])
  qed
qed

lemma parseRequest_consumes:
  assumes "parseRequest cfg p buf = (Return k, p', buf')" and "0 < k" and "p_status p = kExpectMethod \<or> \<not> (k = 1 \<or> k = 2)"
  shows "length buf' < length buf"
proof -
  obtain w p1 b1 where st: "parse_step cfg p buf = (w, p1, b1)" by (metis prod_cases3)
  show ?thesis
  proof (cases w)
    case None
    with st assms have "parseRequest cfg p1 b1 = (Return k, p', buf')" by (simp add: parseRequest.simps [of cfg p buf])
    with parseRequest_length parse_step_shorter [of cfg p buf p1 b1] st None show ?thesis by fastforce
  next
    case (Some u)
    with st assms have "parse_step cfg p buf = (Some (Return k), p', buf')" by (simp add: parseRequest.simps [of cfg p buf])
    then show ?thesis
      using assms(2,3) by (cases "p_status p")
        (auto simp: parse_step.simps step_defs end_of_headers_def Let_def CRLF_LEN_def
          split: if_splits option.splits prod.splits sum.splits dest: find_crlf_bound)
  qed
qed

lemma loop_decreases:
  assumes pr: "parseRequest cfg p buf = (Return k, p', buf')" and k: "\<not> k < 0" "k \<noteq> 0"
  shows "length buf' < length buf \<or> length buf' = length buf \<and> (k = 1 \<or> k = 2) \<and> p_status p \<noteq> kExpectMethod"
proof (cases "p_status p = kExpectMethod \<or> \<not> (k = 1 \<or> k = 2)")
  case True
  with parseRequest_consumes [OF pr] k show ?thesis by simp
next
  case False
  then show ?thesis using parseRequest_length [OF pr] by auto
qed

text \<open>A positive verdict: the request is kept unless it was kept before, and a complete one resets the parser.\<close>

definition take_request :: "int \<Rightarrow> parser \<Rightarrow> string \<Rightarrow> http_conn \<Rightarrow> http_conn" where
  "take_request k p b c =
     c\<lparr>hc_parser := (if k = 1 \<or> k = 2 then parser_reset p else p), hc_buf := b,
       hc_ready := hc_ready c @ (if 2 \<le> k \<or> k = 1 \<and> \<not> rq_isStreamMode (p_request p) then [p_request p] else [])\<rparr>"

lemma take_request_simps [simp]:
  "hc_buf (take_request k p b c) = b" "hc_handled (take_request k p b c) = hc_handled c"
  "hc_parser (take_request k p b c) = (if k = 1 \<or> k = 2 then parser_reset p else p)"
  by (simp_all add: take_request_def)

lemma take_request_frame:
  "take_request k p b (c\<lparr>hc_ready := xs @ hc_ready c, hc_handled := hs\<rparr>) =
     (take_request k p b c)\<lparr>hc_ready := xs @ hc_ready (take_request k p b c), hc_handled := hs\<rparr>"
  "take_request k p (b @ ys) (c\<lparr>hc_buf := z\<rparr>) = (take_request k p b c)\<lparr>hc_buf := b @ ys\<rparr>"
  by (cases c; simp add: take_request_def)+

lemma take_request_overwrites:
  "take_request k p b (c\<lparr>hc_buf := z\<rparr>) = take_request k p b c"
  "take_request k p b (c\<lparr>hc_parser := q\<rparr>) = take_request k p b c"
  by (simp_all add: take_request_def)

text \<open>
  The \<^verbatim>\<open>while\<close> loop of \<^verbatim>\<open>onMessage\<close>. It ends because a complete request has consumed bytes, or the parser
  was in the middle of one and is reset.
\<close>

function message_loop :: "app_config \<Rightarrow> http_conn \<Rightarrow> loop_end \<times> http_conn" where
  "message_loop cfg c =
     (if hc_buf c = [] then (Finished, c)
      else if hc_stop c then (Returned, c\<lparr>hc_buf := []\<rparr>)
      else
        case parseRequest cfg (hc_parser c) (hc_buf c) of
          (Undefined, p, b) \<Rightarrow> (Crashed, c\<lparr>hc_parser := p, hc_buf := b\<rparr>)
        | (Return k, p, b) \<Rightarrow>
            if k < 0 then
              (Returned, c\<lparr>hc_parser := p, hc_buf := [], hc_stop := True,
                 hc_wire := hc_wire c @ (if k \<noteq> - 1 then [errorResponse (- k)] else [])\<rparr>)
            else if k = 0 then (Finished, c\<lparr>hc_parser := p, hc_buf := b\<rparr>)
            else message_loop cfg (take_request k p b c))"
  by pat_completeness auto
termination
  by (relation "measures [\<lambda>(cfg, c). length (hc_buf c), \<lambda>(cfg, c). if p_status (hc_parser c) = kExpectMethod then 0 else 1]")
    (auto dest!: loop_decreases [OF sym] simp: parser_reset_def)

declare message_loop.simps [simp del]

definition onMessage :: "app_config \<Rightarrow> http_conn \<Rightarrow> http_conn" where
  "onMessage cfg c =
     (case message_loop cfg c of
        (Finished, c') \<Rightarrow> if hc_ready c' \<noteq> [] then c'\<lparr>hc_handled := hc_handled c' @ hc_ready c', hc_ready := []\<rparr> else c'
      | (_, c') \<Rightarrow> c')"

text \<open>Bytes arrive: they are appended to the buffer and \<^verbatim>\<open>onMessage\<close> runs.\<close>

definition receive :: "app_config \<Rightarrow> string \<Rightarrow> http_conn \<Rightarrow> http_conn" where
  "receive cfg data c = onMessage cfg (c\<lparr>hc_buf := hc_buf c @ data\<rparr>)"

section \<open>The requests do not depend on how the bytes arrive\<close>

text \<open>The loop only appends to the ready requests and does not look at them or at the handled ones.\<close>

lemma message_loop_frame:
  "message_loop cfg c = (e, c') \<Longrightarrow>
    message_loop cfg (c\<lparr>hc_ready := xs @ hc_ready c, hc_handled := hs\<rparr>) = (e, c'\<lparr>hc_ready := xs @ hc_ready c', hc_handled := hs\<rparr>)"
proof (induction cfg c arbitrary: e c' rule: message_loop.induct)
  case (1 cfg c)
  obtain v p b where pr: "parseRequest cfg (hc_parser c) (hc_buf c) = (v, p, b)" by (metis prod_cases3)
  note unf = message_loop.simps [of cfg c] message_loop.simps [of cfg "c\<lparr>hc_ready := xs @ hc_ready c, hc_handled := hs\<rparr>"]
  show ?case
  proof (cases "hc_buf c = [] \<or> hc_stop c")
    case True
    with "1.prems" show ?thesis by (auto simp: unf split: if_splits)
  next
    case ok: False
    show ?thesis
    proof (cases v)
      case Undefined
      with ok "1.prems" pr show ?thesis by (auto simp: unf)
    next
      case (Return k)
      show ?thesis
      proof (cases "k \<le> 0")
        case True
        with ok "1.prems" pr Return show ?thesis by (auto simp: unf split: if_splits)
      next
        case False
        with ok pr Return have "message_loop cfg c = message_loop cfg (take_request k p b c)"
          by (simp add: unf(1))
        with "1.IH" [OF _ _ pr [symmetric] Return refl] "1.prems" ok pr Return False show ?thesis
          by (simp add: unf(2) take_request_frame)
      qed
    qed
  qed
qed

lemma message_loop_more:
  "message_loop cfg c = (Finished, c1) \<Longrightarrow>
    message_loop cfg (c\<lparr>hc_buf := hc_buf c @ ys\<rparr>) = message_loop cfg (c1\<lparr>hc_buf := hc_buf c1 @ ys\<rparr>)"
proof (induction cfg c arbitrary: c1 rule: message_loop.induct)
  case (1 cfg c)
  show ?case
  proof (cases "hc_buf c = []")
    case True
    with "1.prems" show ?thesis by (simp add: message_loop.simps [of cfg c])
  next
    case ne: False
    obtain v p b where pr: "parseRequest cfg (hc_parser c) (hc_buf c) = (v, p, b)" by (metis prod_cases3)
    from ne "1.prems" have ns: "\<not> hc_stop c" by (auto simp: message_loop.simps [of cfg c])
    from ne ns pr "1.prems" obtain k where v: "v = Return k" "0 \<le> k"
      by (cases v) (auto simp: message_loop.simps [of cfg c] split: if_splits)
    note unf = message_loop.simps [of cfg c] message_loop.simps [of cfg "c\<lparr>hc_buf := hc_buf c @ ys\<rparr>"]
    show ?thesis
    proof (cases "k = 0")
      case True
      with ne ns pr v "1.prems" have c1: "c1 = c\<lparr>hc_parser := p, hc_buf := b\<rparr>" by (simp add: unf)
      have w: "parseRequest cfg (hc_parser c) (hc_buf c @ ys) = parseRequest cfg p (b @ ys)"
        using parseRequest_wait pr v True by simp
      show ?thesis
      proof (cases "b @ ys = []")
        case True
        with c1 "1.prems" show ?thesis by (simp add: message_loop.simps [of cfg "c\<lparr>hc_parser := p, hc_buf := []\<rparr>"])
      next
        case False
        obtain u p2 b2 where "parseRequest cfg p (b @ ys) = (u, p2, b2)" by (metis prod_cases3)
        with False ne ns w c1 show ?thesis
          by (cases u) (auto simp: unf(2) take_request_overwrites message_loop.simps [of cfg "c\<lparr>hc_parser := p, hc_buf := b @ ys\<rparr>"])
      qed
    next
      case False
      with v have k: "0 < k" by simp
      have w: "parseRequest cfg (hc_parser c) (hc_buf c @ ys) = (Return k, p, b @ ys)"
        using parseRequest_complete pr v k by simp
      show ?thesis
        using "1.IH" [OF ne ns pr [symmetric] v(1) refl, of c1] "1.prems" ne ns pr v k w by (simp add: unf take_request_frame)
    qed
  qed
qed

text \<open>A connection between two calls: no request is waiting to be handed over.\<close>

definition quiet :: "http_conn \<Rightarrow> bool" where
  "quiet c \<longleftrightarrow> hc_ready c = []"

lemma message_loop_handled: "message_loop cfg c = (e, c') \<Longrightarrow> hc_handled c' = hc_handled c"
  using message_loop_frame [of cfg c e c', where xs = "[]" and hs = "hc_handled c"] by (cases c') (simp add: http_conn.defs)

lemma receive_append:
  assumes "quiet c" and first: "fst (message_loop cfg (c\<lparr>hc_buf := hc_buf c @ xs\<rparr>)) = Finished"
    and second: "fst (message_loop cfg ((receive cfg xs c)\<lparr>hc_buf := hc_buf (receive cfg xs c) @ ys\<rparr>)) = Finished"
  shows "receive cfg (xs @ ys) c = receive cfg ys (receive cfg xs c) \<and> quiet (receive cfg xs c)
    \<and> fst (message_loop cfg (c\<lparr>hc_buf := hc_buf c @ xs @ ys\<rparr>)) = Finished"
proof -
  obtain c1 where c1: "message_loop cfg (c\<lparr>hc_buf := hc_buf c @ xs\<rparr>) = (Finished, c1)"
    using first by (metis prod.collapse)
  let ?c1 = "c1\<lparr>hc_buf := hc_buf c1 @ ys\<rparr>"
  have whole: "message_loop cfg (c\<lparr>hc_buf := hc_buf c @ xs @ ys\<rparr>) = message_loop cfg ?c1"
    using message_loop_more [OF c1, of ys] by simp
  have r1: "receive cfg xs c = c1\<lparr>hc_handled := hc_handled c1 @ hc_ready c1, hc_ready := []\<rparr>"
    using c1 by (simp add: receive_def onMessage_def)
  define d where "d = (receive cfg xs c)\<lparr>hc_buf := hc_buf (receive cfg xs c) @ ys\<rparr>"
  obtain d' where d': "message_loop cfg d = (Finished, d')" using second by (metis d_def prod.collapse)
  have "?c1 = d\<lparr>hc_ready := hc_ready c1 @ hc_ready d, hc_handled := hc_handled c1\<rparr>"
    by (simp add: d_def r1)
  with message_loop_frame [OF d'] have l: "message_loop cfg ?c1 =
      (Finished, d'\<lparr>hc_ready := hc_ready c1 @ hc_ready d', hc_handled := hc_handled c1\<rparr>)" by simp
  have h: "hc_handled d' = hc_handled c1 @ hc_ready c1" using message_loop_handled [OF d'] by (simp add: d_def r1)
  have "receive cfg ys (receive cfg xs c) = onMessage cfg d" by (simp add: receive_def d_def)
  with d' h whole l show ?thesis
    by (simp add: receive_def [of cfg "xs @ ys"] onMessage_def quiet_def r1)
qed

text \<open>No piece makes the connection reject a request or leave its buffer.\<close>

fun clean :: "app_config \<Rightarrow> string list \<Rightarrow> http_conn \<Rightarrow> bool" where
  "clean cfg [] c = True"
| "clean cfg (x # xs) c \<longleftrightarrow>
     fst (message_loop cfg (c\<lparr>hc_buf := hc_buf c @ x\<rparr>)) = Finished \<and> clean cfg xs (receive cfg x c)"

lemma receive_pieces:
  "quiet c \<Longrightarrow> clean cfg (x # xs) c \<Longrightarrow>
    receive cfg (x @ concat xs) c = fold (receive cfg) (x # xs) c
    \<and> fst (message_loop cfg (c\<lparr>hc_buf := hc_buf c @ x @ concat xs\<rparr>)) = Finished"
proof (induction xs arbitrary: x c)
  case (Cons y ys)
  have q: "quiet (receive cfg x c)"
    using Cons.prems by (auto simp: receive_def onMessage_def quiet_def split: prod.splits)
  from Cons.IH [OF q, of y] Cons.prems(2)
  have ih: "receive cfg (y @ concat ys) (receive cfg x c) = fold (receive cfg) (y # ys) (receive cfg x c)"
    "fst (message_loop cfg ((receive cfg x c)\<lparr>hc_buf := hc_buf (receive cfg x c) @ y @ concat ys\<rparr>)) = Finished"
    by simp_all
  from receive_append [OF Cons.prems(1) _ ih(2)] Cons.prems(2) ih(1) show ?case by simp
qed simp


definition example_pieces :: "string list" where
  "example_pieces = [''ST /a?b=c HTTP/1.1'' @ [CHR 0x0D], CHR 0x0A # ''content-length: 3'' @ CRLF, CRLF @ ''x'', ''yz'' @ ''GET /'',
     '' HTTP/1.0'' @ CRLF @ CRLF @ ''PU'']"


text \<open>
  The restriction matters: complete requests that are followed by a malformed one in the same piece are
  dropped, because the loop returns before it hands them over; in a piece of their own they are handled.
\<close>

lemma malformed_drops_earlier:
  "hc_handled (receive example_config (''GET /a HTTP/1.1'' @ CRLF @ CRLF @ ''BAD /b'') newHttpConn) = []"
  "length (hc_handled (fold (receive example_config) [''GET /a HTTP/1.1'' @ CRLF @ CRLF, ''BAD /b''] newHttpConn)) = 1"
  by code_simp+

end
