(* ===== verification/Pipelining.thy ===== *)
theory Pipelining
  imports HttpRequest
begin

text \<open>
  Request pipelining on one connection: the queue in \<^verbatim>\<open>HttpRequestParser.cc\<close> (\<^verbatim>\<open>requestPipelining_\<close>) and
  the two places of \<^verbatim>\<open>src/src/drogon/lib/src/HttpServer.cc\<close> that use it, \<^verbatim>\<open>onRequests\<close> and
  \<^verbatim>\<open>handleResponse\<close>. Requests are named by numbers, standing for their shared pointers. A handler answers
  synchronously, inside \<^verbatim>\<open>onRequests\<close>, or later from another thread, which is queued in the connection's
  loop. The specification is a list of requests with at most one answer each, and what has been sent is
  its answered prefix.
\<close>

section \<open>The queue\<close>

type_synonym pending = "nat \<times> response option \<times> bool"

record pipe_conn =
  requestPipelining :: "pending list"
  responseBuffer :: "(response \<times> bool) list"
  sentResponses :: "(response \<times> bool) list"      \<comment> \<open>what went to \<^verbatim>\<open>sendResponses\<close>, in order\<close>
  responseSent :: "nat set"                       \<comment> \<open>requests whose \<^verbatim>\<open>responseSent_\<close> flag is set\<close>

definition newPipeConn :: pipe_conn where
  "newPipeConn = \<lparr>requestPipelining = [], responseBuffer = [], sentResponses = [], responseSent = {}\<rparr>"

definition pushRequestToPipelining :: "nat \<Rightarrow> bool \<Rightarrow> pending list \<Rightarrow> pending list" where
  "pushRequestToPipelining req isHeadMethod q = q @ [(req, None, isHeadMethod)]"

fun store_response :: "nat \<Rightarrow> response \<Rightarrow> pending list \<Rightarrow> (nat \<times> pending list) option" where
  "store_response req resp [] = None"
| "store_response req resp ((rid, r, h) # q) =
     (if rid = req then Some (0, (rid, Some resp, h) # q)
      else map_option (\<lambda>(i, q'). (Suc i, (rid, r, h) # q')) (store_response req resp q))"

text \<open>\<^verbatim>\<open>pushResponseToPipelining\<close>: whether the response is the first in the pipeline.\<close>

definition pushResponseToPipelining :: "nat \<Rightarrow> response \<Rightarrow> pending list \<Rightarrow> bool \<times> pending list" where
  "pushResponseToPipelining req resp q =
     (case store_response req resp q of Some (i, q') \<Rightarrow> (i = 0, q') | None \<Rightarrow> (False, q))"

fun popReadyResponses :: "pending list \<Rightarrow> (response \<times> bool) list \<times> pending list" where
  "popReadyResponses ((rid, Some r, h) # q) = (let (rs, q') = popReadyResponses q in ((r, h) # rs, q'))"
| "popReadyResponses q = ([], q)"

section \<open>Requests and responses\<close>

definition prepareResponse :: "request \<Rightarrow> response \<Rightarrow> response" where
  "prepareResponse req resp = setCloseConnection (\<not> rq_keepAlive req) (setVersion (rq_version req) resp)"

text \<open>
  \<^verbatim>\<open>handleResponse\<close> in the loop thread while \<^verbatim>\<open>onRequests\<close> runs (\<^verbatim>\<open>*loopFlagPtr\<close> is true); the flag it
  returns is \<^verbatim>\<open>respReady\<close>.
\<close>

definition handleResponseSync :: "nat \<Rightarrow> bool \<Rightarrow> response \<Rightarrow> pipe_conn \<Rightarrow> bool \<times> pipe_conn" where
  "handleResponseSync req isHead resp c =
     (if req \<in> responseSent c then (False, c)
      else
        let c1 = c\<lparr>responseSent := insert req (responseSent c)\<rparr>
        in if requestPipelining c1 = [] then (True, c1\<lparr>responseBuffer := responseBuffer c1 @ [(resp, isHead)]\<rparr>)
           else
             let (first, q) = pushResponseToPipelining req resp (requestPipelining c1)
             in if first
                then (let (rs, q') = popReadyResponses q
                      in (False, c1\<lparr>requestPipelining := q', responseBuffer := responseBuffer c1 @ rs\<rparr>))
                else (False, c1\<lparr>requestPipelining := q\<rparr>))"

text \<open>\<^verbatim>\<open>handleResponse\<close> from another thread, as it runs in the loop.\<close>

definition handleResponseAsync :: "nat \<Rightarrow> response \<Rightarrow> pipe_conn \<Rightarrow> pipe_conn" where
  "handleResponseAsync req resp c =
     (if req \<in> responseSent c then c
      else
        let c1 = c\<lparr>responseSent := insert req (responseSent c)\<rparr>;
            (first, q) = pushResponseToPipelining req resp (requestPipelining c1)
        in if first
           then (let (rs, q') = popReadyResponses q
                 in c1\<lparr>requestPipelining := q', sentResponses := sentResponses c1 @ rs\<rparr>)
           else c1\<lparr>requestPipelining := q\<rparr>)"

text \<open>One turn of the loop of \<^verbatim>\<open>onRequests\<close>: the request, and the answer its handler gave at once.\<close>

type_synonym incoming = "nat \<times> bool \<times> response option"

definition onRequest :: "incoming \<Rightarrow> pipe_conn \<Rightarrow> pipe_conn" where
  "onRequest inc c =
     (case inc of (req, isHead, sync) \<Rightarrow>
        let reqPipelined = (requestPipelining c \<noteq> []);
            c1 = (if reqPipelined
                  then c\<lparr>requestPipelining := pushRequestToPipelining req isHead (requestPipelining c)\<rparr> else c);
            (respReady, c2) = (case sync of None \<Rightarrow> (False, c1) | Some r \<Rightarrow> handleResponseSync req isHead r c1)
        in if \<not> reqPipelined \<and> \<not> respReady
           then c2\<lparr>requestPipelining := pushRequestToPipelining req isHead (requestPipelining c2)\<rparr> else c2)"

definition onRequests :: "incoming list \<Rightarrow> pipe_conn \<Rightarrow> pipe_conn" where
  "onRequests incs c =
     (let c1 = fold onRequest incs c
      in c1\<lparr>sentResponses := sentResponses c1 @ responseBuffer c1, responseBuffer := []\<rparr>)"

datatype conn_event = Batch "incoming list" | Answer nat response

fun conn_step :: "conn_event \<Rightarrow> pipe_conn \<Rightarrow> pipe_conn" where
  "conn_step (Batch incs) c = onRequests incs c"
| "conn_step (Answer req resp) c = handleResponseAsync req resp c"

section \<open>The specification\<close>

text \<open>Requests in the order of arrival, and the first answer of each.\<close>

record pipe_spec =
  requests :: "(nat \<times> bool) list"
  answers :: "nat \<Rightarrow> response option"

definition spec_request :: "incoming \<Rightarrow> pipe_spec \<Rightarrow> pipe_spec" where
  "spec_request inc s =
     (case inc of (req, isHead, sync) \<Rightarrow>
        s\<lparr>requests := requests s @ [(req, isHead)],
          answers := (case sync of None \<Rightarrow> answers s | Some r \<Rightarrow> (answers s)(req \<mapsto> r))\<rparr>)"

fun spec_step :: "conn_event \<Rightarrow> pipe_spec \<Rightarrow> pipe_spec" where
  "spec_step (Batch incs) s = fold spec_request incs s"
| "spec_step (Answer req resp) s =
     (if answers s req = None then s\<lparr>answers := (answers s)(req \<mapsto> resp)\<rparr> else s)"

definition answered :: "pipe_spec \<Rightarrow> nat \<times> bool \<Rightarrow> bool" where
  "answered s rq \<longleftrightarrow> answers s (fst rq) \<noteq> None"

definition reply :: "pipe_spec \<Rightarrow> nat \<times> bool \<Rightarrow> response \<times> bool" where
  "reply s rq = (the (answers s (fst rq)), snd rq)"

definition spec_sent :: "pipe_spec \<Rightarrow> (response \<times> bool) list" where
  "spec_sent s = map (reply s) (takeWhile (answered s) (requests s))"

text \<open>A request is new; only a request that has arrived is answered.\<close>

fun event_ok :: "conn_event \<Rightarrow> pipe_spec \<Rightarrow> bool" where
  "event_ok (Batch incs) s \<longleftrightarrow>
     distinct (map fst incs) \<and> set (map fst incs) \<inter> set (map fst (requests s)) = {}"
| "event_ok (Answer req resp) s \<longleftrightarrow> req \<in> set (map fst (requests s))"

fun events_ok :: "conn_event list \<Rightarrow> pipe_spec \<Rightarrow> bool" where
  "events_ok [] s = True"
| "events_ok (e # es) s \<longleftrightarrow> event_ok e s \<and> events_ok es (spec_step e s)"

definition newPipeSpec :: pipe_spec where
  "newPipeSpec = \<lparr>requests = [], answers = (\<lambda>_. None)\<rparr>"

section \<open>The queue implements the specification\<close>

definition pend :: "pipe_spec \<Rightarrow> nat \<times> bool \<Rightarrow> pending" where
  "pend s rq = (fst rq, answers s (fst rq), snd rq)"

definition pipe_rel :: "pipe_spec \<Rightarrow> pipe_conn \<Rightarrow> bool" where
  "pipe_rel s c \<longleftrightarrow>
     distinct (map fst (requests s)) \<and> dom (answers s) \<subseteq> set (map fst (requests s))
     \<and> responseSent c = dom (answers s)
     \<and> sentResponses c @ responseBuffer c = spec_sent s
     \<and> requestPipelining c = map (pend s) (dropWhile (answered s) (requests s))"

lemma popReady_pend:
  "popReadyResponses (map (pend s) rqs) = (map (reply s) (takeWhile (answered s) rqs), map (pend s) (dropWhile (answered s) rqs))"
  by (induction rqs) (auto simp: pend_def reply_def answered_def)

lemma store_pend:
  assumes "distinct (map fst rqs)" and "i < length rqs" and "fst (rqs ! i) = req"
  shows "store_response req resp (map (pend s) rqs) =
    Some (i, map (pend (s\<lparr>answers := (answers s)(req \<mapsto> resp)\<rparr>)) rqs)"
  using assms
proof (induction rqs arbitrary: i)
  case (Cons rq rqs)
  let ?s = "s\<lparr>answers := (answers s)(req \<mapsto> resp)\<rparr>"
  have same: "pend ?s x = pend s x" if "fst x \<noteq> req" for x using that by (simp add: pend_def)
  show ?case
  proof (cases i)
    case 0
    with Cons.prems have "req \<notin> fst ` set rqs" by auto
    then have "map (pend ?s) rqs = map (pend s) rqs" by (intro map_cong refl same) force
    with 0 Cons.prems show ?thesis by (simp add: pend_def [of _ rq] fun_upd_def)
  next
    case (Suc j)
    with Cons.prems have "fst rq \<noteq> req" by (auto simp: image_iff)
    with Suc Cons show ?thesis by (simp add: pend_def [of _ rq])
  qed
qed simp

lemma store_last:
  "req \<notin> fst ` set q \<Longrightarrow> store_response req resp (q @ [(req, r, h)]) = Some (length q, q @ [(req, Some resp, h)])"
  by (induction q) auto

text \<open>Answering a request that is not in a list changes nothing about that list.\<close>

lemma frame_answers:
  assumes "req \<notin> fst ` set rqs"
  shows "takeWhile (answered (s\<lparr>requests := xs, answers := (answers s)(req := v)\<rparr>)) rqs = takeWhile (answered s) rqs"
    and "dropWhile (answered (s\<lparr>requests := xs, answers := (answers s)(req := v)\<rparr>)) rqs = dropWhile (answered s) rqs"
    and "set rqs' \<subseteq> set rqs \<Longrightarrow> map (reply (s\<lparr>requests := xs, answers := (answers s)(req := v)\<rparr>)) rqs' = map (reply s) rqs'"
    and "set rqs' \<subseteq> set rqs \<Longrightarrow> map (pend (s\<lparr>requests := xs, answers := (answers s)(req := v)\<rparr>)) rqs' = map (pend s) rqs'"
proof -
  have eq: "answered (s\<lparr>requests := xs, answers := (answers s)(req := v)\<rparr>) x = answered s x"
    "reply (s\<lparr>requests := xs, answers := (answers s)(req := v)\<rparr>) x = reply s x"
    "pend (s\<lparr>requests := xs, answers := (answers s)(req := v)\<rparr>) x = pend s x"
    if "x \<in> set rqs" for x
  proof -
    have "fst x \<noteq> req" using assms that by auto
    then show "answered (s\<lparr>requests := xs, answers := (answers s)(req := v)\<rparr>) x = answered s x"
      "reply (s\<lparr>requests := xs, answers := (answers s)(req := v)\<rparr>) x = reply s x"
      "pend (s\<lparr>requests := xs, answers := (answers s)(req := v)\<rparr>) x = pend s x"
      by (simp_all add: answered_def reply_def pend_def)
  qed
  show "takeWhile (answered (s\<lparr>requests := xs, answers := (answers s)(req := v)\<rparr>)) rqs = takeWhile (answered s) rqs"
    "dropWhile (answered (s\<lparr>requests := xs, answers := (answers s)(req := v)\<rparr>)) rqs = dropWhile (answered s) rqs"
    by (rule takeWhile_cong dropWhile_cong; simp add: eq)+
  show "map (reply (s\<lparr>requests := xs, answers := (answers s)(req := v)\<rparr>)) rqs' = map (reply s) rqs'"
    "map (pend (s\<lparr>requests := xs, answers := (answers s)(req := v)\<rparr>)) rqs' = map (pend s) rqs'"
    if "set rqs' \<subseteq> set rqs"
    using that eq by (auto intro: map_cong)
qed

lemma set_takeWhile_subset: "set (takeWhile P xs) \<subseteq> set xs"
  by (auto dest: set_takeWhileD)

lemma set_dropWhile_subset: "set (dropWhile P xs) \<subseteq> set xs"
  by (auto dest: set_dropWhileD)

lemma pipe_rel_request:
  assumes rel: "pipe_rel s c" and fresh: "req \<notin> fst ` set (requests s)"
  shows "pipe_rel (spec_request (req, h, sync) s) (onRequest (req, h, sync) c)"
proof -
  let ?U = "dropWhile (answered s) (requests s)" and ?v = "sync"
  have ns: "req \<notin> responseSent c" "answers s req = None" using rel fresh by (auto simp: pipe_rel_def)
  have idem: "(answers s)(req := None) = answers s" using ns(2) by (auto simp: fun_eq_iff)
  have s': "spec_request (req, h, sync) s =
      s\<lparr>requests := requests s @ [(req, h)], answers := (answers s)(req := sync)\<rparr>"
    using idem by (cases sync; cases s) (simp_all add: spec_request_def)
  let ?s = "spec_request (req, h, sync) s"
  note fr = frame_answers [OF fresh, where s = s and xs = "requests s @ [(req, h)]" and v = sync, folded s']
  have last: "answered ?s (req, h) \<longleftrightarrow> sync \<noteq> None" "pend ?s (req, h) = (req, sync, h)" "reply ?s (req, h) = (the sync, h)"
    by (simp_all add: s' answered_def pend_def reply_def)
  have all: "(\<forall>x\<in>set (requests s). answered ?s x) \<longleftrightarrow> ?U = []"
    by (simp only: dropWhile_eq_Nil_conv [symmetric] fr(2))
  have rs: "requests ?s = requests s @ [(req, h)]" by (simp add: s')
  have tk: "takeWhile (answered s) (requests s) = requests s" if "?U = []"
    using that takeWhile_dropWhile_id [of "answered s" "requests s"] by simp
  have sent: "spec_sent ?s = spec_sent s @ (if ?U = [] \<and> sync \<noteq> None then [(the sync, h)] else [])"
  proof (cases "?U = []")
    case True
    with all rs last have "takeWhile (answered ?s) (requests ?s) = requests s @ (if sync \<noteq> None then [(req, h)] else [])"
      by (simp add: takeWhile_append)
    then have "spec_sent ?s = map (reply s) (requests s) @ (if sync \<noteq> None then [(the sync, h)] else [])"
      using fr(3) [OF subset_refl] last by (simp add: spec_sent_def del: map_eq_conv)
    moreover have "spec_sent s = map (reply s) (requests s)" unfolding spec_sent_def tk [OF True] ..
    ultimately show ?thesis using True by simp
  next
    case False
    with all rs fr(1) have "takeWhile (answered ?s) (requests ?s) = takeWhile (answered s) (requests s)"
      by (auto simp: takeWhile_append)
    with False fr(3) [OF set_takeWhile_subset] show ?thesis by (simp add: spec_sent_def)
  qed
  have pipe: "map (pend ?s) (dropWhile (answered ?s) (requests ?s)) =
      (if ?U = [] \<and> sync \<noteq> None then [] else map (pend s) ?U @ [(req, sync, h)])"
  proof (cases "?U = []")
    case True
    with all rs last show ?thesis by (cases sync) (simp_all add: dropWhile_append)
  next
    case False
    with all rs fr(2) have "dropWhile (answered ?s) (requests ?s) = ?U @ [(req, h)]"
      by (auto simp: dropWhile_append)
    with False fr(4) [OF set_dropWhile_subset] last show ?thesis by simp
  qed
  have q: "requestPipelining c = map (pend s) ?U" "req \<notin> fst ` set (map (pend s) ?U)"
    using rel fresh by (auto simp: pipe_rel_def pend_def image_iff dest!: set_dropWhileD)
  have rest: "distinct (map fst (requests ?s))" "dom (answers ?s) \<subseteq> set (map fst (requests ?s))"
    "dom (answers ?s) = (if sync = None then dom (answers s) else insert req (dom (answers s)))"
    using rel fresh ns(2) by (auto simp: pipe_rel_def s' split: if_splits)
  have c: "responseSent c = dom (answers s)" "sentResponses c @ responseBuffer c = spec_sent s"
    using rel by (simp_all add: pipe_rel_def)
  show ?thesis
    unfolding pipe_rel_def sent pipe
    using rest c q ns(1) store_last [OF q(2)]
    by (cases "?U = []"; cases sync)
      (auto simp: onRequest_def handleResponseSync_def pushRequestToPipelining_def pushResponseToPipelining_def Let_def)
qed

lemma pipe_rel_requests:
  "pipe_rel s c \<Longrightarrow> distinct (map fst incs) \<Longrightarrow> set (map fst incs) \<inter> fst ` set (requests s) = {} \<Longrightarrow>
    pipe_rel (fold spec_request incs s) (fold onRequest incs c)"
proof (induction incs arbitrary: s c)
  case (Cons inc incs)
  obtain req h sync where inc: "inc = (req, h, sync)" by (metis prod_cases3)
  with Cons.prems have "pipe_rel (spec_request inc s) (onRequest inc c)" using pipe_rel_request by simp
  moreover have "set (map fst incs) \<inter> fst ` set (requests (spec_request inc s)) = {}"
    using Cons.prems inc by (auto simp: spec_request_def)
  ultimately show ?case using Cons by simp
qed simp

lemma pipe_rel_answer:
  assumes rel: "pipe_rel s c" and buf: "responseBuffer c = []" and req: "req \<in> fst ` set (requests s)"
  shows "pipe_rel (spec_step (Answer req resp) s) (handleResponseAsync req resp c)
    \<and> responseBuffer (handleResponseAsync req resp c) = []"
proof (cases "answers s req")
  case (Some r)
  then have "req \<in> responseSent c" using rel by (auto simp: pipe_rel_def)
  with Some rel buf show ?thesis by (simp add: handleResponseAsync_def)
next
  case None
  let ?s = "s\<lparr>answers := (answers s)(req \<mapsto> resp)\<rparr>"
  let ?T = "takeWhile (answered s) (requests s)" and ?U = "dropWhile (answered s) (requests s)"
  have split: "requests s = ?T @ ?U" by simp
  have T: "x \<in> set ?T \<Longrightarrow> answered s x" for x by (rule set_takeWhileD [THEN conjunct2])
  have reqT: "req \<notin> fst ` set ?T" using T None by (fastforce simp: answered_def)
  then have "req \<in> fst ` set ?U" using req by (subst (asm) split) (auto simp del: takeWhile_dropWhile_id)
  then obtain i where i: "i < length ?U" "fst (?U ! i) = req" by (auto simp: in_set_conv_nth)
  have "distinct (map fst (?T @ ?U))" using rel by (simp add: pipe_rel_def)
  then have dU: "distinct (map fst ?U)" by (simp only: map_append distinct_append)
  note st = store_pend [OF dU i, of resp s]
  have T': "\<forall>x\<in>set ?T. answered ?s x" using T by (auto simp: answered_def)
  have rT: "map (reply ?s) ?T = map (reply s) ?T"
    using reqT by (intro map_cong refl) (force simp: reply_def)
  have sent: "spec_sent ?s = spec_sent s @ map (reply ?s) (takeWhile (answered ?s) ?U)"
    using T' rT takeWhile_append [of "answered ?s" ?T ?U] by (simp add: spec_sent_def)
  have pipe: "dropWhile (answered ?s) (requests ?s) = dropWhile (answered ?s) ?U"
    using T' dropWhile_append [of "answered ?s" ?T ?U] by simp
  have later: "takeWhile (answered ?s) ?U = [] \<and> dropWhile (answered ?s) ?U = ?U" if "i \<noteq> 0"
  proof -
    obtain x xs where U: "?U = x # xs" using i by (cases ?U) auto
    then have "\<not> answered s x" by (metis dropWhile_eq_Cons_conv)
    moreover from that obtain j where "i = Suc j" by (cases i) simp_all
    then have "req \<in> fst ` set xs" using i U by (auto intro!: image_eqI [where x = "xs ! j"])
    then have "fst x \<noteq> req" using dU U by auto
    ultimately show ?thesis by (simp add: U answered_def)
  qed
  have facts: "responseSent c = dom (answers s)" "sentResponses c = spec_sent s"
    "requestPipelining c = map (pend s) ?U" "distinct (map fst (requests s))"
    "dom (answers ?s) = insert req (dom (answers s))" "dom (answers s) \<subseteq> set (map fst (requests s))"
    using rel buf by (auto simp: pipe_rel_def)
  then show ?thesis
    using None req st later sent pipe buf
    by (cases "i = 0")
      (auto simp: pipe_rel_def handleResponseAsync_def pushResponseToPipelining_def popReady_pend Let_def)
qed

lemma pipe_rel_run:
  "pipe_rel s c \<Longrightarrow> responseBuffer c = [] \<Longrightarrow> events_ok es s \<Longrightarrow>
    pipe_rel (fold spec_step es s) (fold conn_step es c) \<and> responseBuffer (fold conn_step es c) = []"
proof (induction es arbitrary: s c)
  case (Cons e es)
  have "pipe_rel (spec_step e s) (conn_step e c) \<and> responseBuffer (conn_step e c) = []"
  proof (cases e)
    case (Batch incs)
    with Cons.prems pipe_rel_requests [of s c incs] show ?thesis by (simp add: onRequests_def Let_def pipe_rel_def)
  next
    case (Answer req resp)
    with Cons.prems pipe_rel_answer [of s c req resp] show ?thesis by simp
  qed
  with Cons.IH [of "spec_step e s" "conn_step e c"] Cons.prems show ?case by simp
qed simp



end
