(* ===== verification/SendResponse.thy ===== *)
theory SendResponse
  imports Pipelining
begin

text \<open>
  The last step of an HTTP exchange: \<^verbatim>\<open>HttpServer::sendResponse\<close> and \<^verbatim>\<open>HttpServer::sendResponses\<close>
  (\<^verbatim>\<open>drogon/lib/src/HttpServer.cc\<close>) turn responses into operations on the TCP connection, and
  \<^verbatim>\<open>ResponseStream\<close> (\<^verbatim>\<open>drogon/lib/inc/drogon/HttpResponse.h\<close>) writes the chunks of a streaming
  response. The reference decoder for chunked bodies shares nothing with the encoder but the line
  terminator.
\<close>

section \<open>Operations on the connection\<close>

datatype conn_action =
    SendBytes string                      \<comment> \<open>\<^verbatim>\<open>conn->send\<close>\<close>
  | DeliverStream                         \<comment> \<open>\<^verbatim>\<open>asyncStreamCallback(make_unique<ResponseStream>(\<dots>))\<close>\<close>
  | SendFile string "size_t \<times> size_t"     \<comment> \<open>\<^verbatim>\<open>conn->sendFile\<close>\<close>
  | Shutdown                              \<comment> \<open>\<^verbatim>\<open>conn->shutdown\<close>\<close>

text \<open>
  \<open>srv\<close> and \<open>date\<close> are the server and date header values that rendering adds. No route of the
  package builds a response with a \<^verbatim>\<open>streamCallback\<close> (\<^verbatim>\<open>newStreamResponse\<close>), so that branch has no
  counterpart here.
\<close>

definition sendResponse :: "string option \<Rightarrow> string option \<Rightarrow> response \<times> bool \<Rightarrow> conn_action list" where
  "sendResponse srv date resp =
     (case resp of (r, isHeadMethod) \<Rightarrow>
        if \<not> isHeadMethod then
          SendBytes (renderToBuffer srv date r) #
          (if \<not> contentLengthIsAllowed r then []
           else (if asyncStream r \<and> \<not> closeConnection r then [DeliverStream] else [])
                @ (if sendfileName r \<noteq> [] then [SendFile (sendfileName r) (sendfileRange r)] else [])
                @ (if closeConnection r then [Shutdown] else []))
        else
          SendBytes (renderHeaderForHeadMethod srv date r) #
          (if closeConnection r then [Shutdown] else []))"

text \<open>\<^verbatim>\<open>conn->send(buffer); buffer.retrieveAll()\<close>, and the loop of \<^verbatim>\<open>sendResponses\<close> over the batch.\<close>

fun send_batch ::
  "string option \<Rightarrow> string option \<Rightarrow> bool \<Rightarrow> (response \<times> bool) list \<Rightarrow> string \<Rightarrow> conn_action list" where
  "send_batch srv date conn_up [] buffer =
     (if conn_up \<and> buffer \<noteq> [] then [SendBytes buffer] else [])"
| "send_batch srv date conn_up ((r, isHeadMethod) # resps) buffer =
     (if \<not> isHeadMethod then
        let b1 = buffer @ renderToBuffer srv date r
        in if \<not> contentLengthIsAllowed r then send_batch srv date conn_up resps b1
           else
             let (a1, b2) = (if asyncStream r
                             then (SendBytes b1 # (if closeConnection r then [] else [DeliverStream]), [])
                             else ([], b1));
                 (a2, b3) = (if sendfileName r \<noteq> []
                             then ([SendBytes b2, SendFile (sendfileName r) (sendfileRange r)], [])
                             else ([], b2))
             in a1 @ a2 @ (if closeConnection r
                           then (if b3 \<noteq> [] then [SendBytes b3] else []) @ [Shutdown]
                           else send_batch srv date conn_up resps b3)
      else
        let b1 = buffer @ renderHeaderForHeadMethod srv date r
        in if closeConnection r
           then (if b1 \<noteq> [] then [SendBytes b1] else []) @ [Shutdown]
           else send_batch srv date conn_up resps b1)"

definition sendResponses ::
  "string option \<Rightarrow> string option \<Rightarrow> bool \<Rightarrow> (response \<times> bool) list \<Rightarrow> conn_action list" where
  "sendResponses srv date conn_up resps =
     (case resps of
        [] \<Rightarrow> []
      | [resp] \<Rightarrow> sendResponse srv date resp
      | _ \<Rightarrow> send_batch srv date conn_up resps [])"

section \<open>Batching changes nothing on the wire\<close>

text \<open>Adjacent sends run together, and a send of nothing is no send.\<close>

fun wire :: "conn_action list \<Rightarrow> conn_action list" where
  "wire [] = []"
| "wire (SendBytes a # xs) =
     (case wire xs of
        SendBytes b # ys \<Rightarrow> SendBytes (a @ b) # ys
      | ys \<Rightarrow> if a = [] then ys else SendBytes a # ys)"
| "wire (x # xs) = x # wire xs"

text \<open>Whether a response ends the exchange: what follows it in the batch is not sent.\<close>

definition closes :: "response \<times> bool \<Rightarrow> bool" where
  "closes resp \<longleftrightarrow> closeConnection (fst resp) \<and> (snd resp \<or> contentLengthIsAllowed (fst resp))"

fun until_close :: "(response \<times> bool) list \<Rightarrow> (response \<times> bool) list" where
  "until_close [] = []"
| "until_close (x # xs) = (if closes x then [x] else x # until_close xs)"

definition one_by_one ::
  "string option \<Rightarrow> string option \<Rightarrow> (response \<times> bool) list \<Rightarrow> conn_action list" where
  "one_by_one srv date resps = concat (map (sendResponse srv date) (until_close resps))"

lemma wire_nonsend [simp]: "(\<And>b. x \<noteq> SendBytes b) \<Longrightarrow> wire (x # xs) = x # wire xs"
  by (cases x) auto

lemma wire_send_nil [simp]: "wire (SendBytes [] # xs) = wire xs"
  by (auto split: list.splits conn_action.splits)

lemma wire_send_send [simp]: "wire (SendBytes a # SendBytes b # xs) = wire (SendBytes (a @ b) # xs)"
  by (auto split: list.splits conn_action.splits)

lemma wire_cong: "wire xs = wire ys \<Longrightarrow> wire (x # xs) = wire (x # ys)"
  by (cases x) auto

lemma wire_append_cong: "wire xs = wire ys \<Longrightarrow> wire (zs @ xs) = wire (zs @ ys)"
  by (induction zs) (auto intro: wire_cong)

lemma send_batch_wire:
  "wire (send_batch srv date True resps buffer) = wire (SendBytes buffer # one_by_one srv date resps)"
proof (induction resps arbitrary: buffer)
  case Nil
  show ?case by (simp add: one_by_one_def)
next
  case (Cons resp resps)
  obtain r h where resp: "resp = (r, h)" by fastforce
  have one: "one_by_one srv date (resp # resps)
      = sendResponse srv date resp @ (if closes resp then [] else one_by_one srv date resps)"
    by (simp add: one_by_one_def)
  note IH = Cons.IH
  have IH0: "wire (send_batch srv date True resps []) = wire (one_by_one srv date resps)"
    using IH [of "[]"] by (simp only: wire_send_nil)
  show ?case
    unfolding one unfolding resp
    by (auto simp del: wire.simps simp: IH0 IH closes_def sendResponse_def Let_def intro!: wire_cong)
qed

lemma send_batch_wire_nil: "wire (send_batch srv date True resps []) = wire (one_by_one srv date resps)"
  using send_batch_wire [of srv date resps "[]"] by (simp only: wire_send_nil)

section \<open>Streaming responses\<close>

text \<open>\<^verbatim>\<open>oss << std::hex << data.length()\<close>.\<close>

fun nat_to_hex :: "nat \<Rightarrow> string" where
  "nat_to_hex n = (if n < 16 then [hexOut True n] else nat_to_hex (n div 16) @ [hexOut True (n mod 16)])"

declare nat_to_hex.simps [simp del]

text \<open>
  The \<^verbatim>\<open>AsyncStreamImpl\<close> behind a \<^verbatim>\<open>ResponseStream\<close>: whether \<^verbatim>\<open>asyncStream_\<close> is set, whether the
  connection can still be locked and is connected, the bytes handed to it, and whether the stream's
  buffer node has been told that no more will come.
\<close>

record rstream =
  rs_async :: bool
  rs_connected :: bool
  rs_wire :: string
  rs_ended :: bool

definition newResponseStream :: "bool \<Rightarrow> rstream" where
  "newResponseStream up = \<lparr>rs_async = True, rs_connected = up, rs_wire = [], rs_ended = False\<rparr>"

definition AsyncStream_send :: "string \<Rightarrow> rstream \<Rightarrow> bool \<times> rstream" where
  "AsyncStream_send bytes s =
     (if \<not> rs_connected s then (False, s) else (True, s\<lparr>rs_wire := rs_wire s @ bytes\<rparr>))"

definition AsyncStream_close :: "rstream \<Rightarrow> rstream" where
  "AsyncStream_close s = (if rs_connected s then s\<lparr>rs_ended := True\<rparr> else s)"

definition chunk_frame :: "string \<Rightarrow> string" where
  "chunk_frame data = nat_to_hex (length data) @ CRLF @ data @ CRLF"

definition closeStream :: string where
  "closeStream = CHR ''0'' # CRLF @ CRLF"

definition ResponseStream_send :: "string \<Rightarrow> rstream \<Rightarrow> bool \<times> rstream" where
  "ResponseStream_send data s =
     (if \<not> rs_async s then (False, s) else AsyncStream_send (chunk_frame data) s)"

definition ResponseStream_close :: "rstream \<Rightarrow> rstream" where
  "ResponseStream_close s =
     (if rs_async s then (AsyncStream_close (snd (AsyncStream_send closeStream s)))\<lparr>rs_async := False\<rparr> else s)"

lemmas rstream_defs =
  AsyncStream_send_def AsyncStream_close_def ResponseStream_send_def ResponseStream_close_def

section \<open>A reference decoder for chunked bodies\<close>

definition hex_value :: "string \<Rightarrow> nat option" where
  "hex_value s =
     (if s = [] then None
      else foldl (\<lambda>v c. case (v, nibble c) of (Some a, Some d) \<Rightarrow> Some (16 * a + d) | _ \<Rightarrow> None) (Some 0) s)"

function dechunk :: "string \<Rightarrow> (string \<times> string) option" where
  "dechunk s =
     (case read_line s of
        None \<Rightarrow> None
      | Some (l, rest) \<Rightarrow>
          (case hex_value l of
             None \<Rightarrow> None
           | Some n \<Rightarrow>
               if take 2 (drop n rest) \<noteq> CRLF then None
               else if n = 0 then Some ([], drop 2 rest)
               else map_option (\<lambda>(b, r). (take n rest @ b, r)) (dechunk (drop (n + 2) rest))))"
  by pat_completeness auto
termination
  by (relation "measure length") (auto dest!: read_line_shorter)

declare dechunk.simps [simp del]

lemma hex_value_snoc:
  "hex_value s = Some v \<Longrightarrow> nibble c = Some d \<Longrightarrow> hex_value (s @ [c]) = Some (16 * v + d)"
  by (auto simp: hex_value_def split: if_splits)

lemma hex_value_hexOut: "n < 16 \<Longrightarrow> hex_value [hexOut True n] = Some n"
  by (simp add: hex_value_def nibble_hexOut)

lemma hex_value_nat_to_hex [simp]: "hex_value (nat_to_hex n) = Some n"
proof (induction n rule: nat_to_hex.induct)
  case (1 n)
  show ?case
  proof (cases "n < 16")
    case True
    then show ?thesis by (simp add: nat_to_hex.simps [of n] hex_value_hexOut)
  next
    case False
    with 1 have "hex_value (nat_to_hex (n div 16) @ [hexOut True (n mod 16)]) = Some (16 * (n div 16) + n mod 16)"
      by (intro hex_value_snoc nibble_hexOut) auto
    with False show ?thesis by (simp add: nat_to_hex.simps [of n])
  qed
qed

lemma hexOut_not_cr: "n < 16 \<Longrightarrow> hexOut True n \<noteq> CHR 0x0D"
  using nibble_hexOut [of n True] by (auto simp: nibble_def less_eq_char_def)

lemma no_cr_nat_to_hex: "no_cr (nat_to_hex n)"
proof (induction n rule: nat_to_hex.induct)
  case (1 n)
  then show ?case
    using hexOut_not_cr [of n] hexOut_not_cr [of "n mod 16"]
    by (cases "n < 16") (auto simp: nat_to_hex.simps [of n])
qed

lemma dechunk_frame:
  assumes "data \<noteq> []"
  shows "dechunk (chunk_frame data @ rest) = map_option (\<lambda>(b, r). (data @ b, r)) (dechunk rest)"
proof -
  have "read_line (chunk_frame data @ rest) = Some (nat_to_hex (length data), data @ CRLF @ rest)"
    using read_line_CRLF [OF no_cr_nat_to_hex] by (simp add: chunk_frame_def)
  with assms show ?thesis by (subst dechunk.simps) (simp add: CRLF_def)
qed

lemma dechunk_closeStream: "dechunk (closeStream @ rest) = Some ([], rest)"
proof -
  have "read_line (closeStream @ rest) = Some (''0'', CRLF @ rest)"
    using read_line_CRLF [of "''0''" "CRLF @ rest"] by (simp add: closeStream_def)
  moreover have "hex_value ''0'' = Some 0" by (simp add: hex_value_def nibble_def)
  ultimately show ?thesis by (subst dechunk.simps) (simp add: CRLF_def)
qed

lemma dechunk_frames:
  "[] \<notin> set ds \<Longrightarrow> dechunk (concat (map chunk_frame ds) @ closeStream @ rest) = Some (concat ds, rest)"
  by (induction ds) (auto simp: dechunk_frame dechunk_closeStream)

text \<open>The frame of an empty chunk is the terminator.\<close>

lemma chunk_frame_empty: "chunk_frame [] = closeStream"
  by (simp add: chunk_frame_def closeStream_def nat_to_hex.simps hexOut_def char_of_def bit_0)

section \<open>Properties\<close>


text \<open>A response without content keeps the connection.  When the client asked for the
  connection to be closed (or spoke HTTP/1.0), a 204 or 1xx response to it announces
  \<^verbatim>\<open>connection: close\<close> unless a handler set that header itself, and then the connection is not shut
  down, because \<^verbatim>\<open>sendResponse\<close> returns before the check.\<close>

lemma no_content_stays_open:
  assumes "\<not> rq_keepAlive req" and "statusCode r = 204" and "customStatusCode r = - 1"
    and "\<not> passThrough r" and "''connection'' \<notin> fst ` set (headers r)"
  shows "Shutdown \<notin> set (sendResponse srv date (prepareResponse req r, False))
       \<and> ''connection: close'' \<in> set (head_lines srv date (prepareResponse req r))"
  using assms
  by (auto simp: sendResponse_def prepareResponse_def setVersion_def setCloseConnection_def Let_def
      contentLengthIsAllowed_def head_lines_def connectionLine_def finalHeaders_def)

end
