(* ===== verification/StreamSession.thy ===== *)
theory StreamSession
  imports SendResponse RValue "HOL-Library.Sublist"
begin

text \<open>
  \<^verbatim>\<open>src/src/stream_session.cpp\<close>: streaming responses produced by an R generator. The main R thread
  starts a session and pumps it (one \<^verbatim>\<open>next_chunk(state, cancelled)\<close> call per pump, each pump
  scheduled with \<^verbatim>\<open>later\<close>); the connection's event loop delivers the \<^verbatim>\<open>ResponseStream\<close>, performs
  the sends and the close that the main thread queues on it, and reports the peer's disconnect.

  R's evaluator is the parameter \<open>reval\<close>: applied to R's state, a function and its arguments it gives
  the value (\<open>None\<close> when the call signals an error, as \<^verbatim>\<open>R_tryEval\<close> reports it) and R's next state. An
  argument \<open>None\<close> is a C null pointer. A result \<open>None\<close> of an operation is a null pointer dereference.
\<close>

section \<open>Sessions\<close>

type_synonym 'w evaluator = "'w \<Rightarrow> sexp \<Rightarrow> sexp option list \<Rightarrow> sexp option \<times> 'w"

text \<open>What the main thread hands to \<^verbatim>\<open>queueInLoop\<close>.\<close>

datatype loop_task = SendTask string | CloseTask

text \<open>
  Besides the fields of the C++ struct: the object behind \<^verbatim>\<open>stream\<close>, the functions of this session
  that wait in its loop's queue, what Drogon sends for the response (the prepared response and whether
  the request was a HEAD), whether the stream callback is still to run, whether the close callback was
  installed, and the history of generator calls (the \<^verbatim>\<open>cancelled\<close> argument and R's answer).
\<close>

record stream_session =
  ss_next_chunk :: "sexp option"
  ss_state :: "sexp option"
  ss_stream :: bool
  ss_loop :: bool
  ss_closing :: bool
  ss_cancelled :: bool
  ss_min_interval :: rdouble
  ss_rs :: rstream
  ss_tasks :: "loop_task list"
  ss_resp :: "response \<times> bool"
  ss_undelivered :: bool
  ss_hooked :: bool
  ss_calls :: "(bool \<times> sexp option) list"

text \<open>
  \<^verbatim>\<open>g_streams\<close> is the list of its keys; the objects are in \<open>st_heap\<close>, where an erased one stays as long
  as a queued function holds its \<^verbatim>\<open>shared_ptr\<close>. \<open>st_later\<close> holds the pumps that wait in \<^verbatim>\<open>later\<close>.
\<close>

record streams =
  g_streams :: "uint64 list"
  g_nextStreamId :: uint64
  st_heap :: "uint64 \<Rightarrow> stream_session option"
  st_later :: "(uint64 \<times> rdouble) list"
  st_preserved :: preserved
  g_later :: bool

definition findSession :: "streams \<Rightarrow> uint64 \<Rightarrow> stream_session option" where
  "findSession s sid = (if sid \<in> set (g_streams s) then st_heap s sid else None)"

definition eraseSession :: "uint64 \<Rightarrow> streams \<Rightarrow> streams" where
  "eraseSession sid s = s\<lparr>g_streams := filter (\<lambda>i. i \<noteq> sid) (g_streams s)\<rparr>"

text \<open>\<^verbatim>\<open>fetch_add\<close> on the counter, then \<^verbatim>\<open>g_streams.emplace(sess->id, sess)\<close>.\<close>

definition emplaceSession :: "stream_session \<Rightarrow> streams \<Rightarrow> streams" where
  "emplaceSession ss s =
     s\<lparr>g_nextStreamId := g_nextStreamId s + 1, g_streams := g_streams s @ [g_nextStreamId s],
       st_heap := (st_heap s)(g_nextStreamId s \<mapsto> ss)\<rparr>"

definition withSession :: "uint64 \<Rightarrow> (stream_session \<Rightarrow> stream_session) \<Rightarrow> streams \<Rightarrow> streams" where
  "withSession sid f s = s\<lparr>st_heap := (st_heap s)(sid := map_option f (st_heap s sid))\<rparr>"

fun release_opt :: "sexp option \<Rightarrow> preserved \<Rightarrow> preserved" where
  "release_opt None p = p"
| "release_opt (Some x) p = release x p"

definition releaseSEXPs :: "uint64 \<Rightarrow> streams \<Rightarrow> streams" where
  "releaseSEXPs sid s =
     (case st_heap s sid of
        None \<Rightarrow> s
      | Some ss \<Rightarrow>
          (withSession sid (\<lambda>ss. ss\<lparr>ss_next_chunk := None, ss_state := None\<rparr>) s)
            \<lparr>st_preserved := release_opt (ss_state ss) (release_opt (ss_next_chunk ss) (st_preserved s))\<rparr>)"

definition scheduleNextPump :: "uint64 \<Rightarrow> streams \<Rightarrow> streams" where
  "scheduleNextPump sid s =
     (if \<not> g_later s then s
      else
        let secs = (case findSession s sid of None \<Rightarrow> Fin (Dbl False 0 0) | Some ss \<Rightarrow> ss_min_interval ss)
        in s\<lparr>st_later := st_later s @ [(sid, secs)]\<rparr>)"

definition queueInLoop :: "uint64 \<Rightarrow> loop_task \<Rightarrow> streams \<Rightarrow> streams option" where
  "queueInLoop sid t s =
     (case st_heap s sid of
        Some ss \<Rightarrow>
          if ss_loop ss then Some (withSession sid (\<lambda>ss. ss\<lparr>ss_tasks := ss_tasks ss @ [t]\<rparr>) s) else None
      | None \<Rightarrow> None)"

definition sendChunkInLoop :: "uint64 \<Rightarrow> string \<Rightarrow> streams \<Rightarrow> streams option" where
  "sendChunkInLoop sid data s = queueInLoop sid (SendTask data) s"

definition closeStreamFromMain :: "uint64 \<Rightarrow> streams \<Rightarrow> streams option" where
  "closeStreamFromMain sid s =
     (case queueInLoop sid CloseTask (withSession sid (\<lambda>ss. ss\<lparr>ss_closing := True\<rparr>) s) of
        None \<Rightarrow> None
      | Some s1 \<Rightarrow> Some (eraseSession sid (releaseSEXPs sid s1)))"

section \<open>The pump\<close>

text \<open>The fields of \<^verbatim>\<open>next_chunk\<close>'s answer: \<^verbatim>\<open>LOGICAL(s_done)[0] == 1\<close>, and the chunk as a string.\<close>

fun done_field :: "sexp \<Rightarrow> bool" where
  "done_field (LGLSXP _ (b # _)) \<longleftrightarrow> b = 1"
| "done_field _ \<longleftrightarrow> False"

definition chunk_field :: "sexp \<Rightarrow> string" where
  "chunk_field x = (case as_first_string x of None \<Rightarrow> [] | Some c \<Rightarrow> c)"

fun is_list :: "sexp \<Rightarrow> bool" where
  "is_list (VECSXP _ _) = True"
| "is_list _ = False"

text \<open>The state of the generator is replaced only when the answer has one.\<close>

definition updateState :: "uint64 \<Rightarrow> sexp \<Rightarrow> streams \<Rightarrow> streams" where
  "updateState sid s_state s =
     (if s_state = NilSXP then s
      else
        (case st_heap s sid of
           None \<Rightarrow> s
         | Some ss \<Rightarrow>
             (withSession sid (\<lambda>ss. ss\<lparr>ss_state := Some s_state\<rparr>) s)
               \<lparr>st_preserved := release_opt (ss_state ss) (preserve s_state (st_preserved s))\<rparr>))"

text \<open>The part of the pump after a successful call that returned a list.\<close>

definition pumpResult :: "uint64 \<Rightarrow> bool \<Rightarrow> sexp \<Rightarrow> streams \<Rightarrow> streams option" where
  "pumpResult sid was_cancelled res s =
     (let s_chunk = namedField res ''chunk''; s_state = namedField res ''state'';
          s_done = namedField res ''done'';
          s1 = updateState sid s_state s;
          done_flag = done_field s_done; chunk = chunk_field s_chunk
      in if was_cancelled then closeStreamFromMain sid s1
         else
           (case (if chunk \<noteq> [] then sendChunkInLoop sid chunk s1 else Some s1) of
              None \<Rightarrow> None
            | Some s2 \<Rightarrow> if done_flag then closeStreamFromMain sid s2 else Some (scheduleNextPump sid s2)))"

definition pumpStreamMain :: "'w evaluator \<Rightarrow> uint64 \<Rightarrow> 'w \<times> streams \<Rightarrow> ('w \<times> streams) option" where
  "pumpStreamMain reval sid ws =
     (case ws of (w, s) \<Rightarrow>
        case findSession s sid of
          None \<Rightarrow> Some (w, s)
        | Some ss \<Rightarrow>
            if ss_closing ss then Some (w, s)
            else if \<not> ss_stream ss then Some (w, scheduleNextPump sid s)
            else
              (case ss_next_chunk ss of
                 None \<Rightarrow> None
               | Some f \<Rightarrow>
                   let was_cancelled = ss_cancelled ss;
                       (res, w1) = reval w f [ss_state ss, Some (LGLSXP no_attr [if was_cancelled then 1 else 0])];
                       s1 = withSession sid (\<lambda>ss. ss\<lparr>ss_calls := ss_calls ss @ [(was_cancelled, res)]\<rparr>) s
                   in (case res of
                         None \<Rightarrow> map_option (Pair w1) (closeStreamFromMain sid s1)
                       | Some v \<Rightarrow>
                           if \<not> is_list v then map_option (Pair w1) (closeStreamFromMain sid s1)
                           else map_option (Pair w1) (pumpResult sid was_cancelled v s1))))"

section \<open>Start and stop\<close>

text \<open>\<^verbatim>\<open>(min_interval > 0.0) ? min_interval : 0.0\<close>.\<close>

fun positive_or_zero :: "rdouble \<Rightarrow> rdouble" where
  "positive_or_zero (Fin d) = (if \<not> dneg d \<and> dmant d \<noteq> 0 then Fin d else Fin (Dbl False 0 0))"
| "positive_or_zero R_PosInf = R_PosInf"
| "positive_or_zero _ = Fin (Dbl False 0 0)"

definition streamHeader :: "string \<times> string \<Rightarrow> response \<Rightarrow> response" where
  "streamHeader h r =
     (if strcasecmp_eq (fst h) ''Content-Type'' then setContentTypeString (snd h) r
      else addHeader (fst h) (snd h) r)"

definition streamResponse :: "string \<Rightarrow> (string \<times> string) list \<Rightarrow> response" where
  "streamResponse content_type hdrs =
     fold streamHeader hdrs (setContentTypeString content_type (setStatusCode 200 newAsyncStreamResponse))"

text \<open>
  \<open>conn\<close> is what \<^verbatim>\<open>connection.lock()\<close> gives: \<open>None\<close> when the connection object is gone, otherwise
  whether the connection is still up. \<open>respond\<close> is Drogon's response callback, as the pair it will
  pass to \<^verbatim>\<open>sendResponse\<close>. The first component of the result is the response handed to it.
\<close>

definition startStreamSession ::
  "(response \<Rightarrow> response \<times> bool) \<Rightarrow> sexp \<Rightarrow> sexp \<Rightarrow> string \<Rightarrow> (string \<times> string) list \<Rightarrow> bool option
    \<Rightarrow> rdouble \<Rightarrow> streams \<Rightarrow> response \<times> streams" where
  "startStreamSession respond next_chunk state content_type hdrs conn min_interval s =
     (let sid = g_nextStreamId s;
          resp = streamResponse content_type hdrs;
          sess = \<lparr>ss_next_chunk = Some next_chunk,
                  ss_state = (if state = NilSXP then None else Some state),
                  ss_stream = False, ss_loop = False, ss_closing = False,
                  ss_cancelled = (conn = None),
                  ss_min_interval = positive_or_zero min_interval,
                  ss_rs = newResponseStream (conn = Some True), ss_tasks = [],
                  ss_resp = respond resp, ss_undelivered = True,
                  ss_hooked = (conn \<noteq> None), ss_calls = []\<rparr>;
          p1 = preserve next_chunk (st_preserved s);
          p2 = (if state = NilSXP then p1 else preserve state p1)
      in (resp, scheduleNextPump sid (emplaceSession sess (s\<lparr>st_preserved := p2\<rparr>))))"

text \<open>
  \<^verbatim>\<open>clearAllStreamSessions\<close>, after the event loops have been quit and joined: no queued function runs
  any more and every connection is closed (\<open>joinLoops\<close>).
\<close>

definition joinLoops :: "streams \<Rightarrow> streams" where
  "joinLoops s =
     s\<lparr>st_heap := (\<lambda>i. map_option (\<lambda>ss. ss\<lparr>ss_tasks := [], ss_undelivered := False,
         ss_rs := (ss_rs ss)\<lparr>rs_connected := False\<rparr>\<rparr>) (st_heap s i))\<rparr>"

definition dropSession :: "uint64 \<Rightarrow> streams \<Rightarrow> streams" where
  "dropSession sid s =
     releaseSEXPs sid (withSession sid (\<lambda>ss. ss\<lparr>ss_closing := True, ss_stream := False,
       ss_rs := (if ss_stream ss then ResponseStream_close (ss_rs ss) else ss_rs ss)\<rparr>) s)"

definition clearAllStreamSessions :: "streams \<Rightarrow> streams" where
  "clearAllStreamSessions s = fold dropSession (g_streams s) (s\<lparr>g_streams := []\<rparr>)"

section \<open>The event loop\<close>

text \<open>The async-stream callback, and the functions the main thread queued.\<close>

definition streamCallback :: "stream_session \<Rightarrow> stream_session" where
  "streamCallback ss = ss\<lparr>ss_loop := True, ss_stream := True, ss_undelivered := False\<rparr>"

fun runLoopTask :: "loop_task \<Rightarrow> stream_session \<Rightarrow> stream_session" where
  "runLoopTask (SendTask data) ss =
     (if \<not> ss_stream ss then ss
      else
        let (ok, rs) = ResponseStream_send data (ss_rs ss)
        in ss\<lparr>ss_rs := rs, ss_cancelled := ss_cancelled ss \<or> \<not> ok\<rparr>)"
| "runLoopTask CloseTask ss =
     (if ss_stream ss then ss\<lparr>ss_rs := ResponseStream_close (ss_rs ss), ss_stream := False\<rparr> else ss)"

text \<open>The connection goes down; the user-close callback, where installed, sets \<^verbatim>\<open>cancelled\<close>.\<close>

definition userClose :: "stream_session \<Rightarrow> stream_session" where
  "userClose ss =
     ss\<lparr>ss_rs := (ss_rs ss)\<lparr>rs_connected := False\<rparr>, ss_cancelled := ss_cancelled ss \<or> ss_hooked ss\<rparr>"

section \<open>Interleavings\<close>

text \<open>
  One step of the main thread (a start from the dispatcher, a pump that \<^verbatim>\<open>later\<close> fires, the stop) or of
  an event loop (the callback with the stream, one queued function, a disconnect), in any order.
  Drogon runs the callback only on a live connection and only when \<^verbatim>\<open>sendResponse\<close> delivers a stream
  for the response. A start is assumed not to wrap the 64-bit id counter.
\<close>

inductive stream_step ::
  "'w evaluator \<Rightarrow> 'w \<times> streams \<Rightarrow> 'w \<times> streams \<Rightarrow> bool" for reval where
  start: "g_nextStreamId s \<noteq> - 1 \<Longrightarrow>
     stream_step reval (w, s) (w', snd (startStreamSession respond f st ct hdrs conn iv s))"
| pump: "(sid, secs) \<in> set (st_later s) \<Longrightarrow>
     pumpStreamMain reval sid (w, s\<lparr>st_later := remove1 (sid, secs) (st_later s)\<rparr>) = Some r \<Longrightarrow>
     stream_step reval (w, s) r"
| deliver: "st_heap s sid = Some ss \<Longrightarrow> ss_undelivered ss \<Longrightarrow> rs_connected (ss_rs ss) \<Longrightarrow>
     DeliverStream \<in> set (sendResponse srv date (ss_resp ss)) \<Longrightarrow>
     stream_step reval (w, s) (w, withSession sid streamCallback s)"
| loop: "st_heap s sid = Some ss \<Longrightarrow> ss_tasks ss = t # ts \<Longrightarrow>
     stream_step reval (w, s) (w, withSession sid (\<lambda>ss. runLoopTask t (ss\<lparr>ss_tasks := ts\<rparr>)) s)"
| disconnect: "st_heap s sid = Some ss \<Longrightarrow> rs_connected (ss_rs ss) \<Longrightarrow>
     stream_step reval (w, s) (w, withSession sid userClose s)"
| stop: "stream_step reval (w, s) (w, clearAllStreamSessions (joinLoops s))"

definition streams_init :: "streams \<Rightarrow> bool" where
  "streams_init s \<longleftrightarrow> g_streams s = [] \<and> st_heap s = (\<lambda>_. None) \<and> st_later s = [] \<and> g_later s"

inductive stream_reachable :: "'w evaluator \<Rightarrow> preserved \<Rightarrow> 'w \<times> streams \<Rightarrow> bool" for reval p0 where
  init: "streams_init s \<Longrightarrow> st_preserved s = p0 \<Longrightarrow> stream_reachable reval p0 (w, s)"
| step: "stream_reachable reval p0 x \<Longrightarrow> stream_step reval x y \<Longrightarrow> stream_reachable reval p0 y"

section \<open>What a session has put out\<close>

text \<open>
  The specification of a stream, from the history of generator calls alone: the chunks it has
  produced, and whether a call was its last.
\<close>

fun produced_by :: "bool \<times> sexp option \<Rightarrow> string list" where
  "produced_by (was_cancelled, Some v) =
     (let chunk = chunk_field (namedField v ''chunk'')
      in if is_list v \<and> \<not> was_cancelled \<and> chunk \<noteq> [] then [chunk] else [])"
| "produced_by (_, None) = []"

fun last_call :: "bool \<times> sexp option \<Rightarrow> bool" where
  "last_call (was_cancelled, Some v) \<longleftrightarrow> was_cancelled \<or> \<not> is_list v \<or> done_field (namedField v ''done'')"
| "last_call (_, None) \<longleftrightarrow> True"

lemma produced_by_nonempty: "[] \<notin> set (produced_by c)"
  by (cases c rule: produced_by.cases) (auto simp: Let_def)

definition produced :: "stream_session \<Rightarrow> string list" where
  "produced ss = concat (map produced_by (ss_calls ss))"

definition stream_bytes :: "stream_session \<Rightarrow> string" where
  "stream_bytes ss =
     concat (map chunk_frame (produced ss)) @ (if ss_closing ss then closeStream else [])"

fun task_bytes :: "loop_task \<Rightarrow> string" where
  "task_bytes (SendTask d) = chunk_frame d"
| "task_bytes CloseTask = closeStream"

definition pending_bytes :: "stream_session \<Rightarrow> string" where
  "pending_bytes ss = concat (map task_bytes (ss_tasks ss))"

definition out_ok :: "stream_session \<Rightarrow> bool" where
  "out_ok ss \<longleftrightarrow>
     prefix (rs_wire (ss_rs ss)) (stream_bytes ss)
     \<and> (rs_connected (ss_rs ss) \<longrightarrow> rs_wire (ss_rs ss) @ pending_bytes ss = stream_bytes ss)"

section \<open>The invariant\<close>

definition pumps :: "streams \<Rightarrow> uint64 \<Rightarrow> nat" where
  "pumps s sid = length (filter (\<lambda>e. fst e = sid) (st_later s))"

fun held_opt :: "sexp option \<Rightarrow> preserved" where
  "held_opt None = {#}"
| "held_opt (Some x) = {#x#}"

definition held :: "stream_session option \<Rightarrow> preserved" where
  "held x = (case x of None \<Rightarrow> {#} | Some ss \<Rightarrow> held_opt (ss_next_chunk ss) + held_opt (ss_state ss))"

definition held_all :: "streams \<Rightarrow> preserved" where
  "held_all s = sum_list (map (\<lambda>i. held (st_heap s i)) (g_streams s))"

definition sess_ok :: "bool \<Rightarrow> stream_session \<Rightarrow> bool" where
  "sess_ok live ss \<longleftrightarrow>
     (if live then \<not> ss_closing ss \<and> ss_next_chunk ss \<noteq> None \<and> CloseTask \<notin> set (ss_tasks ss)
                   \<and> list_all (\<lambda>c. \<not> last_call c) (ss_calls ss)
      else ss_closing ss \<and> ss_next_chunk ss = None \<and> ss_state ss = None \<and> \<not> ss_undelivered ss)
     \<and> (ss_stream ss \<longrightarrow> ss_loop ss \<and> rs_async (ss_rs ss) \<and> \<not> ss_undelivered ss)
     \<and> (ss_tasks ss \<noteq> [] \<longrightarrow> ss_stream ss)
     \<and> CloseTask \<notin> set (butlast (ss_tasks ss))
     \<and> list_all (\<lambda>c. \<not> last_call c) (butlast (ss_calls ss))
     \<and> (\<not> ss_stream ss \<and> live \<longrightarrow> ss_calls ss = [] \<and> rs_wire (ss_rs ss) = [] \<and> rs_async (ss_rs ss))
     \<and> out_ok ss"

definition stream_inv :: "preserved \<Rightarrow> streams \<Rightarrow> bool" where
  "stream_inv p0 s \<longleftrightarrow>
     g_later s \<and> distinct (g_streams s) \<and> (\<forall>i \<in> set (g_streams s). st_heap s i \<noteq> None)
     \<and> (\<forall>i ss. st_heap s i = Some ss \<longrightarrow> i < g_nextStreamId s \<and> sess_ok (i \<in> set (g_streams s)) ss)
     \<and> (\<forall>i \<in> set (g_streams s). pumps s i = 1)
     \<and> (\<forall>i. \<not> i < g_nextStreamId s \<longrightarrow> pumps s i = 0)
     \<and> st_preserved s = p0 + held_all s"

interpretation st: id_table findSession g_nextStreamId emplaceSession eraseSession
  by unfold_locales (auto simp: findSession_def emplaceSession_def eraseSession_def)

lemma release_opt_held: "release_opt x p = p - held_opt x"
  by (cases x) auto

text \<open>The session after a pump that called the generator.\<close>

definition next_state :: "sexp option \<Rightarrow> sexp option \<Rightarrow> sexp option" where
  "next_state r old =
     (case r of
        Some v \<Rightarrow> if is_list v \<and> namedField v ''state'' \<noteq> NilSXP then Some (namedField v ''state'') else old
      | None \<Rightarrow> old)"

definition pumped :: "sexp option \<Rightarrow> stream_session \<Rightarrow> stream_session" where
  "pumped r ss =
     (let c = ss_cancelled ss; fin = last_call (c, r)
      in ss\<lparr>ss_calls := ss_calls ss @ [(c, r)],
            ss_tasks := ss_tasks ss @ map SendTask (produced_by (c, r)) @ (if fin then [CloseTask] else []),
            ss_closing := fin,
            ss_next_chunk := (if fin then None else ss_next_chunk ss),
            ss_state := (if fin then None else next_state r (ss_state ss))\<rparr>)"

definition pump_done :: "uint64 \<Rightarrow> sexp option \<Rightarrow> stream_session \<Rightarrow> streams \<Rightarrow> streams" where
  "pump_done sid r ss s =
     (let fin = last_call (ss_cancelled ss, r)
      in s\<lparr>g_streams := (if fin then filter (\<lambda>i. i \<noteq> sid) (g_streams s) else g_streams s),
           st_later := st_later s @ (if fin then [] else [(sid, ss_min_interval ss)]),
           st_heap := (st_heap s)(sid \<mapsto> pumped r ss),
           st_preserved := st_preserved s - held (Some ss) + held (Some (pumped r ss))\<rparr>)"

lemmas stream_defs =
  findSession_def eraseSession_def withSession_def releaseSEXPs_def scheduleNextPump_def
  queueInLoop_def sendChunkInLoop_def closeStreamFromMain_def updateState_def

lemma pump_effect:
  assumes "sid \<in> set (g_streams s)" and "st_heap s sid = Some ss" and "\<not> ss_closing ss" and "ss_stream ss"
    and "ss_loop ss" and "ss_next_chunk ss = Some f" and "g_later s" and "st_preserved s = p + held (Some ss)"
    and "reval w f [ss_state ss, Some (LGLSXP no_attr [if ss_cancelled ss then 1 else 0])] = (r, w1)"
  shows "pumpStreamMain reval sid (w, s) = Some (w1, pump_done sid r ss s)"
proof (cases r)
  case None
  with assms show ?thesis
    by (cases ss, cases s) (simp add: pumpStreamMain_def stream_defs pump_done_def pumped_def held_def
        release_opt_held)
next
  case (Some v)
  show ?thesis
  proof (cases "is_list v")
    case False
    with assms Some show ?thesis
      by (cases ss, cases s) (simp add: pumpStreamMain_def stream_defs pump_done_def pumped_def held_def
          release_opt_held)
  next
    case True
    with assms Some show ?thesis
      by (cases ss, cases s)
        (auto simp: pumpStreamMain_def pumpResult_def stream_defs pump_done_def pumped_def held_def
          release_opt_held next_state_def Let_def)
  qed
qed

section \<open>Every step keeps the invariant\<close>

lemma held_all_erase:
  "distinct xs \<Longrightarrow> i \<in> set xs \<Longrightarrow>
     sum_list (map h xs) = h i + sum_list (map h (filter (\<lambda>j. j \<noteq> i) xs))" for h :: "'i \<Rightarrow> preserved"
proof (induction xs)
  case (Cons x xs)
  have "filter (\<lambda>j. j \<noteq> i) xs = xs" if "i \<notin> set xs" using that by (intro filter_True) auto
  with Cons show ?case by (cases "x = i") (auto simp: ac_simps)
qed simp

lemma held_upd:
  "i \<notin> set xs \<Longrightarrow> sum_list (map (\<lambda>j. held ((h(i := x)) j)) xs) = sum_list (map (\<lambda>j. held (h j)) xs)"
  by (rule arg_cong [where f = sum_list], rule map_cong) auto

lemma held_all_update:
  assumes "distinct (g_streams s)" and "i \<in> set (g_streams s)"
  shows "held_all (s\<lparr>st_heap := (st_heap s)(i := x)\<rparr>) + held (st_heap s i) = held_all s + held x"
proof -
  let ?h = "\<lambda>j. held (st_heap s j)" and ?k = "\<lambda>j. held (((st_heap s)(i := x)) j)"
  have "map ?k (filter (\<lambda>j. j \<noteq> i) (g_streams s)) = map ?h (filter (\<lambda>j. j \<noteq> i) (g_streams s))" by simp
  with held_all_erase [OF assms, of ?h] held_all_erase [OF assms, of ?k] show ?thesis
    by (simp add: held_all_def ac_simps del: fun_upd_apply) simp
qed

lemma held_all_fresh:
  "i \<notin> set (g_streams s) \<Longrightarrow> held_all (s\<lparr>st_heap := (st_heap s)(i := x)\<rparr>) = held_all s"
  by (auto simp: held_all_def intro!: arg_cong [where f = sum_list] map_cong)

lemma held_all_frame [simp]:
  "held_all (s\<lparr>st_later := l\<rparr>) = held_all s" "held_all (s\<lparr>st_preserved := p\<rparr>) = held_all s"
  by (simp_all add: held_all_def)

lemma inv_session:
  "stream_inv p0 s \<Longrightarrow> st_heap s i = Some ss \<Longrightarrow> sess_ok (i \<in> set (g_streams s)) ss"
  by (simp add: stream_inv_def)

lemma inv_live:
  "stream_inv p0 s \<Longrightarrow> i \<in> set (g_streams s) \<Longrightarrow> \<exists>ss. st_heap s i = Some ss \<and> sess_ok True ss"
  by (fastforce simp: stream_inv_def)

text \<open>The event loop changes one session and holds on to the same R objects.\<close>

lemma inv_update:
  assumes inv: "stream_inv p0 s" and heap: "st_heap s sid = Some ss"
    and ok: "sess_ok (sid \<in> set (g_streams s)) (f ss)" and same: "held (Some (f ss)) = held (Some ss)"
  shows "stream_inv p0 (withSession sid f s)"
proof -
  have "held_all (withSession sid f s) = held_all s"
    using inv heap same held_all_update [of s sid "Some (f ss)"] held_all_fresh [of sid s "Some (f ss)"]
    by (cases "sid \<in> set (g_streams s)") (auto simp: stream_inv_def withSession_def)
  with inv heap ok show ?thesis
    by (auto simp: stream_inv_def withSession_def pumps_def)
qed

lemma sess_ok_deliver:
  "sess_ok live ss \<Longrightarrow> ss_undelivered ss \<Longrightarrow> sess_ok live (streamCallback ss)"
  by (auto simp: sess_ok_def streamCallback_def out_ok_def stream_bytes_def produced_def pending_bytes_def
      split: if_splits)

lemma sess_ok_userClose: "sess_ok live ss \<Longrightarrow> sess_ok live (userClose ss)"
  by (auto simp: sess_ok_def userClose_def out_ok_def stream_bytes_def produced_def split: if_splits)

lemma sess_ok_send:
  assumes "sess_ok live ss" and "ss_tasks ss = SendTask d # ts"
  shows "sess_ok live (runLoopTask (SendTask d) (ss\<lparr>ss_tasks := ts\<rparr>))"
  using assms
  by (cases "ts = []")
    (auto simp: sess_ok_def rstream_defs out_ok_def stream_bytes_def produced_def pending_bytes_def
      prefix_def split: if_splits)

lemma sess_ok_close:
  assumes "sess_ok live ss" and "ss_tasks ss = CloseTask # ts"
  shows "sess_ok live (runLoopTask CloseTask (ss\<lparr>ss_tasks := ts\<rparr>))"
  using assms
  by (cases "ts = []")
    (auto simp: sess_ok_def rstream_defs out_ok_def stream_bytes_def produced_def pending_bytes_def
      prefix_def split: if_splits)

lemma sess_ok_task:
  "sess_ok live ss \<Longrightarrow> ss_tasks ss = t # ts \<Longrightarrow> sess_ok live (runLoopTask t (ss\<lparr>ss_tasks := ts\<rparr>))"
  by (cases t) (auto intro: sess_ok_send sess_ok_close simp del: runLoopTask.simps)

lemma held_loop:
  "held (Some (streamCallback ss)) = held (Some ss)" "held (Some (userClose ss)) = held (Some ss)"
  "held (Some (runLoopTask t (ss\<lparr>ss_tasks := ts\<rparr>))) = held (Some ss)"
  by (cases t; auto simp: held_def streamCallback_def userClose_def split: prod.splits)+

text \<open>Pumps come and go in \<^verbatim>\<open>later\<close>'s queue.\<close>

lemma pumps_remove:
  "(sid, secs) \<in> set (st_later s) \<Longrightarrow>
     pumps (s\<lparr>st_later := remove1 (sid, secs) (st_later s)\<rparr>) i = pumps s i - (if i = sid then 1 else 0)"
  by (auto simp: pumps_def filter_remove1 length_remove1)

lemma pumps_pos: "(sid, secs) \<in> set (st_later s) \<Longrightarrow> 0 < pumps s sid"
  by (force simp: pumps_def filter_empty_conv)

lemma pumps_pushed: "pumps (s\<lparr>st_later := st_later s @ [(sid, secs)]\<rparr>) i = pumps s i + (if i = sid then 1 else 0)"
  by (simp add: pumps_def)

lemma pumps_frame [simp]:
  "pumps (s\<lparr>st_heap := h\<rparr>) i = pumps s i" "pumps (s\<lparr>st_preserved := p\<rparr>) i = pumps s i"
  "pumps (s\<lparr>g_streams := l\<rparr>) i = pumps s i"
  by (simp_all add: pumps_def)

lemma inv_start:
  assumes inv: "stream_inv p0 s" and nowrap: "g_nextStreamId s \<noteq> - 1"
  shows "stream_inv p0 (snd (startStreamSession respond f st ct hdrs conn iv s))"
proof -
  let ?i = "g_nextStreamId s"
  have fresh: "st_heap s ?i = None" "?i \<notin> set (g_streams s)"
    using inv by (cases "st_heap s ?i"; fastforce simp: stream_inv_def)+
  have others: "held_all (s\<lparr>st_heap := (st_heap s)(?i := x)\<rparr>) = held_all s" for x
    by (rule held_all_fresh) (rule fresh)
  show ?thesis
    using inv fresh nowrap others
    by (auto simp: stream_inv_def startStreamSession_def emplaceSession_def scheduleNextPump_def
        findSession_def Let_def pumps_def held_all_def word_less_inc sess_ok_def out_ok_def
        newResponseStream_def pending_bytes_def stream_bytes_def produced_def held_def)
qed

lemma sess_ok_pumped:
  assumes "sess_ok True ss" and "ss_stream ss"
  shows "sess_ok (\<not> last_call (ss_cancelled ss, r)) (pumped r ss)"
proof -
  have o: "out_ok (pumped r ss)"
    using assms by (auto simp: sess_ok_def out_ok_def pumped_def Let_def stream_bytes_def produced_def
        pending_bytes_def comp_def prefix_def)
  then show ?thesis
    using assms by (cases r)
      (auto simp: sess_ok_def pumped_def Let_def butlast_append list_all_iff dest: in_set_butlastD)
qed

lemma inv_pump_done:
  assumes inv: "stream_inv p0 s" and pend: "(sid, secs) \<in> set (st_later s)"
    and live: "sid \<in> set (g_streams s)" and heap: "st_heap s sid = Some ss" and ready: "ss_stream ss"
  shows "stream_inv p0 (pump_done sid r ss (s\<lparr>st_later := remove1 (sid, secs) (st_later s)\<rparr>))"
    (is "stream_inv p0 ?t")
proof -
  let ?fin = "last_call (ss_cancelled ss, r)" and ?rest = "filter (\<lambda>j. j \<noteq> sid) (g_streams s)"
  let ?R = "sum_list (map (\<lambda>j. held (st_heap s j)) ?rest)"
  have dist: "distinct (g_streams s)" using inv by (simp add: stream_inv_def)
  have sess: "sess_ok True ss" using inv_session [OF inv heap] live by simp
  have all: "held_all s = held (Some ss) + ?R"
    using held_all_erase [OF dist live, of "\<lambda>j. held (st_heap s j)"] heap by (simp add: held_all_def)
  have rest: "sum_list (map (\<lambda>j. held (((st_heap s)(sid \<mapsto> pumped r ss)) j)) ?rest) = ?R"
    by (rule held_upd) simp
  have "held_all ?t = held (Some (pumped r ss)) + ?R"
  proof (cases ?fin)
    case True
    then have "held (Some (pumped r ss)) = {#}" by (simp add: held_def pumped_def Let_def)
    with True rest show ?thesis by (simp add: held_all_def pump_done_def del: fun_upd_apply)
  next
    case False
    then show ?thesis
      using rest held_all_erase [OF dist live, of "\<lambda>j. held (((st_heap s)(sid \<mapsto> pumped r ss)) j)"]
      by (simp add: held_all_def pump_done_def del: fun_upd_apply) simp
  qed
  moreover have "st_preserved s = p0 + held_all s" using inv by (simp add: stream_inv_def)
  moreover have "st_preserved ?t = st_preserved s - held (Some ss) + held (Some (pumped r ss))"
    by (simp add: pump_done_def Let_def)
  ultimately have "st_preserved ?t = p0 + held_all ?t"
    using all by (simp add: ac_simps)
  moreover have "pumps ?t i = (if i = sid \<and> ?fin then 0 else pumps s i)" for i
    using pumps_remove [OF pend, of i] inv live by (auto simp: pumps_def pump_done_def Let_def stream_inv_def)
  ultimately show ?thesis
    using inv heap live sess_ok_pumped [OF sess ready, of r]
    by (auto simp: stream_inv_def pump_done_def Let_def split: if_splits)
qed

lemma pump_ready:
  assumes inv: "stream_inv p0 s" and pend: "(sid, secs) \<in> set (st_later s)"
    and live: "sid \<in> set (g_streams s)" and heap: "st_heap s sid = Some ss" and ready: "ss_stream ss"
  shows "\<exists>r w1. pumpStreamMain reval sid (w, s\<lparr>st_later := remove1 (sid, secs) (st_later s)\<rparr>)
           = Some (w1, pump_done sid r ss (s\<lparr>st_later := remove1 (sid, secs) (st_later s)\<rparr>))"
proof -
  have sess: "sess_ok True ss" using inv_session [OF inv heap] live by simp
  then obtain f where f: "ss_next_chunk ss = Some f" by (auto simp: sess_ok_def)
  obtain r w1 where e: "reval w f [ss_state ss, Some (LGLSXP no_attr [if ss_cancelled ss then 1 else 0])] = (r, w1)"
    by fastforce
  have "distinct (g_streams s)" and "st_preserved s = p0 + held_all s" and "g_later s"
    using inv by (auto simp: stream_inv_def)
  then have "\<exists>p. st_preserved s = p + held (Some ss)" and "g_later s"
    using held_all_erase [of "g_streams s" sid "\<lambda>j. held (st_heap s j)"] live heap
    by (auto simp: held_all_def ac_simps)
  then obtain p where "st_preserved s = p + held (Some ss)" and "g_later s" by blast
  with pump_effect [of sid "s\<lparr>st_later := remove1 (sid, secs) (st_later s)\<rparr>" ss f p reval w r w1]
    live heap ready f e sess show ?thesis by (auto simp: sess_ok_def)
qed

text \<open>A pump that finds no session, or one whose stream is not there yet.\<close>

lemma pump_idle:
  assumes "stream_inv p0 s" and "(sid, secs) \<in> set (st_later s)"
    and idle: "sid \<notin> set (g_streams s) \<or> (\<exists>ss. st_heap s sid = Some ss \<and> \<not> ss_stream ss)"
  shows "\<exists>t. pumpStreamMain reval sid (w, s\<lparr>st_later := remove1 (sid, secs) (st_later s)\<rparr>) = Some (w, t)
           \<and> stream_inv p0 t \<and> st_heap t = st_heap s \<and> g_streams t = g_streams s"
proof (cases "sid \<in> set (g_streams s)")
  case False
  then have "pumpStreamMain reval sid (w, s\<lparr>st_later := remove1 (sid, secs) (st_later s)\<rparr>)
      = Some (w, s\<lparr>st_later := remove1 (sid, secs) (st_later s)\<rparr>)"
    by (simp add: pumpStreamMain_def findSession_def)
  with False assms show ?thesis
    using pumps_remove [OF assms(2)] by (auto simp: stream_inv_def)
next
  case True
  with idle obtain ss where ss: "st_heap s sid = Some ss" "\<not> ss_stream ss" by auto
  with inv_session [OF assms(1) ss(1)] True have "\<not> ss_closing ss" by (simp add: sess_ok_def)
  with True ss assms(1) have "pumpStreamMain reval sid (w, s\<lparr>st_later := remove1 (sid, secs) (st_later s)\<rparr>)
      = Some (w, s\<lparr>st_later := remove1 (sid, secs) (st_later s) @ [(sid, ss_min_interval ss)]\<rparr>)"
    by (simp add: pumpStreamMain_def findSession_def scheduleNextPump_def Let_def stream_inv_def)
  moreover have "pumps (s\<lparr>st_later := remove1 (sid, secs) (st_later s) @ [(sid, ss_min_interval ss)]\<rparr>) i = pumps s i" for i
    using pumps_remove [OF assms(2), of i] pumps_pos [OF assms(2)] by (auto simp: pumps_def)
  ultimately show ?thesis
    using assms(1) by (auto simp: stream_inv_def held_all_def)
qed

lemma inv_pump:
  assumes inv: "stream_inv p0 s" and pend: "(sid, secs) \<in> set (st_later s)"
  shows "\<exists>w1 t. pumpStreamMain reval sid (w, s\<lparr>st_later := remove1 (sid, secs) (st_later s)\<rparr>) = Some (w1, t)
           \<and> stream_inv p0 t"
proof (cases "sid \<notin> set (g_streams s) \<or> (\<exists>ss. st_heap s sid = Some ss \<and> \<not> ss_stream ss)")
  case True
  from pump_idle [OF inv pend this, of reval w] show ?thesis by blast
next
  case False
  then obtain ss where live: "sid \<in> set (g_streams s)" and heap: "st_heap s sid = Some ss" and "ss_stream ss"
    using inv_live [OF inv, of sid] by auto
  from pump_ready [OF inv pend this, of reval w] inv_pump_done [OF inv pend this] show ?thesis by blast
qed

text \<open>The stop.\<close>

definition dropped :: "stream_session \<Rightarrow> stream_session" where
  "dropped ss = ss\<lparr>ss_closing := True, ss_stream := False, ss_next_chunk := None, ss_state := None,
     ss_rs := (if ss_stream ss then ResponseStream_close (ss_rs ss) else ss_rs ss)\<rparr>"

lemma dropSession_eq:
  "st_heap s i = Some ss \<Longrightarrow>
     dropSession i s = s\<lparr>st_heap := (st_heap s)(i \<mapsto> dropped ss), st_preserved := st_preserved s - held (Some ss)\<rparr>"
  by (cases s, cases ss) (simp add: dropSession_def releaseSEXPs_def withSession_def release_opt_held
      held_def dropped_def)

lemma fold_dropSession:
  assumes "distinct xs" and "\<forall>i \<in> set xs. st_heap s i \<noteq> None"
    and "st_preserved s = p + sum_list (map (\<lambda>i. held (st_heap s i)) xs)"
  shows "fold dropSession xs s =
     s\<lparr>st_heap := (\<lambda>i. if i \<in> set xs then map_option dropped (st_heap s i) else st_heap s i),
       st_preserved := p\<rparr>"
  using assms
proof (induction xs arbitrary: s)
  case (Cons i xs)
  then obtain ss where ss: "st_heap s i = Some ss" by auto
  let ?s = "s\<lparr>st_heap := (st_heap s)(i \<mapsto> dropped ss), st_preserved := st_preserved s - held (Some ss)\<rparr>"
  have "sum_list (map (\<lambda>j. held (st_heap ?s j)) xs) = sum_list (map (\<lambda>j. held (st_heap s j)) xs)"
    using held_upd [of i xs] Cons.prems(1) by (simp del: fun_upd_apply)
  then have "st_preserved ?s = p + sum_list (map (\<lambda>j. held (st_heap ?s j)) xs)"
    using Cons.prems(3) ss by (simp del: fun_upd_apply)
  with Cons.IH [of ?s] Cons.prems show ?case
    using ss by (cases s) (auto simp: dropSession_eq)
qed (cases s, simp)

lemma out_ok_down: "out_ok ss \<Longrightarrow> out_ok (ss\<lparr>ss_tasks := [], ss_undelivered := u, ss_rs := (ss_rs ss)\<lparr>rs_connected := False\<rparr>\<rparr>)"
  by (simp add: out_ok_def stream_bytes_def produced_def)

lemma sess_ok_stopped:
  assumes "sess_ok live ss"
  defines "ss' \<equiv> ss\<lparr>ss_tasks := [], ss_undelivered := False, ss_rs := (ss_rs ss)\<lparr>rs_connected := False\<rparr>\<rparr>"
  shows "sess_ok False (if live then dropped ss' else ss')"
proof (cases live)
  case True
  with assms show ?thesis
    by (auto simp: sess_ok_def dropped_def out_ok_def stream_bytes_def produced_def prefix_def rstream_defs)
next
  case False
  with assms out_ok_down [of ss False] show ?thesis by (simp add: sess_ok_def)
qed

lemma inv_stop:
  assumes inv: "stream_inv p0 s"
  shows "stream_inv p0 (clearAllStreamSessions (joinLoops s))"
proof -
  let ?j = "\<lambda>ss. ss\<lparr>ss_tasks := [], ss_undelivered := False, ss_rs := (ss_rs ss)\<lparr>rs_connected := False\<rparr>\<rparr>"
  let ?s = "(joinLoops s)\<lparr>g_streams := []\<rparr>"
  have h: "held (map_option ?j x) = held x" for x by (cases x) (simp_all add: held_def)
  have "st_preserved ?s = p0 + sum_list (map (\<lambda>i. held (st_heap ?s i)) (g_streams s))"
    using inv by (simp add: stream_inv_def joinLoops_def held_all_def h)
  with inv have "clearAllStreamSessions (joinLoops s) =
      ?s\<lparr>st_heap := (\<lambda>i. if i \<in> set (g_streams s) then map_option dropped (st_heap ?s i) else st_heap ?s i),
         st_preserved := p0\<rparr>"
    unfolding clearAllStreamSessions_def
    by (subst fold_dropSession [where p = p0]) (auto simp: joinLoops_def stream_inv_def)
  moreover have "sess_ok False (dropped (?j ss))" if "i \<in> set (g_streams s)" "st_heap s i = Some ss" for i ss
    using sess_ok_stopped [OF inv_session [OF inv that(2)]] that(1) by simp
  moreover have "sess_ok False (?j ss)" if "i \<notin> set (g_streams s)" "st_heap s i = Some ss" for i ss
    using sess_ok_stopped [OF inv_session [OF inv that(2)]] that(1) by simp
  ultimately show ?thesis
    using inv by (auto simp: stream_inv_def joinLoops_def held_all_def pumps_def)
qed

lemma stream_step_inv: "stream_step reval x y \<Longrightarrow> stream_inv p0 (snd x) \<Longrightarrow> stream_inv p0 (snd y)"
proof (induction rule: stream_step.induct)
  case (start s w w' respond f st ct hdrs conn iv)
  then show ?case using inv_start by fastforce
next
  case (pump sid secs s w r)
  with inv_pump [of p0 s sid secs reval w] show ?case by auto
next
  case (deliver s sid ss srv date w)
  then show ?case
    using inv_update [of p0 s sid ss streamCallback] by (simp add: held_loop sess_ok_deliver inv_session)
next
  case (loop s sid ss t ts w)
  then show ?case
    using inv_update [of p0 s sid ss "\<lambda>ss. runLoopTask t (ss\<lparr>ss_tasks := ts\<rparr>)"]
    by (simp add: held_loop sess_ok_task inv_session del: runLoopTask.simps)
next
  case (disconnect s sid ss w)
  then show ?case
    using inv_update [of p0 s sid ss userClose] by (simp add: held_loop sess_ok_userClose inv_session)
next
  case (stop w s)
  then show ?case using inv_stop by simp
qed

lemma stream_reachable_inv: "stream_reachable reval p0 x \<Longrightarrow> stream_inv p0 (snd x)"
proof (induction rule: stream_reachable.induct)
  case (init s w)
  then show ?case by (simp add: streams_init_def stream_inv_def pumps_def held_all_def)
next
  case (step x y)
  then show ?case by (blast intro: stream_step_inv)
qed

section \<open>Streams that Drogon never opens\<close>

text \<open>
  The connection was down before the session started, or \<^verbatim>\<open>sendResponse\<close> delivers no stream for the
  response.
\<close>

definition never_opens :: "stream_session \<Rightarrow> bool" where
  "never_opens ss \<longleftrightarrow> \<not> ss_stream ss \<and> ss_calls ss = []
     \<and> (\<not> rs_connected (ss_rs ss) \<or> (\<forall>srv date. DeliverStream \<notin> set (sendResponse srv date (ss_resp ss))))"

lemma never_opens_stopped:
  "never_opens ss \<Longrightarrow> never_opens (ss\<lparr>ss_tasks := [], ss_undelivered := False, ss_rs := (ss_rs ss)\<lparr>rs_connected := False\<rparr>\<rparr>)"
  "never_opens ss \<Longrightarrow> never_opens (dropped ss)"
  by (auto simp: never_opens_def dropped_def)

lemma st_heap_stop:
  assumes "stream_inv p0 s" and "st_heap s i = Some ss" and "never_opens ss"
  shows "\<exists>ss'. st_heap (clearAllStreamSessions (joinLoops s)) i = Some ss' \<and> never_opens ss'"
proof -
  have keep: "\<exists>ss'. st_heap (fold dropSession xs t) i = Some ss' \<and> never_opens ss'"
    if "st_heap t i = Some ss" "never_opens ss" for xs t ss
    using that
  proof (induction xs arbitrary: t ss)
    case (Cons j xs)
    show ?case
    proof (cases "st_heap t j")
      case None
      with Cons.prems have "st_heap (dropSession j t) i = Some ss"
        by (auto simp: dropSession_def releaseSEXPs_def withSession_def)
      with Cons.IH [of "dropSession j t" ss] Cons.prems(2) show ?thesis by simp
    next
      case (Some sj)
      then have "st_heap (dropSession j t) i = Some (if i = j then dropped ss else ss)"
        using Cons.prems by (auto simp: dropSession_eq)
      with Cons.IH [of "dropSession j t"] Cons.prems(2) never_opens_stopped(2) show ?thesis by simp
    qed
  qed auto
  show ?thesis
    unfolding clearAllStreamSessions_def
    by (rule keep [OF _ never_opens_stopped(1) [OF assms(3)]]) (simp add: joinLoops_def assms(2))
qed

lemma st_heap_pump:
  assumes inv: "stream_inv p0 s" and pend: "(sid, secs) \<in> set (st_later s)"
    and r: "pumpStreamMain reval sid (w, s\<lparr>st_later := remove1 (sid, secs) (st_later s)\<rparr>) = Some r"
    and heap: "st_heap s i = Some ss" and stuck: "never_opens ss"
  shows "st_heap (snd r) i = Some ss"
proof (cases "sid \<notin> set (g_streams s) \<or> (\<exists>ss. st_heap s sid = Some ss \<and> \<not> ss_stream ss)")
  case True
  from pump_idle [OF inv pend this, of reval w] r heap show ?thesis by auto
next
  case False
  then obtain ss' where live: "sid \<in> set (g_streams s)" and heap': "st_heap s sid = Some ss'" and ready: "ss_stream ss'"
    using inv_live [OF inv, of sid] by auto
  from pump_ready [OF inv pend this, of reval w] r obtain x w1
    where "r = (w1, pump_done sid x ss' (s\<lparr>st_later := remove1 (sid, secs) (st_later s)\<rparr>))" by auto
  moreover have "i \<noteq> sid" using heap heap' ready stuck by (auto simp: never_opens_def)
  ultimately show ?thesis using heap by (simp add: pump_done_def Let_def)
qed

lemma never_opens_step:
  assumes "stream_step reval x y" and "stream_inv p0 (snd x)"
    and "\<exists>ss. st_heap (snd x) i = Some ss \<and> never_opens ss"
  shows "\<exists>ss. st_heap (snd y) i = Some ss \<and> never_opens ss"
  using assms
proof (induction rule: stream_step.induct)
  case (start s w w' respond f st ct hdrs conn iv)
  then have "i \<noteq> g_nextStreamId s" by (auto simp: stream_inv_def)
  with start show ?case
    by (auto simp: startStreamSession_def Let_def scheduleNextPump_def emplaceSession_def)
next
  case (pump sid secs s w r)
  with st_heap_pump [of p0 s sid secs reval w r i] show ?case by auto
next
  case (deliver s sid ss srv date w)
  then show ?case by (auto simp: withSession_def never_opens_def)
next
  case (loop s sid ss t ts w)
  then obtain si where si: "st_heap s i = Some si" "never_opens si" by auto
  with inv_session [of p0 s i si] loop.prems have "ss_tasks si = []"
    by (auto simp: sess_ok_def never_opens_def)
  with loop si show ?case by (auto simp: withSession_def)
next
  case (disconnect s sid ss w)
  then show ?case by (auto simp: withSession_def never_opens_def userClose_def)
next
  case (stop w s)
  then show ?case using st_heap_stop by auto
qed

lemma never_opens_steps:
  assumes "(stream_step reval)\<^sup>*\<^sup>* x y" and "stream_inv p0 (snd x)"
    and "\<exists>ss. st_heap (snd x) i = Some ss \<and> never_opens ss"
  shows "stream_inv p0 (snd y) \<and> (\<exists>ss. st_heap (snd y) i = Some ss \<and> never_opens ss)"
  using assms
  by (induction rule: rtranclp_induct) (blast intro: stream_step_inv never_opens_step)+

section \<open>Properties\<close>

text \<open>(C7) Streaming sessions are pumped exactly once at a time and leak nothing.  In every
  interleaving of the main R thread with the event loops: a session in the table has exactly one pump
  waiting; a session out of the table holds no R object; the objects pinned with
  \<^verbatim>\<open>R_PreserveObject\<close> are those pinned before the first stream together with the generator and the
  state of each live session, so none is leaked or released twice; and no pump dereferences a null
  pointer.\<close>

theorem stream_sessions_safe:
  assumes "stream_reachable reval p0 (w, s)"
  shows "(\<forall>i \<in> set (g_streams s). pumps s i = 1)
       \<and> (\<forall>i ss. i \<notin> set (g_streams s) \<longrightarrow> st_heap s i = Some ss \<longrightarrow> held (Some ss) = {#})
       \<and> st_preserved s = p0 + held_all s
       \<and> (\<forall>sid secs. (sid, secs) \<in> set (st_later s) \<longrightarrow>
            pumpStreamMain reval sid (w, s\<lparr>st_later := remove1 (sid, secs) (st_later s)\<rparr>) \<noteq> None)"
proof -
  have inv: "stream_inv p0 s" using stream_reachable_inv [OF assms] by simp
  then have "pumpStreamMain reval sid (w, s\<lparr>st_later := remove1 (sid, secs) (st_later s)\<rparr>) \<noteq> None"
    if "(sid, secs) \<in> set (st_later s)" for sid secs
    using inv_pump [OF inv that, of reval w] by auto
  moreover have "held (Some ss) = {#}" if "i \<notin> set (g_streams s)" "st_heap s i = Some ss" for i ss
    using inv_session [OF inv that(2)] that(1) by (simp add: sess_ok_def held_def)
  ultimately show ?thesis using inv by (auto simp: stream_inv_def)
qed

text \<open>(C8) What a streaming client receives.  At any moment the bytes written for a session are a
  prefix of the chunk frames of what the generator has returned, in order; a session that has ended on
  a connection that stayed up has sent a chunked body that decodes to the concatenation of the
  generator's chunks, with nothing after it; and the generator is not called again after it reported
  \<^verbatim>\<open>done\<close>, failed, returned something other than a list, or was called with \<^verbatim>\<open>cancelled = TRUE\<close>.\<close>

theorem stream_wire_exact:
  assumes "stream_reachable reval p0 (w, s)" and "st_heap s i = Some ss"
  shows "prefix (rs_wire (ss_rs ss)) (concat (map chunk_frame (produced ss)) @ closeStream)
       \<and> (rs_connected (ss_rs ss) \<and> ss_closing ss \<and> ss_tasks ss = [] \<longrightarrow>
            dechunk (rs_wire (ss_rs ss)) = Some (concat (produced ss), []))
       \<and> list_all (\<lambda>c. \<not> last_call c) (butlast (ss_calls ss))"
proof -
  have ok: "sess_ok (i \<in> set (g_streams s)) ss"
    using inv_session [of p0 s i ss] stream_reachable_inv [OF assms(1)] assms(2) by simp
  have ne: "[] \<notin> set (produced ss)"
    by (auto simp: produced_def produced_by_nonempty)
  have "dechunk (rs_wire (ss_rs ss)) = Some (concat (produced ss), [])"
    if "rs_connected (ss_rs ss)" "ss_closing ss" "ss_tasks ss = []"
    using that ok dechunk_frames [OF ne, of "[]"]
    by (simp add: sess_ok_def out_ok_def stream_bytes_def pending_bytes_def)
  moreover have "prefix (rs_wire (ss_rs ss)) (concat (map chunk_frame (produced ss)) @ closeStream)"
    using ok by (auto simp: sess_ok_def out_ok_def stream_bytes_def prefix_def split: if_splits)
  ultimately show ?thesis using ok by (simp add: sess_ok_def)
qed

text \<open>A stream whose client has gone before it opens is never cleaned up.  When the connection is
  already down as the session starts (the peer left while the request was queued, or the weak pointer
  has expired), or when \<^verbatim>\<open>sendResponse\<close> opens no stream for the response (a HEAD request, an HTTP/1.0
  request, \<^verbatim>\<open>Connection: close\<close>), then in every later state the generator has not been called, not
  even with \<^verbatim>\<open>cancelled = TRUE\<close>, and while the session is in the table its pump only re-arms itself.\<close>

lemma unopened_stream_spins:
  assumes "stream_reachable reval p0 (w, s)" and "g_nextStreamId s \<noteq> - 1"
    and "conn \<noteq> Some True
         \<or> (case respond (streamResponse ct hdrs) of (r, isHeadMethod) \<Rightarrow> isHeadMethod \<or> closeConnection r)"
    and "(stream_step reval)\<^sup>*\<^sup>* (w1, snd (startStreamSession respond f st ct hdrs conn iv s)) (w2, u)"
  shows "(\<exists>ss. st_heap u (g_nextStreamId s) = Some ss \<and> ss_calls ss = [])
       \<and> (g_nextStreamId s \<in> set (g_streams u) \<longrightarrow>
            pumpStreamMain reval (g_nextStreamId s) (w2, u) = Some (w2, scheduleNextPump (g_nextStreamId s) u))"
proof -
  let ?t = "snd (startStreamSession respond f st ct hdrs conn iv s)"
  have t: "stream_inv p0 ?t"
    using inv_start [of p0 s] stream_reachable_inv [OF assms(1)] assms(2) by simp
  have "\<exists>ss. st_heap ?t (g_nextStreamId s) = Some ss \<and> never_opens ss"
    using assms(3)
    by (auto simp: startStreamSession_def Let_def scheduleNextPump_def emplaceSession_def never_opens_def
        newResponseStream_def sendResponse_def split: prod.splits)
  from never_opens_steps [OF assms(4), of p0] t this obtain ss
    where inv: "stream_inv p0 u" and ss: "st_heap u (g_nextStreamId s) = Some ss" and no: "never_opens ss"
    by auto
  have "\<not> ss_closing ss" if "g_nextStreamId s \<in> set (g_streams u)"
    using inv_session [OF inv ss] that by (simp add: sess_ok_def)
  with ss no show ?thesis
    by (auto simp: pumpStreamMain_def findSession_def never_opens_def)
qed

text \<open>A stream started with \<^verbatim>\<open>state = NULL\<close>, the default of \<^verbatim>\<open>dr_stream\<close>, passes a null pointer to
  R: \<^verbatim>\<open>sess->state\<close> stays null, and the first pump builds its call from it. With an evaluator that
  records the arguments it is given, whatever it answers, the log after the first pump is one call
  whose first argument is the C null pointer.\<close>

lemma null_state_reaches_evaluator:
  "map_option fst
     (pumpStreamMain (\<lambda>log f args. (answer, log @ [args])) (g_nextStreamId s)
       ([], withSession (g_nextStreamId s) streamCallback
              (snd (startStreamSession respond f NilSXP ct hdrs (Some True) iv s))))
   = Some [[None, Some (LGLSXP no_attr [0])]]"
  by (auto simp: pumpStreamMain_def startStreamSession_def emplaceSession_def streamCallback_def
      pumpResult_def stream_defs Let_def split: option.split)

text \<open>A short run: a generator that returns \<^verbatim>\<open>"hi"\<close> with \<^verbatim>\<open>done = TRUE\<close>.\<close>

definition example_reval :: "nat evaluator" where
  "example_reval w f args =
     (Some (VECSXP \<lparr>a_names = Some [Chr ''chunk'', Chr ''done''], a_class = None\<rparr>
              [STRSXP no_attr [Chr ''hi''], LGLSXP no_attr [1]]), Suc w)"

definition example_streams :: streams where
  "example_streams = \<lparr>g_streams = [], g_nextStreamId = 1, st_heap = (\<lambda>_. None), st_later = [],
     st_preserved = {#}, g_later = True\<rparr>"

definition example_started :: "bool \<Rightarrow> streams" where
  "example_started up = snd (startStreamSession (\<lambda>r. (r, False)) (CLOSXP 1) NilSXP ''text/plain'' []
     (Some up) R_NaN example_streams)"

definition example_open :: streams where
  "example_open = withSession 1 streamCallback (example_started True)"

definition example_pumped :: streams where
  "example_pumped = snd (the (pumpStreamMain example_reval 1 (0, example_open\<lparr>st_later := []\<rparr>)))"

definition example_sent :: streams where
  "example_sent = withSession 1 (\<lambda>ss. runLoopTask (SendTask ''hi'') (ss\<lparr>ss_tasks := [CloseTask]\<rparr>)) example_pumped"

definition example_closed :: streams where
  "example_closed = withSession 1 (\<lambda>ss. runLoopTask CloseTask (ss\<lparr>ss_tasks := []\<rparr>)) example_sent"

lemmas example_stream_defs =
  example_reval_def example_streams_def example_started_def example_open_def example_pumped_def
  example_sent_def example_closed_def pumpStreamMain_def startStreamSession_def emplaceSession_def
  streamCallback_def pumpResult_def chunk_field_def newResponseStream_def Let_def stream_defs rstream_defs

lemma example_init: "stream_reachable example_reval {#} (0, example_streams)"
  by (rule stream_reachable.init) (simp_all add: streams_init_def example_streams_def)

lemma example_started_reachable: "stream_reachable example_reval {#} (0, example_started up)"
  unfolding example_started_def
  by (rule stream_reachable.step [OF example_init], rule stream_step.start) (simp add: example_streams_def)

lemma example_deliver:
  "DeliverStream \<in> set (sendResponse None None (ss_resp (the (st_heap (example_started True) 1))))"
  by (simp add: example_stream_defs sendResponse_def streamResponse_def response_defs contentLengthIsAllowed_def)

lemma example_open_reachable: "stream_reachable example_reval {#} (0, example_open)"
  unfolding example_open_def
  by (rule stream_reachable.step [OF example_started_reachable],
      rule stream_step.deliver [OF _ _ _ example_deliver])
    (simp_all add: example_stream_defs)

lemma example_pumped_reachable: "stream_reachable example_reval {#} (1, example_pumped)"
proof (rule stream_reachable.step [OF example_open_reachable])
  have "(1, Fin (Dbl False 0 0)) \<in> set (st_later example_open)"
    by (simp add: example_stream_defs)
  moreover have "pumpStreamMain example_reval 1
      (0, example_open\<lparr>st_later := remove1 (1, Fin (Dbl False 0 0)) (st_later example_open)\<rparr>) = Some (1, example_pumped)"
    by (simp add: example_stream_defs)
  ultimately show "stream_step example_reval (0, example_open) (1, example_pumped)" by (rule stream_step.pump)
qed

lemma example_closed_reachable: "stream_reachable example_reval {#} (1, example_closed)"
proof -
  have "stream_step example_reval (1, example_pumped) (1, example_sent)"
    unfolding example_sent_def
    by (rule stream_step.loop [where ss = "the (st_heap example_pumped 1)"]) (simp_all add: example_stream_defs)
  moreover have "stream_step example_reval (1, example_sent) (1, example_closed)"
    unfolding example_closed_def
    by (rule stream_step.loop [where ss = "the (st_heap example_sent 1)"]) (simp_all add: example_stream_defs)
  ultimately show ?thesis using example_pumped_reachable by (blast intro: stream_reachable.step)
qed

theorem stream_sessions_safe_witness:
  "g_streams example_open = [1] \<and> pumps example_open 1 = 1 \<and> st_preserved example_open = {#CLOSXP 1#}
   \<and> st_preserved example_open = {#} + held_all example_open"
  using stream_sessions_safe [OF example_open_reachable] by (simp add: example_stream_defs)

theorem stream_wire_exact_witness:
  "dechunk (rs_wire (ss_rs (the (st_heap example_closed 1)))) = Some (''hi'', [])"
proof -
  obtain ss where ss: "st_heap example_closed 1 = Some ss" and c: "rs_connected (ss_rs ss)" "ss_closing ss"
      "ss_tasks ss = []" "produced ss = [''hi'']"
    by (simp add: example_stream_defs produced_def)
  from stream_wire_exact [OF example_closed_reachable ss] c ss show ?thesis by simp
qed

end
