(* ===== verification/Dispatcher.thy ===== *)
theory Dispatcher
  imports StreamSession RequestQueue RateLimits
begin

text \<open>
  \<^verbatim>\<open>src/src/r_dispatcher.cpp\<close> and the handler that \<^verbatim>\<open>installDrogonHandler\<close> in
  \<^verbatim>\<open>src/src/drogon_server.cpp\<close> registers for an R route: the snapshot of a request on the I/O thread
  (rate limits, queue, 503), the conversion of the snapshot to an R list, the call of the R handler on
  the main thread, and the conversion of its value to a response or to a streaming session. R's
  evaluator, the base function \<^verbatim>\<open>geterrmessage\<close> and Drogon's response callback are parameters.
\<close>

section \<open>Routes and request snapshots\<close>

record route =
  rt_method :: string
  rt_path :: string
  rt_regex :: string
  rt_param_names :: "string list"
  rt_handler :: sexp

definition getRoute :: "route list \<Rightarrow> int \<Rightarrow> route option" where
  "getRoute g_routes id' = (if id' < 0 \<or> id' \<ge> int (length g_routes) then None else Some (g_routes ! nat id'))"

text \<open>
  \<^verbatim>\<open>pr.respond\<close> is the token of the request it answers; \<open>pr_connection\<close> is what locking the weak
  pointer will give (\<open>None\<close>: the connection object is gone; otherwise whether it is still connected).
\<close>

record pending_request =
  pr_method :: string
  pr_path :: string
  pr_body :: string
  pr_headers :: "(string \<times> string) list"
  pr_queries :: "(string \<times> string) list"
  pr_path_params :: "string list"
  pr_respond :: nat
  pr_connection :: "bool option"
  pr_route_id :: int

section \<open>Responses\<close>

definition makeErrorResponse :: "string \<Rightarrow> response" where
  "makeErrorResponse reason =
     setBody reason (setContentTypeCode CT_TEXT_PLAIN (setStatusCode 500 newHttpResponse))"

text \<open>The three parts of \<^verbatim>\<open>buildResponse\<close> for a named list.\<close>

fun status_code :: "int \<Rightarrow> sexp \<Rightarrow> int" where
  "status_code ub (INTSXP _ xs) = int_elt0 ub xs"
| "status_code ub (REALSXP _ xs) = double_elt0 ub xs"
| "status_code ub _ = 0"

definition applyStatus :: "int \<Rightarrow> sexp \<Rightarrow> response \<Rightarrow> response" where
  "applyStatus ub s_status r =
     (if s_status = NilSXP then r
      else
        let code = status_code ub s_status
        in if code \<ge> 100 \<and> code \<le> 599 then setStatusCode code r else r)"

fun applyBody :: "sexp \<Rightarrow> response \<Rightarrow> response" where
  "applyBody (STRSXP _ (c # _)) r = setBody (R_CHAR c) r"
| "applyBody (RAWSXP _ bytes) r = setBody bytes r"
| "applyBody _ r = r"

definition applyHeader :: "charsxp \<times> sexp \<Rightarrow> response \<Rightarrow> response" where
  "applyHeader h r =
     (case h of (hname, hv) \<Rightarrow>
        case as_first_string hv of
          None \<Rightarrow> r
        | Some hval \<Rightarrow>
            if strcasecmp_eq (R_CHAR hname) ''Content-Type'' then setContentTypeString hval r
            else addHeader (R_CHAR hname) hval r)"

fun applyHeaders :: "sexp \<Rightarrow> response \<Rightarrow> response" where
  "applyHeaders (VECSXP a hvs) r =
     (case a_names a of None \<Rightarrow> r | Some hnames \<Rightarrow> fold applyHeader (zip hnames hvs) r)"
| "applyHeaders _ r = r"

definition buildResponse :: "int \<Rightarrow> sexp \<Rightarrow> response" where
  "buildResponse ub r_value =
     (let resp = setStatusCode 200 newHttpResponse
      in case as_one_string r_value of
           Some s \<Rightarrow> setContentTypeCode CT_TEXT_PLAIN (setBody s resp)
         | None \<Rightarrow>
             (case r_value of
                VECSXP a vals \<Rightarrow>
                  (case a_names a of
                     None \<Rightarrow> makeErrorResponse ''R handler returned an unnamed list''
                   | Some names \<Rightarrow>
                       applyHeaders (last_named ''headers'' names vals NilSXP)
                         (applyBody (last_named ''body'' names vals NilSXP)
                           (applyStatus ub (last_named ''status'' names vals NilSXP) resp)))
              | _ \<Rightarrow> makeErrorResponse ''R handler returned an unsupported value''))"

section \<open>The request as an R list\<close>

definition mkString :: "string \<Rightarrow> sexp" where
  "mkString s = STRSXP no_attr [mkChar s]"

definition named_strings :: "(string \<times> string) list \<Rightarrow> sexp" where
  "named_strings kvs = STRSXP \<lparr>a_names = Some (map (mkChar \<circ> fst) kvs), a_class = None\<rparr> (map (mkChar \<circ> snd) kvs)"

text \<open>Path parameters are paired with the route's names by position, up to the shorter list.\<close>

definition path_param_pairs :: "route list \<Rightarrow> pending_request \<Rightarrow> (string \<times> string) list" where
  "path_param_pairs routes pr =
     (let names = (case getRoute routes (pr_route_id pr) of None \<Rightarrow> [] | Some r \<Rightarrow> rt_param_names r)
      in zip names (pr_path_params pr))"

definition buildRequestList :: "route list \<Rightarrow> pending_request \<Rightarrow> sexp" where
  "buildRequestList routes pr =
     VECSXP \<lparr>a_names = Some (map Chr [''method'', ''path'', ''body'', ''headers'', ''query'', ''params'']),
             a_class = Some [Chr ''drogon_request'']\<rparr>
       [mkString (pr_method pr), mkString (pr_path pr), mkString (pr_body pr),
        named_strings (pr_headers pr), named_strings (pr_queries pr),
        named_strings (path_param_pairs routes pr)]"

section \<open>Streaming values\<close>

fun isDrogonStream :: "sexp \<Rightarrow> bool" where
  "isDrogonStream (VECSXP a _) =
     (case a_class a of None \<Rightarrow> False | Some cls \<Rightarrow> list_ex (\<lambda>c. R_CHAR c = ''drogon_stream'') cls)"
| "isDrogonStream _ = False"

fun parseStreamHeaders :: "sexp \<Rightarrow> (string \<times> string) list" where
  "parseStreamHeaders (VECSXP a vs) =
     (case a_names a of
        None \<Rightarrow> []
      | Some nms \<Rightarrow>
          concat (map (\<lambda>(nm, v). case as_first_string v of None \<Rightarrow> [] | Some s \<Rightarrow> [(R_CHAR nm, s)]) (zip nms vs)))"
| "parseStreamHeaders _ = []"

definition stream_content_type :: "sexp \<Rightarrow> string" where
  "stream_content_type s_ct = (case as_first_string s_ct of None \<Rightarrow> ''text/event-stream'' | Some ct \<Rightarrow> ct)"

fun stream_interval :: "sexp \<Rightarrow> rdouble" where
  "stream_interval (REALSXP _ (d # _)) = d"
| "stream_interval (INTSXP _ (i # _)) = Fin (Dbl (i < 0) (nat \<bar>i\<bar>) 0)"
| "stream_interval _ = Fin (Dbl False 0 0)"

section \<open>The dispatcher\<close>

text \<open>The state the dispatcher works on; \<open>ds_responses\<close> is the log of \<^verbatim>\<open>pr.respond(resp)\<close> calls.\<close>

record 'w dispatcher =
  ds_world :: 'w
  ds_routes :: "route list"
  ds_streams :: streams
  ds_responses :: "(nat \<times> response) list"

text \<open>R, as the dispatcher calls it: the evaluator and \<^verbatim>\<open>geterrmessage()\<close>.\<close>

record 'w r_api =
  r_eval :: "'w evaluator"
  r_geterrmessage :: "'w \<Rightarrow> sexp option \<times> 'w"

abbreviation respond_with :: "nat \<Rightarrow> response \<Rightarrow> 'w dispatcher \<Rightarrow> 'w dispatcher" where
  "respond_with t r d \<equiv> d\<lparr>ds_responses := ds_responses d @ [(t, r)]\<rparr>"

definition errorBody :: "sexp option \<Rightarrow> string" where
  "errorBody gres =
     ''R handler error: '' @
     (case Option.bind gres as_first_string of Some m \<Rightarrow> m | None \<Rightarrow> ''(unknown error)'')"

text \<open>
  The streaming branch. \<open>drogon\<close> is Drogon's side of the callback: what it will send for a response to
  this request.
\<close>

definition dispatchStream ::
  "(nat \<Rightarrow> response \<Rightarrow> response \<times> bool) \<Rightarrow> pending_request \<Rightarrow> sexp \<Rightarrow> 'w dispatcher \<Rightarrow> 'w dispatcher" where
  "dispatchStream drogon pr res d =
     (let s_next = namedField res ''next_chunk''; s_state = namedField res ''state'';
          s_ct = namedField res ''content_type''; s_hdr = namedField res ''headers'';
          s_int = namedField res ''min_interval''
      in if \<not> is_closure s_next
         then respond_with (pr_respond pr) (makeErrorResponse ''drogon_stream: next_chunk is not a function'') d
         else
           let (resp, streams') = startStreamSession (drogon (pr_respond pr)) s_next s_state
                 (stream_content_type s_ct) (parseStreamHeaders s_hdr) (pr_connection pr)
                 (stream_interval s_int) (ds_streams d)
           in respond_with (pr_respond pr) resp (d\<lparr>ds_streams := streams'\<rparr>))"

definition dispatchRequest ::
  "int \<Rightarrow> 'w r_api \<Rightarrow> (nat \<Rightarrow> response \<Rightarrow> response \<times> bool) \<Rightarrow> pending_request \<Rightarrow> 'w dispatcher \<Rightarrow> 'w dispatcher" where
  "dispatchRequest ub R drogon pr d =
     (let handler = (case getRoute (ds_routes d) (pr_route_id pr) of None \<Rightarrow> NilSXP | Some r \<Rightarrow> rt_handler r)
      in if \<not> is_closure handler
         then respond_with (pr_respond pr) (makeErrorResponse ''no handler registered for this route'') d
         else
           let (res, w1) = r_eval R (ds_world d) handler [Some (buildRequestList (ds_routes d) pr)]
           in case res of
                None \<Rightarrow>
                  let (gres, w2) = r_geterrmessage R w1
                  in respond_with (pr_respond pr) (makeErrorResponse (errorBody gres)) (d\<lparr>ds_world := w2\<rparr>)
              | Some v \<Rightarrow>
                  if isDrogonStream v then dispatchStream drogon pr v (d\<lparr>ds_world := w1\<rparr>)
                  else respond_with (pr_respond pr) (buildResponse ub v) (d\<lparr>ds_world := w1\<rparr>))"

definition dispatchRequests ::
  "int \<Rightarrow> 'w r_api \<Rightarrow> (nat \<Rightarrow> response \<Rightarrow> response \<times> bool) \<Rightarrow> pending_request list \<Rightarrow> 'w dispatcher \<Rightarrow> 'w dispatcher" where
  "dispatchRequests ub R drogon items d = fold (dispatchRequest ub R drogon) items d"

section \<open>The handler of an R route\<close>

text \<open>The snapshot of a request; \<open>conn\<close> is the state of its connection when the dispatcher locks it.\<close>

definition snapshot :: "int \<Rightarrow> nat \<Rightarrow> bool option \<Rightarrow> request \<Rightarrow> pending_request" where
  "snapshot route_id cb conn req =
     \<lparr>pr_method = methodString (rq_method req), pr_path = rq_path req, pr_body = rq_bodyView req,
      pr_headers = rq_headers req, pr_queries = rq_parameters (rq_parametersOnce req),
      pr_path_params = rq_routingParams req, pr_respond = cb, pr_connection = conn,
      pr_route_id = route_id\<rparr>"

definition queueFullResponse :: response where
  "queueFullResponse =
     setBody ''503 Service Unavailable: request queue is full'' (setStatusCode 503 newHttpResponse)"

text \<open>
  The lambda of \<^verbatim>\<open>installDrogonHandler\<close>: the answer given on the I/O thread, if any, with the queue and
  the limiters afterwards.
\<close>

definition rHandler ::
  "int \<Rightarrow> (nat \<Rightarrow> int) \<Rightarrow> nat \<Rightarrow> int \<Rightarrow> RouteLimiters \<Rightarrow> nat \<Rightarrow> bool option \<Rightarrow> request
    \<Rightarrow> pending_request reqqueue \<times> limheap \<Rightarrow> (nat \<times> response) option \<times> pending_request reqqueue \<times> limheap" where
  "rHandler ub clk eintr route_id rl cb conn req st =
     (case st of (q, h) \<Rightarrow>
        case checkRateLimits ub clk rl h of
          (Some deny, h1) \<Rightarrow> (Some (cb, deny), q, h1)
        | (None, h1) \<Rightarrow>
            (case enqueueRequest eintr (snapshot route_id cb conn req) q of
               (True, q1) \<Rightarrow> (None, q1, h1)
             | (False, q1) \<Rightarrow> (Some (cb, queueFullResponse), q1, h1)))"

section \<open>Facts about responses\<close>

definition plain_response :: "response \<Rightarrow> bool" where
  "plain_response r \<longleftrightarrow> \<not> passThrough r \<and> \<not> asyncStream r \<and> sendfileName r = [] \<and> customStatusCode r = - 1
     \<and> 100 \<le> statusCode r \<and> statusCode r \<le> 599"

lemma plain_setters [simp]:
  "plain_response (setBody b r) = plain_response r"
  "plain_response (setContentTypeCode ct r) = plain_response r"
  "plain_response (setContentTypeString ts r) = plain_response r"
  "plain_response (addHeader k v r) = plain_response r"
  by (auto simp: plain_response_def response_defs)

lemma plain_setStatusCode:
  "plain_response r \<Longrightarrow> 100 \<le> c \<Longrightarrow> c \<le> 599 \<Longrightarrow> plain_response (setStatusCode c r)"
  by (auto simp: plain_response_def response_defs)

lemma plain_newHttpResponse [simp]: "plain_response newHttpResponse"
  by (simp add: plain_response_def response_defs)

lemma plain_makeErrorResponse [simp]: "plain_response (makeErrorResponse reason)"
  by (simp add: makeErrorResponse_def plain_setStatusCode)

lemma plain_applyHeader [simp]: "plain_response (applyHeader h r) = plain_response r"
  by (auto simp: applyHeader_def split: prod.splits option.splits)

lemma plain_fold_applyHeader [simp]: "plain_response (fold applyHeader hs r) = plain_response r"
  by (induction hs arbitrary: r) simp_all

lemma plain_applyHeaders [simp]: "plain_response (applyHeaders x r) = plain_response r"
  by (cases x) (auto split: option.splits)

lemma plain_applyBody [simp]: "plain_response (applyBody x r) = plain_response r"
  by (cases "(x, r)" rule: applyBody.cases) auto

lemma plain_applyStatus: "plain_response r \<Longrightarrow> plain_response (applyStatus ub x r)"
  by (auto simp: applyStatus_def Let_def intro: plain_setStatusCode)

lemma plain_buildResponse [simp]: "plain_response (buildResponse ub v)"
  by (auto simp: buildResponse_def Let_def plain_setStatusCode plain_applyStatus split: option.split sexp.split)

section \<open>Every request is answered once\<close>

lemma dispatchRequest_responds:
  "\<exists>r. ds_responses (dispatchRequest ub R drogon pr d) = ds_responses d @ [(pr_respond pr, r)]
      \<and> 100 \<le> statusCode r \<and> statusCode r \<le> 599 \<and> ds_routes (dispatchRequest ub R drogon pr d) = ds_routes d"
proof -
  have plain: "plain_response r \<Longrightarrow> 100 \<le> statusCode r \<and> statusCode r \<le> 599" for r
    by (simp add: plain_response_def)
  have stream: "statusCode (streamResponse ct hs) = 200" for ct hs
  proof -
    have "statusCode (fold streamHeader hs r) = statusCode r" for r
      by (induction hs arbitrary: r) (auto simp: streamHeader_def response_defs)
    then show ?thesis by (simp add: streamResponse_def response_defs)
  qed
  show ?thesis
    using plain [OF plain_makeErrorResponse] plain [OF plain_buildResponse] stream
    by (auto simp: dispatchRequest_def dispatchStream_def startStreamSession_def Let_def
        split: option.split prod.split)
qed

lemma dispatchRequests_responds:
  "\<exists>rs. ds_responses (dispatchRequests ub R drogon items d) = ds_responses d @ zip (map pr_respond items) rs
      \<and> length rs = length items \<and> list_all (\<lambda>r. 100 \<le> statusCode r \<and> statusCode r \<le> 599) rs"
proof (induction items arbitrary: d)
  case Nil
  show ?case by (simp add: dispatchRequests_def)
next
  case (Cons pr items)
  obtain r where r: "ds_responses (dispatchRequest ub R drogon pr d) = ds_responses d @ [(pr_respond pr, r)]"
    "100 \<le> statusCode r" "statusCode r \<le> 599"
    using dispatchRequest_responds [of ub R drogon pr d] by blast
  obtain rs where "ds_responses (dispatchRequests ub R drogon items (dispatchRequest ub R drogon pr d))
        = ds_responses (dispatchRequest ub R drogon pr d) @ zip (map pr_respond items) rs"
    "length rs = length items" "list_all (\<lambda>r. 100 \<le> statusCode r \<and> statusCode r \<le> 599) rs"
    using Cons.IH by blast
  with r show ?case
    by (intro exI [of _ "r # rs"]) (simp add: dispatchRequests_def)
qed

text \<open>
  The HTTP side of the bridge as a system: a request arrives at an R route on an I/O thread, or the
  dispatcher drains the queue.
\<close>

record 'w httpsys =
  hs_queue :: "pending_request reqqueue"
  hs_limiters :: limheap
  hs_disp :: "'w dispatcher"

datatype http_op =
    Arrive "nat \<Rightarrow> int" nat int RouteLimiters nat "bool option" request
  | Dispatch

fun http_step ::
  "int \<Rightarrow> 'w r_api \<Rightarrow> (nat \<Rightarrow> response \<Rightarrow> response \<times> bool) \<Rightarrow> http_op \<Rightarrow> 'w httpsys \<Rightarrow> 'w httpsys" where
  "http_step ub R drogon (Arrive clk eintr route_id rl cb conn req) s =
     (let (answer, q, h) = rHandler ub clk eintr route_id rl cb conn req (hs_queue s, hs_limiters s)
      in s\<lparr>hs_queue := q, hs_limiters := h,
           hs_disp := (hs_disp s)\<lparr>ds_responses := ds_responses (hs_disp s) @ (case answer of None \<Rightarrow> [] | Some a \<Rightarrow> [a])\<rparr>\<rparr>)"
| "http_step ub R drogon Dispatch s =
     (let (items, q) = drainQueue (drainWakePipe (hs_queue s))
      in s\<lparr>hs_queue := q, hs_disp := dispatchRequests ub R drogon items (hs_disp s)\<rparr>)"

definition answered_tokens :: "'w httpsys \<Rightarrow> nat list" where
  "answered_tokens s = map fst (ds_responses (hs_disp s))"

definition queued_tokens :: "'w httpsys \<Rightarrow> nat list" where
  "queued_tokens s = map pr_respond (g_queue (hs_queue s))"

fun arrival :: "http_op \<Rightarrow> nat list" where
  "arrival (Arrive clk eintr route_id rl cb conn req) = [cb]"
| "arrival Dispatch = []"

lemma rHandler_cases:
  "rHandler ub clk eintr route_id rl cb conn req (q, h) = (answer, q1, h1) \<Longrightarrow>
     (\<exists>r. answer = Some (cb, r) \<and> q1 = q)
     \<or> (answer = None
        \<and> image_mset pr_respond (mset (g_queue q1)) = add_mset cb (image_mset pr_respond (mset (g_queue q))))"
  by (auto simp: rHandler_def snapshot_def reqqueue_defs split: prod.splits option.splits bool.splits if_splits)

lemma http_step_tokens:
  "mset (answered_tokens (http_step ub R drogon op s)) + mset (queued_tokens (http_step ub R drogon op s))
   = mset (answered_tokens s) + mset (queued_tokens s) + mset (arrival op)"
proof (cases op)
  case (Arrive clk eintr route_id rl cb conn req)
  obtain answer q h where a: "rHandler ub clk eintr route_id rl cb conn req (hs_queue s, hs_limiters s) = (answer, q, h)"
    by (metis surj_pair)
  from rHandler_cases [OF a] show ?thesis
    unfolding Arrive by (auto simp: a answered_tokens_def queued_tokens_def)
next
  case Dispatch
  let ?items = "g_queue (hs_queue s)"
  obtain rs where "ds_responses (dispatchRequests ub R drogon ?items (hs_disp s))
      = ds_responses (hs_disp s) @ zip (map pr_respond ?items) rs" "length rs = length ?items"
    using dispatchRequests_responds by blast
  then show ?thesis
    unfolding Dispatch by (simp add: answered_tokens_def queued_tokens_def reqqueue_defs)
qed

lemma http_steps_tokens:
  "mset (answered_tokens (fold (http_step ub R drogon) ops s)) + mset (queued_tokens (fold (http_step ub R drogon) ops s))
   = mset (answered_tokens s) + mset (queued_tokens s) + mset (concat (map arrival ops))"
proof (induction ops arbitrary: s)
  case (Cons op ops)
  then show ?case using http_step_tokens [of ub R drogon op s] by (simp add: ac_simps)
qed simp

section \<open>The value of a handler on the wire\<close>

text \<open>What the handler's value says the body is, read off the value alone.\<close>

fun value_body :: "sexp \<Rightarrow> string" where
  "value_body (STRSXP _ [c]) = R_CHAR c"
| "value_body (VECSXP a vals) =
     (case a_names a of
        None \<Rightarrow> ''R handler returned an unnamed list''
      | Some names \<Rightarrow>
          (case last_named ''body'' names vals NilSXP of
             STRSXP _ (c # _) \<Rightarrow> R_CHAR c
           | RAWSXP _ bytes \<Rightarrow> bytes
           | _ \<Rightarrow> []))"
| "value_body _ = ''R handler returned an unsupported value''"

abbreviation body_text :: "response \<Rightarrow> string" where
  "body_text r \<equiv> (case body r of None \<Rightarrow> [] | Some b \<Rightarrow> b)"

lemma body_applyHeaders: "body (applyHeaders x r) = body r"
proof -
  have "body (fold applyHeader hs r) = body r" for hs r
    by (induction hs arbitrary: r)
      (auto simp: applyHeader_def response_defs split: prod.splits option.splits)
  then show ?thesis by (cases x) (auto split: option.splits)
qed

lemma body_applyStatus: "body (applyStatus ub x r) = body r"
  by (simp add: applyStatus_def setStatusCode_def Let_def)

lemma body_applyBody:
  "body r = None \<Longrightarrow> \<not> passThrough r \<Longrightarrow>
     body_text (applyBody x r) = (case x of STRSXP _ (c # _) \<Rightarrow> R_CHAR c | RAWSXP _ bytes \<Rightarrow> bytes | _ \<Rightarrow> [])"
  by (cases "(x, r)" rule: applyBody.cases) (auto simp: setBody_def)

lemma body_buildResponse: "body_text (buildResponse ub v) = value_body v"
proof (cases v)
  case (STRSXP a cs)
  then show ?thesis
    by (cases cs rule: list.exhaust; cases "tl cs")
      (auto simp: buildResponse_def makeErrorResponse_def response_defs)
next
  case (VECSXP a vals)
  have "\<not> passThrough (applyStatus ub x (setStatusCode 200 newHttpResponse))" for x
    using plain_applyStatus [OF plain_setStatusCode [OF plain_newHttpResponse], of 200 ub x]
    by (simp add: plain_response_def)
  then have b: "body_text (applyBody y (applyStatus ub x (setStatusCode 200 newHttpResponse)))
      = (case y of STRSXP _ (c # _) \<Rightarrow> R_CHAR c | RAWSXP _ bytes \<Rightarrow> bytes | _ \<Rightarrow> [])" for x y
    by (intro body_applyBody) (simp_all add: body_applyStatus, simp add: response_defs)
  show ?thesis
  proof (cases "a_names a")
    case None
    with VECSXP show ?thesis by (simp add: buildResponse_def makeErrorResponse_def response_defs)
  next
    case (Some names)
    with VECSXP b show ?thesis by (simp add: buildResponse_def body_applyHeaders Let_def)
  qed
qed (simp_all add: buildResponse_def makeErrorResponse_def response_defs)

section \<open>Properties\<close>




text \<open>How R reads a named character vector.\<close>

fun string_pairs :: "sexp \<Rightarrow> (string \<times> string) list" where
  "string_pairs (STRSXP a vs) =
     (case a_names a of None \<Rightarrow> [] | Some ns \<Rightarrow> zip (map R_CHAR ns) (map R_CHAR vs))"
| "string_pairs _ = []"

definition up_to_nul :: "(string \<times> string) list \<Rightarrow> (string \<times> string) list" where
  "up_to_nul kvs = map (map_prod c_str c_str) kvs"


end
