(* ===== verification/CppRoutes.thy ===== *)
theory CppRoutes
  imports Dispatcher
begin

text \<open>
  The R-bypass routes of \<^verbatim>\<open>src/src/drogon_server.cpp\<close> and their C ABI (\<^verbatim>\<open>inst/include/drogonR.h\<close>):
  \<^verbatim>\<open>installCppHandler\<close> answers a request with what a native backend returns, and
  \<^verbatim>\<open>installCppStreamHandler\<close> lets the backend push chunks through the thunks
  \<^verbatim>\<open>drogonR_cpp_stream_send\<close>, \<^verbatim>\<open>drogonR_cpp_stream_close\<close> and \<^verbatim>\<open>drogonR_cpp_stream_is_cancelled\<close>. The
  backend is a parameter of the unary route and an arbitrary sequence of thunk calls of the streaming
  one.
\<close>

section \<open>Unary backends\<close>

text \<open>
  The arguments of a backend: C strings end at their first NUL, empty arrays and an empty query are
  null pointers, and headers are a flat array of names and values.
\<close>

record cpp_args =
  ca_body :: string
  ca_query :: "string option"
  ca_path_params :: "string list option"
  ca_path_params_n :: nat
  ca_headers :: "string list option"
  ca_headers_n :: nat

text \<open>
  What a backend leaves behind: the return code (\<open>None\<close> when it threw) and the out-parameters. Buffers
  it allocated carry an address.
\<close>

record cpp_result =
  cr_rc :: "int option"
  cr_body :: "(nat \<times> string) option"
  cr_len :: size_t
  cr_status :: int
  cr_content_type :: "(nat \<times> string) option"

definition or_null :: "'a list \<Rightarrow> 'a list option" where
  "or_null xs = (if xs = [] then None else Some xs)"

definition cppArgs :: "request \<Rightarrow> cpp_args" where
  "cppArgs req =
     (let hs = concat (map (\<lambda>(k, v). [c_str k, c_str v]) (rq_headers req));
          ps = map c_str (rq_routingParams req)
      in \<lparr>ca_body = rq_bodyView req,
          ca_query = (if rq_query req = [] then None else Some (c_str (rq_query req))),
          ca_path_params = or_null ps, ca_path_params_n = length ps,
          ca_headers = or_null hs, ca_headers_n = length hs div 2\<rparr>)"

definition free_opt :: "(nat \<times> 'a) option \<Rightarrow> nat list" where
  "free_opt p = (case p of None \<Rightarrow> [] | Some (a, _) \<Rightarrow> [a])"

text \<open>The worker task: the response, and the addresses freed. A result \<open>None\<close> reads past a buffer.\<close>

definition cppTask :: "(cpp_args \<Rightarrow> cpp_result) \<Rightarrow> cpp_args \<Rightarrow> (response \<times> nat list) option" where
  "cppTask fn args =
     (let out = fn args;
          rc = (case cr_rc out of None \<Rightarrow> - 1 | Some c \<Rightarrow> c);
          freed = free_opt (cr_body out) @ free_opt (cr_content_type out);
          resp = newHttpResponse
      in if rc \<noteq> 0 then
           Some (setBody ''500 Internal Server Error: native backend returned non-zero''
                   (setContentTypeCode CT_TEXT_PLAIN (setStatusCode 500 resp)), freed)
         else
           (case (case cr_body out of
                    Some (_, bytes) \<Rightarrow>
                      if cr_len out > 0
                      then (if unat (cr_len out) \<le> length bytes
                            then Some (setBody (take (unat (cr_len out)) bytes) resp) else None)
                      else Some resp
                  | None \<Rightarrow> Some resp) of
              None \<Rightarrow> None
            | Some r1 \<Rightarrow>
                let r2 = setStatusCode (cr_status out) r1
                in Some (case cr_content_type out of
                           Some (_, ct) \<Rightarrow> setContentTypeString (c_str ct) r2
                         | None \<Rightarrow> setContentTypeString ''application/octet-stream'' r2, freed)))"

text \<open>The handler: a rate-limited request is answered at once, any other is queued for a worker.\<close>

definition cppHandler ::
  "int \<Rightarrow> (nat \<Rightarrow> int) \<Rightarrow> RouteLimiters \<Rightarrow> request \<Rightarrow> limheap \<Rightarrow> (response + cpp_args) \<times> limheap" where
  "cppHandler ub clk rl req h =
     (case checkRateLimits ub clk rl h of
        (Some deny, h1) \<Rightarrow> (Inl deny, h1)
      | (None, h1) \<Rightarrow> (Inr (cppArgs req), h1))"

section \<open>Streaming backends\<close>

text \<open>
  \<^verbatim>\<open>CppStreamSession\<close>, with the object behind \<^verbatim>\<open>stream\<close>, the functions queued on the loop, what
  Drogon sends for the response, whether the stream callback is still to run, and the history of the
  data for which \<^verbatim>\<open>send\<close> returned 0 before the session was closed.
\<close>

record cpp_session =
  cs_stream :: bool
  cs_loop :: bool
  cs_cancelled :: bool
  cs_closed :: bool
  cs_rs :: rstream
  cs_tasks :: "loop_task list"
  cs_resp :: "response \<times> bool"
  cs_undelivered :: bool
  cs_sent :: "string list"

definition cppStreamResponse :: "string \<Rightarrow> response" where
  "cppStreamResponse route_ct =
     setContentTypeString (if route_ct = [] then ''text/event-stream'' else route_ct)
       (setStatusCode 200 newAsyncStreamResponse)"

text \<open>The session that the handler creates; \<open>conn\<close> and \<open>respond\<close> are as for R streams.\<close>

definition startCppStream :: "(response \<Rightarrow> response \<times> bool) \<Rightarrow> string \<Rightarrow> bool option \<Rightarrow> cpp_session" where
  "startCppStream respond route_ct conn =
     \<lparr>cs_stream = False, cs_loop = False, cs_cancelled = (conn = None), cs_closed = False,
      cs_rs = newResponseStream (conn = Some True), cs_tasks = [],
      cs_resp = respond (cppStreamResponse route_ct), cs_undelivered = True, cs_sent = []\<rparr>"

text \<open>
  \<^verbatim>\<open>send\<close>. Without a stream it waits up to five seconds; a call that is still waiting has no effect,
  so the state here is the one in which the wait ends. A null \<^verbatim>\<open>loop\<close> cannot be reached: the
  callback sets it together with \<^verbatim>\<open>stream\<close>.
\<close>

definition cpp_stream_send :: "string \<Rightarrow> cpp_session \<Rightarrow> (int \<times> cpp_session) option" where
  "cpp_stream_send data c =
     (if cs_cancelled c then Some (- 1, c)
      else if \<not> cs_stream c then Some (- 1, c)
      else if \<not> cs_loop c then None
      else Some (0, c\<lparr>cs_tasks := cs_tasks c @ [SendTask data],
                      cs_sent := cs_sent c @ (if cs_closed c then [] else [data])\<rparr>))"

definition cpp_stream_close :: "cpp_session \<Rightarrow> cpp_session option" where
  "cpp_stream_close c =
     (if cs_closed c then Some c
      else if \<not> cs_loop c then None
      else Some (c\<lparr>cs_closed := True, cs_tasks := cs_tasks c @ [CloseTask]\<rparr>))"

definition cpp_stream_is_cancelled :: "cpp_session \<Rightarrow> int" where
  "cpp_stream_is_cancelled c = (if cs_cancelled c then 1 else 0)"

fun runCppTask :: "loop_task \<Rightarrow> cpp_session \<Rightarrow> cpp_session" where
  "runCppTask (SendTask data) c =
     (if \<not> cs_stream c then c
      else
        let (ok, rs) = ResponseStream_send data (cs_rs c)
        in c\<lparr>cs_rs := rs, cs_cancelled := cs_cancelled c \<or> \<not> ok\<rparr>)"
| "runCppTask CloseTask c =
     (if cs_stream c then c\<lparr>cs_rs := ResponseStream_close (cs_rs c), cs_stream := False\<rparr> else c)"

text \<open>
  One step: a thunk call of the backend (the automatic close on return included), the stream callback,
  the next queued function, or the disconnect of the peer.
\<close>

datatype cpp_op = BackendSend string | BackendClose | StreamReady | LoopTask | PeerClosed

fun cpp_step :: "cpp_op \<Rightarrow> cpp_session \<Rightarrow> cpp_session option" where
  "cpp_step (BackendSend data) c = map_option snd (cpp_stream_send data c)"
| "cpp_step BackendClose c = cpp_stream_close c"
| "cpp_step StreamReady c =
     Some (if cs_undelivered c \<and> rs_connected (cs_rs c) \<and> DeliverStream \<in> set (sendResponse None None (cs_resp c))
           then c\<lparr>cs_loop := True, cs_stream := True, cs_undelivered := False\<rparr> else c)"
| "cpp_step LoopTask c =
     Some (case cs_tasks c of [] \<Rightarrow> c | t # ts \<Rightarrow> runCppTask t (c\<lparr>cs_tasks := ts\<rparr>))"
| "cpp_step PeerClosed c =
     Some (c\<lparr>cs_rs := (cs_rs c)\<lparr>rs_connected := False\<rparr>, cs_cancelled := True\<rparr>)"

fun cpp_run :: "cpp_op list \<Rightarrow> cpp_session \<Rightarrow> cpp_session option" where
  "cpp_run [] c = Some c"
| "cpp_run (e # es) c = (case cpp_step e c of None \<Rightarrow> None | Some c1 \<Rightarrow> cpp_run es c1)"

section \<open>The invariant of a streaming session\<close>

definition frames :: "string list \<Rightarrow> string" where
  "frames ds = concat (map chunk_frame ds)"

definition before_close :: "loop_task list \<Rightarrow> loop_task list" where
  "before_close ts = takeWhile (\<lambda>t. t \<noteq> CloseTask) ts"

definition cpp_inv :: "cpp_session \<Rightarrow> bool" where
  "cpp_inv c \<longleftrightarrow>
     (cs_stream c \<longrightarrow> cs_loop c \<and> rs_async (cs_rs c) \<and> (cs_closed c \<longleftrightarrow> CloseTask \<in> set (cs_tasks c)))
     \<and> (\<not> cs_loop c \<longrightarrow> cs_tasks c = [] \<and> \<not> cs_closed c \<and> cs_sent c = [] \<and> rs_wire (cs_rs c) = []
          \<and> rs_async (cs_rs c))
     \<and> (cs_undelivered c \<longrightarrow> \<not> cs_loop c)
     \<and> (cs_loop c \<and> \<not> cs_stream c \<longrightarrow> cs_closed c)
     \<and> prefix (rs_wire (cs_rs c)) (frames (cs_sent c) @ (if cs_closed c then closeStream else []))
     \<and> (rs_connected (cs_rs c) \<longrightarrow>
          rs_wire (cs_rs c) @ (if cs_stream c then concat (map task_bytes (before_close (cs_tasks c)))
                                 @ (if cs_closed c then closeStream else []) else [])
          = frames (cs_sent c) @ (if cs_closed c then closeStream else []))"

lemma frames_snoc: "frames (ds @ [d]) = frames ds @ chunk_frame d"
  by (simp add: frames_def)

lemma before_close_simps [simp]:
  "before_close [] = []" "before_close (SendTask d # ts) = SendTask d # before_close ts"
  "before_close (CloseTask # ts) = []"
  by (simp_all add: before_close_def)

lemma before_close_none: "CloseTask \<notin> set ts \<Longrightarrow> before_close ts = ts"
  by (auto simp: before_close_def takeWhile_eq_all_conv)

lemma before_close_append:
  "before_close (ts @ us) = (if CloseTask \<in> set ts then before_close ts else ts @ before_close us)"
proof (induction ts)
  case (Cons t ts)
  then show ?case by (cases t) auto
qed simp

lemma prefix_sent:
  "w @ f @ x = y \<Longrightarrow> prefix (w @ f) y" "w @ f @ x = y \<Longrightarrow> prefix (w @ f) (y @ z)"
  by (auto simp: prefix_def)

lemma cpp_inv_start: "cpp_inv (startCppStream respond ct conn)"
  by (simp add: cpp_inv_def startCppStream_def newResponseStream_def frames_def)

lemma cpp_inv_send: "cpp_inv c \<Longrightarrow> cpp_stream_send d c = Some (rc, c') \<Longrightarrow> cpp_inv c'"
  by (auto simp: cpp_stream_send_def cpp_inv_def frames_snoc before_close_append before_close_none
      intro: prefix_prefix split: if_splits)

lemma cpp_inv_close: "cpp_inv c \<Longrightarrow> cpp_stream_close c = Some c' \<Longrightarrow> cpp_inv c'"
  by (auto simp: cpp_stream_close_def cpp_inv_def before_close_append before_close_none
      intro: prefix_prefix split: if_splits)

lemma cpp_inv_task:
  "cpp_inv c \<Longrightarrow> cs_tasks c = t # ts \<Longrightarrow> cpp_inv (runCppTask t (c\<lparr>cs_tasks := ts\<rparr>))"
  by (cases t) (auto simp: cpp_inv_def rstream_defs Let_def intro: prefix_sent split: if_splits)

lemma cpp_inv_down:
  "cpp_inv c \<Longrightarrow> cpp_inv (c\<lparr>cs_rs := (cs_rs c)\<lparr>rs_connected := False\<rparr>, cs_cancelled := True\<rparr>)"
  by (simp add: cpp_inv_def)

lemma cpp_inv_ready:
  "cpp_inv c \<Longrightarrow> cs_undelivered c \<Longrightarrow> cpp_inv (c\<lparr>cs_loop := True, cs_stream := True, cs_undelivered := False\<rparr>)"
  by (simp add: cpp_inv_def frames_def)

lemma cpp_inv_step: "cpp_inv c \<Longrightarrow> cpp_step e c = Some c' \<Longrightarrow> cpp_inv c'"
  by (cases e)
    (auto simp del: runCppTask.simps
      intro: cpp_inv_send cpp_inv_close cpp_inv_down cpp_inv_ready cpp_inv_task split: if_splits list.splits)

lemma cpp_inv_run: "cpp_run es c = Some c' \<Longrightarrow> cpp_inv c \<Longrightarrow> cpp_inv c'"
  by (induction es c rule: cpp_run.induct) (auto split: option.splits intro: cpp_inv_step)

section \<open>Properties\<close>

text \<open>(C29) What the client of a streaming backend receives.  Over any interleaving of the backend's
  \<^verbatim>\<open>send\<close> and \<^verbatim>\<open>close\<close> calls with the event loop and a disconnect: the bytes written are a prefix of
  the chunk frames of the data accepted before the close, followed by the terminator, which is written
  once however often \<^verbatim>\<open>close\<close> is called; and when the session is closed, its queue is drained and the
  connection stayed up, the body decodes to exactly the accepted data, provided no chunk was empty.\<close>

theorem cpp_stream_wire_exact:
  assumes "cpp_run es (startCppStream respond ct conn) = Some c"
  shows "prefix (rs_wire (cs_rs c)) (concat (map chunk_frame (cs_sent c)) @ closeStream)
       \<and> (cs_closed c \<and> cs_tasks c = [] \<and> rs_connected (cs_rs c) \<and> [] \<notin> set (cs_sent c) \<longrightarrow>
            dechunk (rs_wire (cs_rs c)) = Some (concat (cs_sent c), []))"
proof -
  have inv: "cpp_inv c" using cpp_inv_run [OF assms cpp_inv_start] .
  then have "prefix (rs_wire (cs_rs c)) (frames (cs_sent c) @ closeStream)"
    by (auto simp: cpp_inv_def intro: prefix_prefix split: if_splits)
  moreover have "rs_wire (cs_rs c) = frames (cs_sent c) @ closeStream"
    if "cs_closed c" "cs_tasks c = []" "rs_connected (cs_rs c)"
    using inv that by (auto simp: cpp_inv_def)
  ultimately show ?thesis
    using dechunk_frames [of "cs_sent c" "[]"] by (simp add: frames_def)
qed

lemma cppStreamResponse_opens: "DeliverStream \<in> set (sendResponse None None (cppStreamResponse ct, False))"
  by (simp add: cppStreamResponse_def sendResponse_def response_defs contentLengthIsAllowed_def)

theorem cpp_stream_wire_exact_witness:
  "\<exists>c. cpp_run [StreamReady, BackendSend ''a'', LoopTask, BackendSend ''bc'', BackendClose, BackendClose, LoopTask, LoopTask]
         (startCppStream (\<lambda>r. (r, False)) [] (Some True)) = Some c
      \<and> dechunk (rs_wire (cs_rs c)) = Some (''abc'', [])"
proof -
  let ?es = "[StreamReady, BackendSend ''a'', LoopTask, BackendSend ''bc'', BackendClose, BackendClose, LoopTask, LoopTask]"
  obtain c where c: "cpp_run ?es (startCppStream (\<lambda>r. (r, False)) [] (Some True)) = Some c"
    and e: "cs_closed c" "cs_tasks c = []" "rs_connected (cs_rs c)" "cs_sent c = [''a'', ''bc'']"
    by (simp add: startCppStream_def cpp_stream_send_def cpp_stream_close_def newResponseStream_def
        cppStreamResponse_opens rstream_defs)
  from cpp_stream_wire_exact [OF c] e c show ?thesis by simp
qed

text \<open>An empty chunk ends the response early.  \<^verbatim>\<open>drogonR_cpp_stream_send\<close> does not check the
  length, and the frame of no bytes is the chunk terminator: a backend that sends \<open>a\<close>, then nothing,
  then \<open>b\<close> gets 0 from all three calls, but the client's body ends after \<open>a\<close> and the rest of the stream
  is left on the connection as if it were the next response.\<close>

lemma cpp_empty_chunk_truncates:
  assumes "cpp_inv c" and "cs_stream c" and "\<not> cs_cancelled c" and "rs_connected (cs_rs c)" and "cs_tasks c = []"
    and "cs_sent c = []" and "a \<noteq> []"
  shows "\<exists>c'. cpp_run [BackendSend a, BackendSend [], BackendSend b, BackendClose, LoopTask, LoopTask, LoopTask, LoopTask] c
             = Some c' \<and> cs_sent c' = [a, [], b]
          \<and> dechunk (rs_wire (cs_rs c')) = Some (a, chunk_frame b @ closeStream)"
proof -
  have "cs_loop c" "\<not> cs_closed c" "rs_wire (cs_rs c) = []" "rs_async (cs_rs c)"
    using assms by (auto simp: cpp_inv_def frames_def split: if_splits)
  with assms show ?thesis
    by (simp add: cpp_stream_send_def cpp_stream_close_def rstream_defs chunk_frame_empty dechunk_frame dechunk_closeStream)
qed

definition example_cpp_open :: cpp_session where
  "example_cpp_open = \<lparr>cs_stream = True, cs_loop = True, cs_cancelled = False, cs_closed = False,
     cs_rs = newResponseStream True, cs_tasks = [], cs_resp = (cppStreamResponse [], False),
     cs_undelivered = False, cs_sent = []\<rparr>"

text \<open>Closing a stream that never opened dereferences a null pointer.  If Drogon opens no stream for
  the response (a HEAD request, an HTTP/1.0 request, \<^verbatim>\<open>Connection: close\<close>) or the peer has gone, no
  interleaving of the backend's sends with the event loop sets \<^verbatim>\<open>sess->loop\<close>: every \<^verbatim>\<open>send\<close> returns -1,
  and \<^verbatim>\<open>close\<close>, which the worker also calls when the backend returns, uses the null loop.\<close>

lemma cpp_close_unopened_crashes:
  assumes "conn \<noteq> Some True
           \<or> (case respond (cppStreamResponse ct) of (r, isHeadMethod) \<Rightarrow> isHeadMethod \<or> closeConnection r)"
    and "BackendClose \<notin> set es"
  shows "\<exists>c. cpp_run es (startCppStream respond ct conn) = Some c
           \<and> cpp_stream_send d c = Some (- 1, c) \<and> cpp_stream_close c = None"
proof -
  define shut where "shut c \<longleftrightarrow> \<not> cs_loop c \<and> \<not> cs_stream c \<and> \<not> cs_closed c \<and> cs_tasks c = []
    \<and> (\<not> rs_connected (cs_rs c) \<or> DeliverStream \<notin> set (sendResponse None None (cs_resp c)))" for c :: cpp_session
  have step: "\<exists>c'. cpp_step e c = Some c' \<and> shut c'" if "shut c" "e \<noteq> BackendClose" for e c
    using that by (cases e) (auto simp: shut_def cpp_stream_send_def)
  have run: "\<exists>c'. cpp_run es c = Some c' \<and> shut c'" if "shut c" "BackendClose \<notin> set es" for es c
    using that
  proof (induction es arbitrary: c)
    case (Cons e es)
    with step [of c e] show ?case by auto
  qed simp
  have "shut (startCppStream respond ct conn)"
    using assms(1)
    by (auto simp: shut_def startCppStream_def newResponseStream_def sendResponse_def split: prod.splits)
  from run [OF this assms(2)] show ?thesis
    by (auto simp: shut_def cpp_stream_send_def cpp_stream_close_def)
qed

end
