(* ===== verification/WsSession.thy ===== *)
theory WsSession
  imports RequestQueue RValue StreamSession "HOL-Library.Log_Nat"
begin

text \<open>
  \<^verbatim>\<open>src/src/ws_session.cpp\<close>: server-side WebSockets. Drogon's I/O threads report connections,
  messages and closes to one controller; routes with R hooks queue an event for the main R thread,
  routes with a native handler call it on the I/O thread, under a cap on concurrent sessions and the
  limits enforced by a reaper. R code and native backends act on connections through ids.

  The clock is an argument of the operations that read it, and functions queued on an event loop are
  recorded in order. The R hooks are run by an oracle that yields the calls the hook makes back into
  the package.
\<close>

section \<open>State\<close>

record ws_route =
  wr_path :: string
  wr_on_connect :: sexp
  wr_on_message :: sexp
  wr_on_close :: sexp
  wr_cpp_fn :: "nat option"
  wr_max_conns :: int
  wr_idle_ms :: int
  wr_lifetime_ms :: int
  wr_live :: nat           \<comment> \<open>the shared counter\<close>

record ws_session =
  sn_route_id :: int
  sn_conn :: nat
  sn_closing :: bool
  sn_cpp_fn :: "nat option"
  sn_idle_ms :: int
  sn_lifetime_ms :: int
  sn_connect_ms :: int
  sn_last_send_ms :: int
  sn_live_counter :: "nat option"
  sn_counted :: bool

datatype ws_event =
    ConnectEv uint64 int
  | MessageEv uint64 int string bool
  | CloseEv uint64 int

text \<open>A function handed to \<^verbatim>\<open>queueInLoop\<close>; it acts only if the connection is still up when it runs.\<close>

datatype ws_action = WsSendAct string bool | WsShutdownAct

datatype cpp_event = CppConnect | CppMessage string bool | CppClose

record wsys =
  g_wsRoutes :: "ws_route list"
  g_wsCounters :: "nat \<Rightarrow> int"
  g_wsNewCounter :: nat
  g_wsSessions :: "(uint64 \<times> ws_session) list"
  g_wsEvents :: "ws_event list"
  g_nextWsId :: uint64
  g_wsRooms :: "(string \<times> uint64 list) list"
  wx_context :: "nat \<Rightarrow> uint64 option"          \<comment> \<open>\<^verbatim>\<open>conn->setContext\<close>\<close>
  wx_connected :: "nat \<Rightarrow> bool"                 \<comment> \<open>\<^verbatim>\<open>conn->connected()\<close>\<close>
  wx_queue :: "(nat \<times> ws_action) list"          \<comment> \<open>functions queued on the connections' loops\<close>
  wx_refused :: "nat list"                      \<comment> \<open>connections shut down with code 1013\<close>
  wx_cpp_calls :: "(nat \<times> uint64 \<times> cpp_event) list"
  g_wsReaperStop :: bool
  g_wsReaperArmed :: bool
  wx_preserved :: preserved

definition wsys_init :: wsys where
  "wsys_init = \<lparr>g_wsRoutes = [], g_wsCounters = (\<lambda>_. 0), g_wsNewCounter = 0, g_wsSessions = [], g_wsEvents = [],
     g_nextWsId = 1, g_wsRooms = [], wx_context = (\<lambda>_. None), wx_connected = (\<lambda>_. True), wx_queue = [],
     wx_refused = [], wx_cpp_calls = [], g_wsReaperStop = False, g_wsReaperArmed = False, wx_preserved = {#}\<rparr>"

definition findWsSession :: "wsys \<Rightarrow> uint64 \<Rightarrow> ws_session option" where
  "findWsSession s i = map_of (g_wsSessions s) i"

definition emplaceWsSession :: "ws_session \<Rightarrow> wsys \<Rightarrow> wsys" where
  "emplaceWsSession sn s =
     s\<lparr>g_nextWsId := g_nextWsId s + 1, g_wsSessions := (g_nextWsId s, sn) # g_wsSessions s\<rparr>"

definition updateWsSession :: "uint64 \<Rightarrow> (ws_session \<Rightarrow> ws_session) \<Rightarrow> wsys \<Rightarrow> wsys" where
  "updateWsSession i f s = s\<lparr>g_wsSessions := map (\<lambda>(k, v). if k = i then (k, f v) else (k, v)) (g_wsSessions s)\<rparr>"

section \<open>Rooms and erasing a session\<close>

definition dropFromAllRooms :: "uint64 \<Rightarrow> wsys \<Rightarrow> wsys" where
  "dropFromAllRooms i s = s\<lparr>g_wsRooms := map (\<lambda>(r, ids). (r, filter (\<lambda>j. j \<noteq> i) ids)) (g_wsRooms s)\<rparr>"

text \<open>The three parts of \<^verbatim>\<open>eraseWsSession\<close>: the critical section, the counter, the rooms.\<close>

definition takeWsSession :: "uint64 \<Rightarrow> wsys \<Rightarrow> ws_session option \<times> wsys" where
  "takeWsSession i s = (findWsSession s i, s\<lparr>g_wsSessions := filter (\<lambda>(k, _). k \<noteq> i) (g_wsSessions s)\<rparr>)"

definition giveBackSlot :: "ws_session option \<Rightarrow> wsys \<Rightarrow> wsys" where
  "giveBackSlot sess s =
     (case sess of
        None \<Rightarrow> s
      | Some sn \<Rightarrow>
          (case sn_live_counter sn of
             Some c \<Rightarrow> if sn_counted sn then s\<lparr>g_wsCounters := (g_wsCounters s)(c := g_wsCounters s c - 1)\<rparr> else s
           | None \<Rightarrow> s))"

definition eraseWsSession :: "uint64 \<Rightarrow> wsys \<Rightarrow> wsys" where
  "eraseWsSession i s = (let (sess, s1) = takeWsSession i s in dropFromAllRooms i (giveBackSlot sess s1))"

definition queueWs :: "nat \<Rightarrow> ws_action \<Rightarrow> wsys \<Rightarrow> wsys" where
  "queueWs conn a s = s\<lparr>wx_queue := wx_queue s @ [(conn, a)]\<rparr>"

text \<open>A session's loop is captured on the I/O thread that creates it, so it is never null.\<close>

definition sendToConn :: "uint64 \<Rightarrow> string \<Rightarrow> bool \<Rightarrow> wsys \<Rightarrow> wsys" where
  "sendToConn i data binary s =
     (case findWsSession s i of
        None \<Rightarrow> s
      | Some sn \<Rightarrow> if sn_closing sn then s else queueWs (sn_conn sn) (WsSendAct data binary) s)"

section \<open>The thunks of the C ABI\<close>

definition wsCppSend :: "int \<Rightarrow> uint64 \<Rightarrow> string \<Rightarrow> bool \<Rightarrow> wsys \<Rightarrow> int \<times> wsys" where
  "wsCppSend now i data binary s =
     (case findWsSession s i of
        None \<Rightarrow> (- 1, s)
      | Some sn \<Rightarrow>
          if sn_closing sn then (- 1, s)
          else if \<not> wx_connected s (sn_conn sn) then (- 1, s)
          else (0, updateWsSession i (\<lambda>sn. sn\<lparr>sn_last_send_ms := now\<rparr>)
                     (queueWs (sn_conn sn) (WsSendAct data binary) s)))"

definition shutdownSession :: "uint64 \<Rightarrow> wsys \<Rightarrow> wsys" where
  "shutdownSession i s =
     (case findWsSession s i of
        None \<Rightarrow> s
      | Some sn \<Rightarrow> queueWs (sn_conn sn) WsShutdownAct (updateWsSession i (\<lambda>sn. sn\<lparr>sn_closing := True\<rparr>) s))"

definition wsCppClose :: "uint64 \<Rightarrow> wsys \<Rightarrow> wsys" where
  "wsCppClose i s = shutdownSession i s"

definition wsCppIsConnected :: "uint64 \<Rightarrow> wsys \<Rightarrow> int" where
  "wsCppIsConnected i s =
     (case findWsSession s i of
        None \<Rightarrow> 0
      | Some sn \<Rightarrow> if sn_closing sn then 0 else if wx_connected s (sn_conn sn) then 1 else 0)"

text \<open>The native handler is called on the I/O thread; what it does is a sequence of thunk calls.\<close>

definition dispatchCpp :: "uint64 \<Rightarrow> ws_session \<Rightarrow> cpp_event \<Rightarrow> wsys \<Rightarrow> wsys" where
  "dispatchCpp i sn ev s =
     (case sn_cpp_fn sn of None \<Rightarrow> s | Some fn \<Rightarrow> s\<lparr>wx_cpp_calls := wx_cpp_calls s @ [(fn, i, ev)]\<rparr>)"

section \<open>The controller\<close>

fun find_index :: "string \<Rightarrow> ws_route list \<Rightarrow> int \<Rightarrow> int" where
  "find_index path [] i = - 1"
| "find_index path (r # rs) i = (if wr_path r = path then i else find_index path rs (i + 1))"

definition routeIdForPath :: "wsys \<Rightarrow> string \<Rightarrow> int" where
  "routeIdForPath s path = find_index path (g_wsRoutes s) 0"

definition wsRoute :: "wsys \<Rightarrow> int \<Rightarrow> ws_route option" where
  "wsRoute s rid = (if rid < 0 \<or> rid \<ge> int (length (g_wsRoutes s)) then None else Some (g_wsRoutes s ! nat rid))"

definition cppFnForRoute :: "wsys \<Rightarrow> int \<Rightarrow> nat option" where
  "cppFnForRoute s rid = Option.bind (wsRoute s rid) wr_cpp_fn"

record ws_guards =
  gd_max_conns :: int
  gd_idle_ms :: int
  gd_lifetime_ms :: int
  gd_live :: "nat option"

definition no_guards :: ws_guards where
  "no_guards = \<lparr>gd_max_conns = 0, gd_idle_ms = 0, gd_lifetime_ms = 0, gd_live = None\<rparr>"

definition guardsForRoute :: "wsys \<Rightarrow> int \<Rightarrow> ws_guards" where
  "guardsForRoute s rid =
     (case wsRoute s rid of
        None \<Rightarrow> no_guards
      | Some r \<Rightarrow> \<lparr>gd_max_conns = wr_max_conns r, gd_idle_ms = wr_idle_ms r, gd_lifetime_ms = wr_lifetime_ms r,
                   gd_live = Some (wr_live r)\<rparr>)"

definition enqueueWsEvent :: "ws_event \<Rightarrow> wsys \<Rightarrow> wsys" where
  "enqueueWsEvent ev s = s\<lparr>g_wsEvents := g_wsEvents s @ [ev]\<rparr>"

text \<open>
  The admission check of \<^verbatim>\<open>handleNewConnection\<close>, in its atomic steps: the guarded counter if there is
  one, \<^verbatim>\<open>fetch_add\<close> with the comparison, and the \<^verbatim>\<open>fetch_sub\<close> of a refused connection.
\<close>

definition guarded :: "ws_guards \<Rightarrow> nat option" where
  "guarded g = (if gd_max_conns g > 0 then gd_live g else None)"

definition tryAdmit :: "nat \<Rightarrow> int \<Rightarrow> wsys \<Rightarrow> bool \<times> wsys" where
  "tryAdmit c max_conns s =
     (let after = g_wsCounters s c + 1
      in (after \<le> max_conns, s\<lparr>g_wsCounters := (g_wsCounters s)(c := after)\<rparr>))"

definition rollbackAdmit :: "nat \<Rightarrow> wsys \<Rightarrow> wsys" where
  "rollbackAdmit c s = s\<lparr>g_wsCounters := (g_wsCounters s)(c := g_wsCounters s c - 1)\<rparr>"

definition refuseConn :: "nat \<Rightarrow> wsys \<Rightarrow> wsys" where
  "refuseConn conn s = s\<lparr>wx_refused := wx_refused s @ [conn]\<rparr>"

text \<open>The rest of \<^verbatim>\<open>handleNewConnection\<close>, after an admission.\<close>

definition newWsSession :: "int \<Rightarrow> int \<Rightarrow> nat option \<Rightarrow> ws_guards \<Rightarrow> nat \<Rightarrow> ws_session" where
  "newWsSession now rid cpp_fn g conn =
     \<lparr>sn_route_id = rid, sn_conn = conn, sn_closing = False, sn_cpp_fn = cpp_fn,
      sn_idle_ms = (if cpp_fn \<noteq> None then gd_idle_ms g else 0),
      sn_lifetime_ms = (if cpp_fn \<noteq> None then gd_lifetime_ms g else 0),
      sn_connect_ms = (if cpp_fn \<noteq> None then now else 0),
      sn_last_send_ms = (if cpp_fn \<noteq> None then now else 0),
      sn_live_counter = (if cpp_fn \<noteq> None then guarded g else None),
      sn_counted = (cpp_fn \<noteq> None \<and> guarded g \<noteq> None)\<rparr>"

definition registerConn :: "int \<Rightarrow> int \<Rightarrow> nat option \<Rightarrow> ws_guards \<Rightarrow> nat \<Rightarrow> wsys \<Rightarrow> wsys" where
  "registerConn now rid cpp_fn g conn s =
     (let i = g_nextWsId s; sn = newWsSession now rid cpp_fn g conn;
          s1 = emplaceWsSession sn (s\<lparr>wx_context := (wx_context s)(conn \<mapsto> i)\<rparr>)
      in if cpp_fn \<noteq> None then dispatchCpp i sn CppConnect s1 else enqueueWsEvent (ConnectEv i rid) s1)"

definition handleNewConnection :: "int \<Rightarrow> string \<Rightarrow> nat \<Rightarrow> wsys \<Rightarrow> wsys" where
  "handleNewConnection now path conn s =
     (let rid = routeIdForPath s path; cpp_fn = cppFnForRoute s rid;
          g = (if cpp_fn \<noteq> None then guardsForRoute s rid else no_guards)
      in case guarded g of
           Some c \<Rightarrow>
             (case tryAdmit c (gd_max_conns g) s of
                (False, s1) \<Rightarrow> refuseConn conn (rollbackAdmit c s1)
              | (True, s1) \<Rightarrow> registerConn now rid cpp_fn g conn s1)
         | None \<Rightarrow> registerConn now rid cpp_fn g conn s)"

definition handleNewMessage :: "nat \<Rightarrow> string \<Rightarrow> bool \<Rightarrow> wsys \<Rightarrow> wsys" where
  "handleNewMessage conn message binary s =
     (case wx_context s conn of
        None \<Rightarrow> s
      | Some i \<Rightarrow>
          (case findWsSession s i of
             None \<Rightarrow> s
           | Some sn \<Rightarrow>
               if sn_cpp_fn sn \<noteq> None then dispatchCpp i sn (CppMessage message binary) s
               else enqueueWsEvent (MessageEv i (sn_route_id sn) message binary) s))"

definition handleConnectionClosed :: "nat \<Rightarrow> wsys \<Rightarrow> wsys" where
  "handleConnectionClosed conn s =
     (case wx_context s conn of
        None \<Rightarrow> s
      | Some i \<Rightarrow>
          (case findWsSession s i of
             None \<Rightarrow> s
           | Some sn \<Rightarrow>
               let s1 = updateWsSession i (\<lambda>sn. sn\<lparr>sn_closing := True\<rparr>) s
               in if sn_cpp_fn sn \<noteq> None then eraseWsSession i (dispatchCpp i sn CppClose s1)
                  else enqueueWsEvent (CloseEv i (sn_route_id sn)) s1))"

section \<open>The R API\<close>

text \<open>
  \<^verbatim>\<open>static_cast<double>(id)\<close> (round to nearest, ties to even) and \<^verbatim>\<open>static_cast<uint64_t>(d)\<close>, which is
  undefined for a value that does not fit: it then yields the argument \<open>ub\<close>.
\<close>

definition u64_to_double :: "uint64 \<Rightarrow> rdouble" where
  "u64_to_double i =
     (let n = unat i; e = floorlog 2 n - 53; q = n div 2 ^ e; r = n mod 2 ^ e;
          up = (2 * r > 2 ^ e \<or> (2 * r = 2 ^ e \<and> odd q))
      in Fin (Dbl False (if up then q + 1 else q) (int e)))"

definition double_to_u64 :: "uint64 \<Rightarrow> rdouble \<Rightarrow> uint64" where
  "double_to_u64 ub v =
     (case v of
        Fin d \<Rightarrow> (let i = dbl_trunc d in if 0 \<le> i \<and> i < 2 ^ 64 then word_of_int i else ub)
      | _ \<Rightarrow> ub)"

definition makeWsConn :: "uint64 \<Rightarrow> sexp" where
  "makeWsConn i = REALSXP \<lparr>a_names = None, a_class = Some [Chr ''drogon_ws_conn'']\<rparr> [u64_to_double i]"

datatype ws_error =
    WsServerRunning
  | WsBadPath
  | WsBadCallable
  | WsNullCallable
  | WsNotNumber string
  | WsNegative string
  | WsBadConnId
  | WsBadMsg
  | WsBadRoom

fun conn_id_arg :: "uint64 \<Rightarrow> sexp \<Rightarrow> uint64 option" where
  "conn_id_arg ub (REALSXP _ [d]) = Some (double_to_u64 ub d)"
| "conn_id_arg ub _ = None"

fun true_flag :: "sexp \<Rightarrow> bool" where
  "true_flag (LGLSXP _ (b # _)) \<longleftrightarrow> b = 1"
| "true_flag _ \<longleftrightarrow> False"

definition drogonR_ws_send :: "uint64 \<Rightarrow> sexp \<Rightarrow> sexp \<Rightarrow> sexp \<Rightarrow> wsys \<Rightarrow> ws_error + wsys" where
  "drogonR_ws_send ub r_conn r_msg r_binary s =
     (case conn_id_arg ub r_conn of
        None \<Rightarrow> Inl WsBadConnId
      | Some i \<Rightarrow>
          (case as_one_string r_msg of
             None \<Rightarrow> Inl WsBadMsg
           | Some m \<Rightarrow> Inr (sendToConn i m (true_flag r_binary) s)))"

definition drogonR_ws_close :: "uint64 \<Rightarrow> sexp \<Rightarrow> wsys \<Rightarrow> ws_error + wsys" where
  "drogonR_ws_close ub r_conn s =
     (case conn_id_arg ub r_conn of None \<Rightarrow> Inl WsBadConnId | Some i \<Rightarrow> Inr (shutdownSession i s))"

definition roomJoin :: "string \<Rightarrow> uint64 \<Rightarrow> wsys \<Rightarrow> wsys" where
  "roomJoin room i s =
     (case map_of (g_wsRooms s) room of
        None \<Rightarrow> s\<lparr>g_wsRooms := (room, [i]) # g_wsRooms s\<rparr>
      | Some _ \<Rightarrow> s\<lparr>g_wsRooms := map (\<lambda>(r, ids). (r, if r = room \<and> i \<notin> set ids then i # ids else ids)) (g_wsRooms s)\<rparr>)"

definition roomLeave :: "string \<Rightarrow> uint64 \<Rightarrow> wsys \<Rightarrow> wsys" where
  "roomLeave room i s =
     s\<lparr>g_wsRooms := filter (\<lambda>(r, ids). r \<noteq> room \<or> ids \<noteq> [])
         (map (\<lambda>(r, ids). (r, if r = room then filter (\<lambda>j. j \<noteq> i) ids else ids)) (g_wsRooms s))\<rparr>"

definition roomBroadcast :: "string \<Rightarrow> string \<Rightarrow> bool \<Rightarrow> wsys \<Rightarrow> int \<times> wsys" where
  "roomBroadcast room data binary s =
     (case map_of (g_wsRooms s) room of
        None \<Rightarrow> (0, s)
      | Some ids \<Rightarrow> (int (length ids), fold (\<lambda>i. sendToConn i data binary) ids s))"

definition drogonR_ws_join :: "uint64 \<Rightarrow> sexp \<Rightarrow> sexp \<Rightarrow> wsys \<Rightarrow> ws_error + wsys" where
  "drogonR_ws_join ub r_room r_conn s =
     (case as_one_string r_room of
        None \<Rightarrow> Inl WsBadRoom
      | Some room \<Rightarrow> (case conn_id_arg ub r_conn of None \<Rightarrow> Inl WsBadConnId | Some i \<Rightarrow> Inr (roomJoin room i s)))"

definition drogonR_ws_leave :: "uint64 \<Rightarrow> sexp \<Rightarrow> sexp \<Rightarrow> wsys \<Rightarrow> ws_error + wsys" where
  "drogonR_ws_leave ub r_room r_conn s =
     (case as_one_string r_room of
        None \<Rightarrow> Inl WsBadRoom
      | Some room \<Rightarrow> (case conn_id_arg ub r_conn of None \<Rightarrow> Inl WsBadConnId | Some i \<Rightarrow> Inr (roomLeave room i s)))"

definition drogonR_ws_broadcast :: "sexp \<Rightarrow> sexp \<Rightarrow> sexp \<Rightarrow> wsys \<Rightarrow> ws_error + (int \<times> wsys)" where
  "drogonR_ws_broadcast r_room r_msg r_binary s =
     (case as_one_string r_room of
        None \<Rightarrow> Inl WsBadRoom
      | Some room \<Rightarrow>
          (case as_one_string r_msg of None \<Rightarrow> Inl WsBadMsg | Some m \<Rightarrow> Inr (roomBroadcast room m (true_flag r_binary) s)))"

section \<open>Delivering events to R\<close>

text \<open>A call that R code makes back into the package while a hook runs.\<close>

datatype ws_api =
    ApiSend sexp sexp sexp
  | ApiWsClose sexp
  | ApiJoin sexp sexp
  | ApiLeave sexp sexp
  | ApiBroadcast sexp sexp sexp

fun ok_state :: "ws_error + wsys \<Rightarrow> wsys \<Rightarrow> wsys" where
  "ok_state (Inl _) s = s"
| "ok_state (Inr s1) s = s1"

fun ws_api_call :: "uint64 \<Rightarrow> ws_api \<Rightarrow> wsys \<Rightarrow> wsys" where
  "ws_api_call ub (ApiSend c m b) s = ok_state (drogonR_ws_send ub c m b s) s"
| "ws_api_call ub (ApiWsClose c) s = ok_state (drogonR_ws_close ub c s) s"
| "ws_api_call ub (ApiJoin r c) s = ok_state (drogonR_ws_join ub r c s) s"
| "ws_api_call ub (ApiLeave r c) s = ok_state (drogonR_ws_leave ub r c s) s"
| "ws_api_call ub (ApiBroadcast r m b) s =
     (case drogonR_ws_broadcast r m b s of Inl _ \<Rightarrow> s | Inr (_, s1) \<Rightarrow> s1)"

text \<open>
  The oracle for R's evaluator: the calls a hook makes and R's next state. Whether the hook signals an
  error makes no difference (\<^verbatim>\<open>callHook\<close> only prints it). Hook calls are logged with their arguments.
\<close>

type_synonym 'w hook_oracle = "'w \<Rightarrow> sexp \<Rightarrow> sexp list \<Rightarrow> ws_api list \<times> 'w"

type_synonym 'w ws_run = "'w \<times> (sexp \<times> sexp list) list \<times> wsys"

definition callHook :: "uint64 \<Rightarrow> 'w hook_oracle \<Rightarrow> sexp \<Rightarrow> sexp list \<Rightarrow> 'w ws_run \<Rightarrow> 'w ws_run" where
  "callHook ub hook_eval hook args x =
     (case x of (w, hooklog, s) \<Rightarrow>
        if \<not> is_closure hook then (w, hooklog, s)
        else let (calls, w1) = hook_eval w hook args
             in (w1, hooklog @ [(hook, args)], fold (ws_api_call ub) calls s))"

definition hooksForRoute :: "wsys \<Rightarrow> int \<Rightarrow> sexp \<times> sexp \<times> sexp" where
  "hooksForRoute s rid =
     (case wsRoute s rid of
        None \<Rightarrow> (NilSXP, NilSXP, NilSXP)
      | Some r \<Rightarrow> (wr_on_connect r, wr_on_message r, wr_on_close r))"

text \<open>The message reaches R through \<^verbatim>\<open>c_str()\<close>.\<close>

fun deliverWsEvent :: "uint64 \<Rightarrow> 'w hook_oracle \<Rightarrow> ws_event \<Rightarrow> 'w ws_run \<Rightarrow> 'w ws_run" where
  "deliverWsEvent ub hook_eval (ConnectEv i rid) x =
     (case hooksForRoute (snd (snd x)) rid of (on_connect, _, _) \<Rightarrow> callHook ub hook_eval on_connect [makeWsConn i] x)"
| "deliverWsEvent ub hook_eval (MessageEv i rid m b) x =
     (case hooksForRoute (snd (snd x)) rid of (_, on_message, _) \<Rightarrow>
        callHook ub hook_eval on_message
          [makeWsConn i, STRSXP no_attr [mkChar m], LGLSXP no_attr [if b then 1 else 0]] x)"
| "deliverWsEvent ub hook_eval (CloseEv i rid) x =
     (case hooksForRoute (snd (snd x)) rid of (_, _, on_close) \<Rightarrow>
        case callHook ub hook_eval on_close [makeWsConn i] x of
          (w, hooklog, s) \<Rightarrow> (w, hooklog, eraseWsSession i s))"

definition swapWsEvents :: "wsys \<Rightarrow> ws_event list \<times> wsys" where
  "swapWsEvents s = (g_wsEvents s, s\<lparr>g_wsEvents := []\<rparr>)"

definition drainWsEvents :: "uint64 \<Rightarrow> 'w hook_oracle \<Rightarrow> 'w ws_run \<Rightarrow> 'w ws_run" where
  "drainWsEvents ub hook_eval x =
     (case x of (w, hooklog, s) \<Rightarrow>
        let (batch, s1) = swapWsEvents s in fold (deliverWsEvent ub hook_eval) batch (w, hooklog, s1))"

section \<open>Routes, the reaper, stopping\<close>

fun preserve_hook :: "sexp \<Rightarrow> preserved \<Rightarrow> preserved" where
  "preserve_hook NilSXP p = p"
| "preserve_hook x p = preserve x p"

fun release_hook :: "sexp \<Rightarrow> preserved \<Rightarrow> preserved" where
  "release_hook NilSXP p = p"
| "release_hook x p = release x p"

text \<open>A \<^verbatim>\<open>WsRoute\<close> is constructed with a fresh counter; \<^verbatim>\<open>addWsRoute\<close> preserves its hooks.\<close>

definition addWsRoute :: "ws_route \<Rightarrow> wsys \<Rightarrow> int \<times> wsys" where
  "addWsRoute r s =
     (int (length (g_wsRoutes s)),
      s\<lparr>g_wsRoutes := g_wsRoutes s @ [r\<lparr>wr_live := g_wsNewCounter s\<rparr>],
        g_wsCounters := (g_wsCounters s)(g_wsNewCounter s := 0), g_wsNewCounter := Suc (g_wsNewCounter s),
        wx_preserved := preserve_hook (wr_on_close r)
          (preserve_hook (wr_on_message r) (preserve_hook (wr_on_connect r) (wx_preserved s)))\<rparr>)"

definition wsRouteCount :: "wsys \<Rightarrow> nat" where
  "wsRouteCount s = length (g_wsRoutes s)"

definition expired :: "int \<Rightarrow> ws_session \<Rightarrow> bool" where
  "expired now sn \<longleftrightarrow> sn_cpp_fn sn \<noteq> None \<and> \<not> sn_closing sn
     \<and> ((sn_idle_ms sn > 0 \<and> now - sn_last_send_ms sn > sn_idle_ms sn)
        \<or> (sn_lifetime_ms sn > 0 \<and> now - sn_connect_ms sn > sn_lifetime_ms sn))"

definition reapExpiredSessions :: "int \<Rightarrow> wsys \<Rightarrow> wsys" where
  "reapExpiredSessions now s =
     (if g_wsReaperStop s then s
      else
        let ex = filter (\<lambda>(_, sn). expired now sn) (g_wsSessions s)
        in fold (\<lambda>(i, sn) s. queueWs (sn_conn sn) WsShutdownAct (updateWsSession i (\<lambda>sn. sn\<lparr>sn_closing := True\<rparr>) s)) ex s)"

text \<open>The tightest threshold (0 when there is none) and the timer interval in seconds.\<close>

definition tighter :: "int \<Rightarrow> int \<Rightarrow> int" where
  "tighter v m = (if v > 0 \<and> (m = 0 \<or> v < m) then v else m)"

definition minThresh :: "ws_route list \<Rightarrow> int" where
  "minThresh rs =
     fold (\<lambda>r m. if wr_cpp_fn r = None then m else tighter (wr_lifetime_ms r) (tighter (wr_idle_ms r) m)) rs 0"

definition reaperInterval :: "ws_route list \<Rightarrow> real option" where
  "reaperInterval rs =
     (if minThresh rs = 0 then None
      else Some (min 1 (max (5 / 100) (real_of_int (minThresh rs) / 2 / 1000))))"

definition installWsRoutes :: "wsys \<Rightarrow> string list \<times> real option \<times> wsys" where
  "installWsRoutes s =
     (if g_wsRoutes s = [] then ([], None, s)
      else case reaperInterval (g_wsRoutes s) of
             None \<Rightarrow> (map wr_path (g_wsRoutes s), None, s)
           | Some iv \<Rightarrow> (map wr_path (g_wsRoutes s), Some iv, s\<lparr>g_wsReaperStop := False, g_wsReaperArmed := True\<rparr>))"

definition releaseRouteHooks :: "ws_route \<Rightarrow> preserved \<Rightarrow> preserved" where
  "releaseRouteHooks r p =
     release_hook (wr_on_close r) (release_hook (wr_on_message r) (release_hook (wr_on_connect r) p))"

definition clearAllWsSessions :: "wsys \<Rightarrow> wsys" where
  "clearAllWsSessions s =
     s\<lparr>g_wsReaperStop := True, g_wsReaperArmed := False, g_wsSessions := [], g_wsEvents := [],
       g_wsRooms := [], g_wsRoutes := [],
       wx_preserved := fold releaseRouteHooks (g_wsRoutes s) (wx_preserved s)\<rparr>"

text \<open>Registration from R.\<close>

definition closure_or_nil :: "sexp \<Rightarrow> sexp" where
  "closure_or_nil x = (if is_closure x then x else NilSXP)"

definition newWsRoute :: "string \<Rightarrow> ws_route" where
  "newWsRoute path = \<lparr>wr_path = path, wr_on_connect = NilSXP, wr_on_message = NilSXP, wr_on_close = NilSXP,
     wr_cpp_fn = None, wr_max_conns = 0, wr_idle_ms = 0, wr_lifetime_ms = 0, wr_live = 0\<rparr>"

definition drogonR_register_ws :: "bool \<Rightarrow> sexp \<Rightarrow> sexp \<Rightarrow> sexp \<Rightarrow> sexp \<Rightarrow> wsys \<Rightarrow> ws_error + (int \<times> wsys)" where
  "drogonR_register_ws running r_path r_connect r_message r_close s =
     (if running then Inl WsServerRunning
      else case as_one_string r_path of
             None \<Rightarrow> Inl WsBadPath
           | Some path \<Rightarrow>
               Inr (addWsRoute ((newWsRoute path)\<lparr>wr_on_connect := closure_or_nil r_connect,
                      wr_on_message := closure_or_nil r_message, wr_on_close := closure_or_nil r_close\<rparr>) s))"

text \<open>
  \<^verbatim>\<open>reqNonNegNum\<close> for a finite value; an infinite one passes the check, and converting it to an integer
  is undefined.
\<close>

fun reqNonNegNum :: "string \<Rightarrow> sexp \<Rightarrow> ws_error + rdouble" where
  "reqNonNegNum what (INTSXP _ [i]) =
     (if i < 0 then Inl (WsNegative what) else Inr (Fin (Dbl False (nat i) 0)))"
| "reqNonNegNum what (REALSXP _ [Fin d]) =
     (if dneg d \<and> dmant d \<noteq> 0 then Inl (WsNegative what) else Inr (Fin d))"
| "reqNonNegNum what (REALSXP _ [R_PosInf]) = Inr R_PosInf"
| "reqNonNegNum what (REALSXP _ [_]) = Inl (WsNegative what)"
| "reqNonNegNum what _ = Inl (WsNotNumber what)"

text \<open>\<^verbatim>\<open>(T)(v * scale + 0.5)\<close> for a target type with the largest value \<open>bound\<close>, over the reals.\<close>

definition round_half_up :: "int \<Rightarrow> int \<Rightarrow> real \<Rightarrow> rdouble \<Rightarrow> int" where
  "round_half_up ub bound scale v =
     (case v of
        Fin d \<Rightarrow> (let i = \<lfloor>dbl_real d * scale + 1 / 2\<rfloor> in if i \<le> bound then i else ub)
      | _ \<Rightarrow> ub)"

definition drogonR_register_ws_cpp ::
  "int \<Rightarrow> bool \<Rightarrow> sexp \<Rightarrow> sexp \<Rightarrow> sexp \<Rightarrow> sexp \<Rightarrow> sexp \<Rightarrow> wsys \<Rightarrow> ws_error + (int \<times> wsys)" where
  "drogonR_register_ws_cpp ub running r_path r_ptr r_max r_idle r_life s =
     (if running then Inl WsServerRunning
      else case as_one_string r_path of
             None \<Rightarrow> Inl WsBadPath
           | Some path \<Rightarrow>
               (case r_ptr of
                  EXTPTRSXP fn \<Rightarrow>
                    if fn = 0 then Inl WsNullCallable
                    else
                      (case (reqNonNegNum ''max_conns'' r_max, reqNonNegNum ''idle_timeout'' r_idle,
                             reqNonNegNum ''max_lifetime'' r_life) of
                         (Inl e, _, _) \<Rightarrow> Inl e
                       | (Inr _, Inl e, _) \<Rightarrow> Inl e
                       | (Inr _, Inr _, Inl e) \<Rightarrow> Inl e
                       | (Inr m, Inr idle, Inr life) \<Rightarrow>
                           Inr (addWsRoute ((newWsRoute path)\<lparr>wr_cpp_fn := Some fn,
                             wr_max_conns := round_half_up ub INT_MAX 1 m,
                             wr_idle_ms := round_half_up ub (2 ^ 63 - 1) 1000 idle,
                             wr_lifetime_ms := round_half_up ub (2 ^ 63 - 1) 1000 life\<rparr>) s))
                | _ \<Rightarrow> Inl WsBadCallable))"

section \<open>Interfaces\<close>

lemmas ws_defs =
  findWsSession_def emplaceWsSession_def updateWsSession_def dropFromAllRooms_def takeWsSession_def
  giveBackSlot_def eraseWsSession_def queueWs_def sendToConn_def enqueueWsEvent_def swapWsEvents_def

lemma map_of_drop_key: "map_of (filter (\<lambda>(k, _). k \<noteq> i) xs) = (map_of xs)(i := None)"
  by (induction xs) auto

lemma giveBackSlot_frame [simp]:
  "g_wsSessions (giveBackSlot x s) = g_wsSessions s" "g_nextWsId (giveBackSlot x s) = g_nextWsId s"
  "g_wsRoutes (giveBackSlot x s) = g_wsRoutes s" "g_wsEvents (giveBackSlot x s) = g_wsEvents s"
  by (auto simp: giveBackSlot_def split: option.splits)

lemma eraseWsSession_frame [simp]:
  "g_wsSessions (eraseWsSession i s) = filter (\<lambda>(k, _). k \<noteq> i) (g_wsSessions s)"
  "g_nextWsId (eraseWsSession i s) = g_nextWsId s" "g_wsRoutes (eraseWsSession i s) = g_wsRoutes s"
  "g_wsEvents (eraseWsSession i s) = g_wsEvents s"
  by (simp_all add: eraseWsSession_def takeWsSession_def dropFromAllRooms_def)

lemma findWsSession_eq: "findWsSession s = map_of (g_wsSessions s)"
  by (rule ext) (simp add: findWsSession_def)

interpretation wt: id_table findWsSession g_nextWsId emplaceWsSession eraseWsSession
  by unfold_locales (simp_all add: findWsSession_eq map_of_drop_key emplaceWsSession_def)

interpretation wq: bridge_queue "\<lambda>ev s. (True, enqueueWsEvent ev s)" swapWsEvents g_wsEvents
  by unfold_locales (auto simp: ws_defs)

section \<open>Admission\<close>

text \<open>
  The interleavings of the I/O threads as far as the session counters are concerned. A connection
  between its \<^verbatim>\<open>fetch_add\<close> and the insertion of its session is in \<open>pd_admitted\<close>, one between its
  \<^verbatim>\<open>fetch_add\<close> and the \<^verbatim>\<open>fetch_sub\<close> of its refusal in \<open>pd_refused\<close>, and a session that has left the
  table but not yet given its slot back in \<open>pd_taken\<close>. Every other operation leaves the slots alone.
\<close>

record pending_slots =
  pd_admitted :: "(int \<times> nat) list"       \<comment> \<open>route and connection\<close>
  pd_refused :: "nat list"                \<comment> \<open>counters\<close>
  pd_taken :: "ws_session list"

definition slot_view :: "wsys \<Rightarrow> (uint64 \<times> int \<times> nat option \<times> bool) list" where
  "slot_view s = map (\<lambda>(k, sn). (k, sn_route_id sn, sn_live_counter sn, sn_counted sn)) (g_wsSessions s)"

definition same_slots :: "wsys \<Rightarrow> wsys \<Rightarrow> bool" where
  "same_slots s t \<longleftrightarrow> slot_view t = slot_view s \<and> g_wsCounters t = g_wsCounters s
     \<and> g_wsRoutes t = g_wsRoutes s \<and> g_nextWsId t = g_nextWsId s"

inductive slot_step :: "wsys \<times> pending_slots \<Rightarrow> wsys \<times> pending_slots \<Rightarrow> bool" where
  admit: "cppFnForRoute s rid \<noteq> None \<Longrightarrow> guarded (guardsForRoute s rid) = Some c \<Longrightarrow>
     tryAdmit c (gd_max_conns (guardsForRoute s rid)) s = (True, s1) \<Longrightarrow>
     slot_step (s, p) (s1, p\<lparr>pd_admitted := (rid, conn) # pd_admitted p\<rparr>)"
| refuse: "cppFnForRoute s rid \<noteq> None \<Longrightarrow> guarded (guardsForRoute s rid) = Some c \<Longrightarrow>
     tryAdmit c (gd_max_conns (guardsForRoute s rid)) s = (False, s1) \<Longrightarrow>
     slot_step (s, p) (s1, p\<lparr>pd_refused := c # pd_refused p\<rparr>)"
| rollback: "c \<in> set (pd_refused p) \<Longrightarrow>
     slot_step (s, p) (refuseConn conn (rollbackAdmit c s), p\<lparr>pd_refused := remove1 c (pd_refused p)\<rparr>)"
| register: "(rid, conn) \<in> set (pd_admitted p) \<Longrightarrow> g_nextWsId s \<noteq> - 1 \<Longrightarrow>
     slot_step (s, p) (registerConn now rid (cppFnForRoute s rid) (guardsForRoute s rid) conn s,
                       p\<lparr>pd_admitted := remove1 (rid, conn) (pd_admitted p)\<rparr>)"
| register_cpp: "cppFnForRoute s rid \<noteq> None \<Longrightarrow> guarded (guardsForRoute s rid) = None \<Longrightarrow> g_nextWsId s \<noteq> - 1 \<Longrightarrow>
     slot_step (s, p) (registerConn now rid (cppFnForRoute s rid) (guardsForRoute s rid) conn s, p)"
| register_hooks: "cppFnForRoute s rid = None \<Longrightarrow> g_nextWsId s \<noteq> - 1 \<Longrightarrow>
     slot_step (s, p) (registerConn now rid None no_guards conn s, p)"
| take: "takeWsSession i s = (Some sn, s1) \<Longrightarrow>
     slot_step (s, p) (s1, p\<lparr>pd_taken := sn # pd_taken p\<rparr>)"
| give_back: "sn \<in> set (pd_taken p) \<Longrightarrow>
     slot_step (s, p) (giveBackSlot (Some sn) s, p\<lparr>pd_taken := remove1 sn (pd_taken p)\<rparr>)"
| other: "same_slots s t \<Longrightarrow> slot_step (s, p) (t, p)"

lemma slot_view_update [simp]:
  "(\<And>sn. sn_route_id (f sn) = sn_route_id sn \<and> sn_live_counter (f sn) = sn_live_counter sn
      \<and> sn_counted (f sn) = sn_counted sn) \<Longrightarrow> slot_view (updateWsSession i f s) = slot_view s"
  by (auto simp: slot_view_def updateWsSession_def)

lemma updateWsSession_frame [simp]:
  "g_wsCounters (updateWsSession i f s) = g_wsCounters s" "g_wsRoutes (updateWsSession i f s) = g_wsRoutes s"
  "g_nextWsId (updateWsSession i f s) = g_nextWsId s" "g_wsEvents (updateWsSession i f s) = g_wsEvents s"
  "wx_queue (updateWsSession i f s) = wx_queue s" "g_wsReaperStop (updateWsSession i f s) = g_wsReaperStop s"
  by (simp_all add: updateWsSession_def)

lemma slot_view_frame [simp]:
  "slot_view (queueWs c a s) = slot_view s" "slot_view (s\<lparr>g_wsRooms := rs\<rparr>) = slot_view s"
  "slot_view (s\<lparr>wx_cpp_calls := cs\<rparr>) = slot_view s" "slot_view (s\<lparr>g_wsEvents := es\<rparr>) = slot_view s"
  by (simp_all add: slot_view_def queueWs_def)

lemma queueWs_frame [simp]:
  "g_wsCounters (queueWs c a s) = g_wsCounters s" "g_wsRoutes (queueWs c a s) = g_wsRoutes s"
  "g_nextWsId (queueWs c a s) = g_nextWsId s" "g_wsSessions (queueWs c a s) = g_wsSessions s"
  "g_wsEvents (queueWs c a s) = g_wsEvents s" "wx_queue (queueWs c a s) = wx_queue s @ [(c, a)]"
  "g_wsReaperStop (queueWs c a s) = g_wsReaperStop s"
  by (simp_all add: queueWs_def)

lemma same_slots_refl [simp]: "same_slots s s"
  by (simp add: same_slots_def)

lemma same_slots_trans: "same_slots s t \<Longrightarrow> same_slots t u \<Longrightarrow> same_slots s u"
  by (simp add: same_slots_def)

lemma same_slots_fold:
  "(\<And>x s. same_slots s (f x s)) \<Longrightarrow> same_slots s (fold f xs s)"
  by (induction xs arbitrary: s) (auto intro: same_slots_trans)

text \<open>The operations that leave the slots alone.\<close>

lemma same_slots_ops:
  "same_slots s (sendToConn i d b s)"
  "same_slots s (snd (wsCppSend now i d b s))"
  "same_slots s (shutdownSession i s)"
  "same_slots s (dispatchCpp i sn cev s)"
  "same_slots s (handleNewMessage conn m b s)"
  "same_slots s (roomJoin r i s)" "same_slots s (roomLeave r i s)" "same_slots s (dropFromAllRooms i s)"
  "same_slots s (snd (swapWsEvents s))"
  "same_slots s (enqueueWsEvent ev s)"
  by (auto simp: same_slots_def sendToConn_def wsCppSend_def shutdownSession_def dispatchCpp_def handleNewMessage_def
      roomJoin_def roomLeave_def dropFromAllRooms_def swapWsEvents_def enqueueWsEvent_def split: option.splits)

lemma same_slots_broadcast: "same_slots s (snd (roomBroadcast r d b s))"
  by (auto simp: roomBroadcast_def same_slots_ops split: option.splits intro: same_slots_fold)

lemma same_slots_reap: "same_slots s (reapExpiredSessions now s)"
proof -
  have step: "same_slots s (queueWs (sn_conn sn) WsShutdownAct (updateWsSession i (\<lambda>sn. sn\<lparr>sn_closing := True\<rparr>) s))" for i sn s
    by (simp add: same_slots_def)
  show ?thesis
    unfolding reapExpiredSessions_def Let_def by (auto intro!: same_slots_fold step split: prod.split)
qed

lemma same_slots_api: "same_slots s (ws_api_call ub c s)"
proof (cases c)
  case (ApiBroadcast r m b)
  then show ?thesis
    using same_slots_broadcast [of s]
    by (auto simp: drogonR_ws_broadcast_def split: option.splits prod.splits) (metis snd_conv)
qed (auto simp: drogonR_ws_send_def drogonR_ws_close_def drogonR_ws_join_def drogonR_ws_leave_def same_slots_ops
       split: option.splits)

text \<open>The slots of a counter that are in use, by where they are accounted for.\<close>

definition holds_slot :: "nat \<Rightarrow> ws_session \<Rightarrow> bool" where
  "holds_slot c sn \<longleftrightarrow> sn_live_counter sn = Some c \<and> sn_counted sn"

definition live_slots :: "nat \<Rightarrow> wsys \<Rightarrow> nat" where
  "live_slots c s = length (filter (\<lambda>(_, _, l, n). l = Some c \<and> n) (slot_view s))"

definition admitted_slots :: "nat \<Rightarrow> wsys \<Rightarrow> pending_slots \<Rightarrow> nat" where
  "admitted_slots c s p = length (filter (\<lambda>(rid, _). guarded (guardsForRoute s rid) = Some c) (pd_admitted p))"

definition taken_slots :: "nat \<Rightarrow> pending_slots \<Rightarrow> nat" where
  "taken_slots c p = length (filter (holds_slot c) (pd_taken p))"

definition refused_slots :: "nat \<Rightarrow> pending_slots \<Rightarrow> nat" where
  "refused_slots c p = length (filter (\<lambda>d. d = c) (pd_refused p))"

definition guarded_route :: "wsys \<Rightarrow> int \<Rightarrow> nat \<Rightarrow> int \<Rightarrow> bool" where
  "guarded_route s rid c m \<longleftrightarrow> cppFnForRoute s rid \<noteq> None \<and> guarded (guardsForRoute s rid) = Some c
     \<and> gd_max_conns (guardsForRoute s rid) = m"

text \<open>Every route has its own counter.\<close>

definition own_counters :: "wsys \<Rightarrow> bool" where
  "own_counters s \<longleftrightarrow> distinct (map wr_live (g_wsRoutes s))"

definition count_ok :: "nat \<Rightarrow> int \<Rightarrow> wsys \<Rightarrow> pending_slots \<Rightarrow> bool" where
  "count_ok c m s p \<longleftrightarrow>
     g_wsCounters s c = int (live_slots c s + admitted_slots c s p + taken_slots c p + refused_slots c p)
     \<and> int (live_slots c s + admitted_slots c s p + taken_slots c p) \<le> m"

text \<open>A session of a guarded route holds a slot of the route's counter.\<close>

definition view_ok :: "wsys \<Rightarrow> uint64 \<times> int \<times> nat option \<times> bool \<Rightarrow> bool" where
  "view_ok s v \<longleftrightarrow> (case v of (k, rid, l, n) \<Rightarrow>
     k < g_nextWsId s \<and> (\<forall>c m. guarded_route s rid c m \<longrightarrow> l = Some c \<and> n))"

definition admit_ok :: "wsys \<Rightarrow> int \<times> nat \<Rightarrow> bool" where
  "admit_ok s a \<longleftrightarrow> cppFnForRoute s (fst a) \<noteq> None \<and> guarded (guardsForRoute s (fst a)) \<noteq> None"

definition slots_struct :: "wsys \<Rightarrow> pending_slots \<Rightarrow> bool" where
  "slots_struct s p \<longleftrightarrow>
     own_counters s \<and> distinct (map fst (slot_view s)) \<and> (\<forall>v \<in> set (slot_view s). view_ok s v)
     \<and> (\<forall>a \<in> set (pd_admitted p). admit_ok s a)"

definition slots_inv :: "wsys \<times> pending_slots \<Rightarrow> bool" where
  "slots_inv x \<longleftrightarrow> (case x of (s, p) \<Rightarrow>
     slots_struct s p \<and> (\<forall>rid c m. guarded_route s rid c m \<longrightarrow> count_ok c m s p))"

lemma guards_cong:
  "g_wsRoutes t = g_wsRoutes s \<Longrightarrow> cppFnForRoute t = cppFnForRoute s"
  "g_wsRoutes t = g_wsRoutes s \<Longrightarrow> guardsForRoute t = guardsForRoute s"
  by (rule ext, simp add: cppFnForRoute_def guardsForRoute_def wsRoute_def)+

lemma guarded_route_cong:
  assumes "g_wsRoutes t = g_wsRoutes s"
  shows "guarded_route t = guarded_route s"
  by (intro ext) (simp only: guarded_route_def guards_cong [OF assms])

lemma guarded_route_own:
  assumes "own_counters s" and "guarded_route s rid c m" and "guarded_route s rid' c m'"
  shows "rid = rid' \<and> m = m'"
proof -
  obtain r r' where r: "wsRoute s rid = Some r" "wr_live r = c" and r': "wsRoute s rid' = Some r'" "wr_live r' = c"
    using assms(2,3)
    by (auto simp: guarded_route_def guardsForRoute_def guarded_def no_guards_def split: option.splits if_splits)
  then have "nat rid < length (g_wsRoutes s)" "nat rid' < length (g_wsRoutes s)"
    "map wr_live (g_wsRoutes s) ! nat rid = map wr_live (g_wsRoutes s) ! nat rid'"
    by (auto simp: wsRoute_def split: if_splits)
  with assms(1) have "nat rid = nat rid'"
    by (simp add: own_counters_def nth_eq_iff_index_eq del: nth_map)
  then have "rid = rid'" using r(1) r'(1) by (auto simp: wsRoute_def split: if_splits)
  then show ?thesis using assms(2,3) by (auto simp: guarded_route_def)
qed

lemma struct_cong:
  assumes "g_wsRoutes t = g_wsRoutes s" and "g_nextWsId t = g_nextWsId s"
  shows "own_counters t = own_counters s" "view_ok t = view_ok s" "admit_ok t = admit_ok s"
  by (simp_all only: fun_eq_iff own_counters_def view_ok_def admit_ok_def assms guards_cong [OF assms(1)]
      guarded_route_cong [OF assms(1)] simp_thms)

lemma slots_frame_pd [simp]:
  "admitted_slots c s (p\<lparr>pd_refused := r\<rparr>) = admitted_slots c s p" "admitted_slots c s (p\<lparr>pd_taken := t\<rparr>) = admitted_slots c s p"
  "taken_slots c (p\<lparr>pd_refused := r\<rparr>) = taken_slots c p" "taken_slots c (p\<lparr>pd_admitted := a\<rparr>) = taken_slots c p"
  "refused_slots c (p\<lparr>pd_admitted := a\<rparr>) = refused_slots c p" "refused_slots c (p\<lparr>pd_taken := t\<rparr>) = refused_slots c p"
  by (simp_all add: admitted_slots_def taken_slots_def refused_slots_def)

lemma length_filter_remove1:
  "x \<in> set xs \<Longrightarrow> length (filter P (remove1 x xs)) = length (filter P xs) - (if P x then 1 else 0)"
  by (simp add: filter_remove1 length_remove1)

lemma filter_pos: "x \<in> set xs \<Longrightarrow> P x \<Longrightarrow> 0 < length (filter P xs)"
  by (auto simp: filter_empty_conv)

lemma slots_inv_admit:
  assumes inv: "slots_inv (s, p)" and g: "cppFnForRoute s rid \<noteq> None" "guarded (guardsForRoute s rid) = Some c"
    and a: "tryAdmit c (gd_max_conns (guardsForRoute s rid)) s = (ok, s1)"
  shows "slots_inv (s1, if ok then p\<lparr>pd_admitted := (rid, conn) # pd_admitted p\<rparr> else p\<lparr>pd_refused := c # pd_refused p\<rparr>)"
    (is "slots_inv (s1, ?q)")
proof -
  have s1: "g_wsRoutes s1 = g_wsRoutes s" "slot_view s1 = slot_view s" "g_nextWsId s1 = g_nextWsId s"
    "g_wsCounters s1 = (g_wsCounters s)(c := g_wsCounters s c + 1)"
    and ok: "ok \<longleftrightarrow> g_wsCounters s c + 1 \<le> gd_max_conns (guardsForRoute s rid)"
    using a by (auto simp: tryAdmit_def Let_def slot_view_def)
  note cong = guards_cong [OF s1(1)] guarded_route_cong [OF s1(1)] struct_cong [OF s1(1,3)]
  have gr: "guarded_route s rid c (gd_max_conns (guardsForRoute s rid))" using g by (simp add: guarded_route_def)
  have struct: "slots_struct s p" using inv by (simp add: slots_inv_def)
  then have "slots_struct s1 ?q" using g by (simp add: slots_struct_def cong s1 admit_ok_def)
  moreover have "count_ok c' m' s1 ?q" if gr': "guarded_route s rid' c' m'" for rid' c' m'
  proof (cases "c' = c")
    case True
    with guarded_route_own [OF _ gr] gr' struct have "m' = gd_max_conns (guardsForRoute s rid)"
      by (auto simp: slots_struct_def)
    moreover have "count_ok c m' s p" using inv gr' True by (simp add: slots_inv_def)
    ultimately show ?thesis
      using True ok g(2)
      by (simp add: count_ok_def live_slots_def admitted_slots_def refused_slots_def s1 cong)
  next
    case False
    moreover have "count_ok c' m' s p" using inv gr' by (auto simp: slots_inv_def)
    ultimately show ?thesis
      using g(2) by (simp add: count_ok_def live_slots_def admitted_slots_def refused_slots_def s1 cong)
  qed
  ultimately show ?thesis by (simp add: slots_inv_def cong)
qed

lemma slots_inv_rollback:
  assumes inv: "slots_inv (s, p)" and c: "c \<in> set (pd_refused p)"
  shows "slots_inv (refuseConn conn (rollbackAdmit c s), p\<lparr>pd_refused := remove1 c (pd_refused p)\<rparr>)" (is "slots_inv (?s, ?q)")
proof -
  have s1: "g_wsRoutes ?s = g_wsRoutes s" "slot_view ?s = slot_view s" "g_nextWsId ?s = g_nextWsId s"
    "g_wsCounters ?s = (g_wsCounters s)(c := g_wsCounters s c - 1)"
    by (simp_all add: refuseConn_def rollbackAdmit_def slot_view_def)
  note cong = guards_cong [OF s1(1)] guarded_route_cong [OF s1(1)] struct_cong [OF s1(1,3)]
  have "slots_struct ?s ?q" using inv by (simp add: slots_inv_def slots_struct_def cong s1)
  moreover have "count_ok c' m' ?s ?q" if "guarded_route s rid' c' m'" for rid' c' m'
  proof -
    have "count_ok c' m' s p" using inv that by (auto simp: slots_inv_def)
    moreover have "refused_slots c' ?q = refused_slots c' p - (if c' = c then 1 else 0)"
      using length_filter_remove1 [OF c, of "\<lambda>d. d = c'"] by (auto simp: refused_slots_def)
    moreover have "c' = c \<longrightarrow> 0 < refused_slots c' p"
      using filter_pos [OF c, of "\<lambda>d. d = c"] by (simp add: refused_slots_def)
    ultimately show ?thesis
      by (auto simp: count_ok_def live_slots_def s1 admitted_slots_def cong)
  qed
  ultimately show ?thesis by (simp add: slots_inv_def cong)
qed

lemma slots_inv_other:
  assumes inv: "slots_inv (s, p)" and same: "same_slots s t"
  shows "slots_inv (t, p)"
proof -
  have e: "slot_view t = slot_view s" "g_wsCounters t = g_wsCounters s" "g_wsRoutes t = g_wsRoutes s"
    "g_nextWsId t = g_nextWsId s" using same by (auto simp: same_slots_def)
  note cong = guards_cong [OF e(3)] guarded_route_cong [OF e(3)] struct_cong [OF e(3,4)]
  show ?thesis
    using inv by (simp add: slots_inv_def slots_struct_def count_ok_def live_slots_def admitted_slots_def e cong)
qed

lemma registerConn_frame:
  "slot_view (registerConn now rid f g conn s) =
     (g_nextWsId s, rid, if f \<noteq> None then guarded g else None, f \<noteq> None \<and> guarded g \<noteq> None) # slot_view s"
  "g_wsCounters (registerConn now rid f g conn s) = g_wsCounters s"
  "g_wsRoutes (registerConn now rid f g conn s) = g_wsRoutes s"
  "g_nextWsId (registerConn now rid f g conn s) = g_nextWsId s + 1"
  by (auto simp: registerConn_def newWsSession_def dispatchCpp_def enqueueWsEvent_def emplaceWsSession_def
      slot_view_def Let_def split: option.splits)

text \<open>Insertion under a fresh id.\<close>

lemma slots_struct_register:
  assumes st: "slots_struct s p" and nowrap: "g_nextWsId s \<noteq> - 1"
    and t: "slot_view t = (g_nextWsId s, rid, l, n) # slot_view s" "g_wsRoutes t = g_wsRoutes s"
      "g_nextWsId t = g_nextWsId s + 1"
    and right: "\<And>c m. guarded_route s rid c m \<Longrightarrow> l = Some c \<and> n"
    and sub: "set (pd_admitted q) \<subseteq> set (pd_admitted p)"
  shows "slots_struct t q"
proof -
  have gr: "guarded_route t = guarded_route s" by (rule guarded_route_cong [OF t(2)])
  have keep: "view_ok t v" if "view_ok s v" for v
    using that nowrap unfolding view_ok_def gr t(3) by (auto simp: word_less_inc)
  have new: "view_ok t (g_nextWsId s, rid, l, n)"
    using right nowrap unfolding view_ok_def gr t(3) by (auto simp: word_less_inc)
  have "g_nextWsId s \<notin> fst ` set (slot_view s)"
    using st by (auto simp: slots_struct_def view_ok_def)
  moreover have "admit_ok t = admit_ok s"
    by (simp only: fun_eq_iff admit_ok_def guards_cong [OF t(2)] simp_thms)
  ultimately show ?thesis
    using st keep new sub by (auto simp: slots_struct_def own_counters_def t)
qed

lemma slots_inv_register:
  assumes inv: "slots_inv (s, p)" and a: "(rid, conn) \<in> set (pd_admitted p)" and nowrap: "g_nextWsId s \<noteq> - 1"
  shows "slots_inv (registerConn now rid (cppFnForRoute s rid) (guardsForRoute s rid) conn s,
            p\<lparr>pd_admitted := remove1 (rid, conn) (pd_admitted p)\<rparr>)" (is "slots_inv (?s, ?q)")
proof -
  note fr = registerConn_frame [of now rid "cppFnForRoute s rid" "guardsForRoute s rid" conn s]
  note cong = guards_cong [OF fr(3)] guarded_route_cong [OF fr(3)]
  have st: "slots_struct s p" using inv by (simp add: slots_inv_def)
  with a have ok: "cppFnForRoute s rid \<noteq> None" "guarded (guardsForRoute s rid) \<noteq> None"
    by (auto simp: slots_struct_def admit_ok_def)
  then obtain c where c: "guarded (guardsForRoute s rid) = Some c" by auto
  have view: "slot_view ?s = (g_nextWsId s, rid, Some c, True) # slot_view s" using fr(1) ok c by simp
  have "slots_struct ?s ?q"
    by (rule slots_struct_register [OF st nowrap view fr(3,4)])
      (use c in \<open>auto simp: guarded_route_def dest: notin_set_remove1 set_remove1_subset [THEN subsetD]\<close>)
  moreover have "count_ok c' m' ?s ?q" if "guarded_route s rid' c' m'" for rid' c' m'
  proof -
    let ?P = "\<lambda>(rid, _). guarded (guardsForRoute s rid) = Some c'"
    have "count_ok c' m' s p" using inv that by (auto simp: slots_inv_def)
    moreover have "admitted_slots c' ?s ?q = admitted_slots c' s p - (if c' = c then 1 else 0)"
      using length_filter_remove1 [OF a, of ?P] c by (auto simp: admitted_slots_def cong)
    moreover have "c' = c \<longrightarrow> 0 < admitted_slots c' s p"
      using filter_pos [OF a, of ?P] c by (auto simp: admitted_slots_def)
    moreover have "live_slots c' ?s = live_slots c' s + (if c' = c then 1 else 0)"
      by (simp add: live_slots_def view)
    ultimately show ?thesis by (auto simp: count_ok_def fr(2))
  qed
  ultimately show ?thesis by (simp add: slots_inv_def cong)
qed

text \<open>A route without a guard has no slots to account for.\<close>

lemma slots_inv_register_free:
  assumes inv: "slots_inv (s, p)" and nowrap: "g_nextWsId s \<noteq> - 1"
    and free: "\<And>c m. \<not> guarded_route s rid c m" and none: "f = None \<or> guarded g = None"
  shows "slots_inv (registerConn now rid f g conn s, p)" (is "slots_inv (?s, p)")
proof -
  note fr = registerConn_frame [of now rid f g conn s]
  note cong = guards_cong [OF fr(3)] guarded_route_cong [OF fr(3)]
  have st: "slots_struct s p" using inv by (simp add: slots_inv_def)
  have view: "slot_view ?s = (g_nextWsId s, rid, None, False) # slot_view s" using fr(1) none by auto
  have "slots_struct ?s p" by (rule slots_struct_register [OF st nowrap view fr(3,4)]) (use free in auto)
  moreover have "count_ok c' m' ?s p" if "guarded_route s rid' c' m'" for rid' c' m'
  proof -
    have "count_ok c' m' s p" using inv that by (auto simp: slots_inv_def)
    then show ?thesis by (simp add: count_ok_def live_slots_def view admitted_slots_def cong fr(2))
  qed
  ultimately show ?thesis by (simp add: slots_inv_def cong)
qed

lemma length_filter_drop_key:
  "distinct (map fst xs) \<Longrightarrow> map_of xs i = Some v \<Longrightarrow>
     length (filter P (filter (\<lambda>(k, _). k \<noteq> i) xs)) = length (filter P xs) - (if P (i, v) then 1 else 0)
     \<and> (P (i, v) \<longrightarrow> 0 < length (filter P xs))"
proof (induction xs)
  case (Cons x xs)
  have same: "filter (\<lambda>(k, _). k \<noteq> i) xs = xs" if "i \<notin> fst ` set xs"
    using that by (intro filter_True) force
  obtain k w where x: "x = (k, w)" by fastforce
  show ?case
  proof (cases "k = i")
    case True
    with Cons.prems x have "v = w" "i \<notin> fst ` set xs" by auto
    with same True x show ?thesis by auto
  next
    case False
    with Cons x show ?thesis by auto
  qed
qed simp

lemma slots_inv_take:
  assumes inv: "slots_inv (s, p)" and t: "takeWsSession i s = (Some sn, s1)"
  shows "slots_inv (s1, p\<lparr>pd_taken := sn # pd_taken p\<rparr>)" (is "slots_inv (s1, ?q)")
proof -
  let ?v = "(sn_route_id sn, sn_live_counter sn, sn_counted sn)"
  have s1: "slot_view s1 = filter (\<lambda>(k, _). k \<noteq> i) (slot_view s)" "g_wsRoutes s1 = g_wsRoutes s"
    "g_wsCounters s1 = g_wsCounters s" "g_nextWsId s1 = g_nextWsId s"
    using t by (auto simp: takeWsSession_def slot_view_def filter_map comp_def case_prod_unfold split: option.splits)
  have m: "map_of (slot_view s) i = Some ?v"
    using t by (auto simp: takeWsSession_def findWsSession_def slot_view_def map_of_map split: option.splits)
  note cong = guards_cong [OF s1(2)] guarded_route_cong [OF s1(2)] struct_cong [OF s1(2,4)]
  have st: "slots_struct s p" using inv by (simp add: slots_inv_def)
  then have d: "distinct (map fst (slot_view s))" by (simp add: slots_struct_def)
  have "slots_struct s1 ?q"
    using st by (auto simp: slots_struct_def cong s1 intro: distinct_map_filter)
  moreover have "count_ok c' m' s1 ?q" if "guarded_route s rid' c' m'" for rid' c' m'
  proof -
    have "count_ok c' m' s p" using inv that by (auto simp: slots_inv_def)
    moreover note length_filter_drop_key [OF d m, of "\<lambda>(_, _, l, n). l = Some c' \<and> n"]
    ultimately show ?thesis
      by (cases "holds_slot c' sn")
        (auto simp: count_ok_def live_slots_def s1 admitted_slots_def cong taken_slots_def holds_slot_def
          simp del: length_greater_0_conv filter_filter)
  qed
  ultimately show ?thesis by (simp add: slots_inv_def cong)
qed

lemma slots_inv_give_back:
  assumes inv: "slots_inv (s, p)" and sn: "sn \<in> set (pd_taken p)"
  shows "slots_inv (giveBackSlot (Some sn) s, p\<lparr>pd_taken := remove1 sn (pd_taken p)\<rparr>)" (is "slots_inv (?s, ?q)")
proof -
  have e: "slot_view ?s = slot_view s" by (simp add: slot_view_def)
  have r: "g_wsRoutes ?s = g_wsRoutes s" "g_nextWsId ?s = g_nextWsId s" by simp_all
  note cong = guards_cong [OF r(1)] guarded_route_cong [OF r(1)] struct_cong [OF r]
  have counter: "g_wsCounters ?s c = g_wsCounters s c - (if holds_slot c sn then 1 else 0)" for c
    by (auto simp: giveBackSlot_def holds_slot_def split: option.splits)
  have "slots_struct ?s ?q" using inv by (simp add: slots_inv_def slots_struct_def cong e)
  moreover have "count_ok c m ?s ?q" if "guarded_route s rid c m" for rid c m
  proof -
    have "count_ok c m s p" using inv that by (auto simp: slots_inv_def)
    moreover have "taken_slots c ?q = taken_slots c p - (if holds_slot c sn then 1 else 0)"
      using length_filter_remove1 [OF sn, of "holds_slot c"] by (simp add: taken_slots_def)
    moreover have "holds_slot c sn \<longrightarrow> 0 < taken_slots c p"
      using filter_pos [OF sn, of "holds_slot c"] by (simp add: taken_slots_def)
    ultimately show ?thesis
      by (auto simp: count_ok_def live_slots_def e admitted_slots_def cong refused_slots_def counter)
  qed
  ultimately show ?thesis by (simp add: slots_inv_def cong)
qed

lemma slots_inv_step: "slot_step x y \<Longrightarrow> slots_inv x \<Longrightarrow> slots_inv y"
proof (induction rule: slot_step.induct)
  case (admit s rid c s1 p conn)
  then show ?case using slots_inv_admit [of s p rid c True s1 conn] by simp
next
  case (refuse s rid c s1 p)
  then show ?case using slots_inv_admit [of s p rid c False s1] by simp
next
  case (register_cpp s rid p now conn)
  then show ?case by (intro slots_inv_register_free) (auto simp: guarded_route_def)
next
  case (register_hooks s rid p now conn)
  then show ?case by (intro slots_inv_register_free) (auto simp: guarded_route_def)
qed (auto intro: slots_inv_rollback slots_inv_register slots_inv_take slots_inv_give_back slots_inv_other)

text \<open>Before the server starts: routes with counters of their own at 0, and no session.\<close>

definition ws_fresh :: "wsys \<Rightarrow> bool" where
  "ws_fresh s \<longleftrightarrow> g_wsSessions s = [] \<and> own_counters s \<and> (\<forall>r \<in> set (g_wsRoutes s). g_wsCounters s (wr_live r) = 0)"

definition no_pending :: pending_slots where
  "no_pending = \<lparr>pd_admitted = [], pd_refused = [], pd_taken = []\<rparr>"

lemma guarded_route_in:
  assumes "guarded_route s rid c m"
  obtains r where "r \<in> set (g_wsRoutes s)" "wr_live r = c" "m > 0"
proof (rule that [of "g_wsRoutes s ! nat rid"])
  show "g_wsRoutes s ! nat rid \<in> set (g_wsRoutes s)" "wr_live (g_wsRoutes s ! nat rid) = c" "m > 0"
    using assms
    by (auto simp: guarded_route_def guardsForRoute_def guarded_def no_guards_def wsRoute_def split: if_splits option.splits)
qed

lemma slots_inv_fresh: "ws_fresh s \<Longrightarrow> slots_inv (s, no_pending)"
  by (auto simp: ws_fresh_def slots_inv_def slots_struct_def no_pending_def slot_view_def count_ok_def live_slots_def
      admitted_slots_def taken_slots_def refused_slots_def elim!: guarded_route_in)

lemma slots_inv_run: "slot_step\<^sup>*\<^sup>* x y \<Longrightarrow> slots_inv x \<Longrightarrow> slots_inv y"
  by (induction rule: rtranclp_induct) (auto dest: slots_inv_step)

text \<open>The handlers, run without interruption, are sequences of these steps.\<close>

lemma eraseWsSession_steps: "slot_step\<^sup>*\<^sup>* (s, p) (eraseWsSession i s, p)"
proof (cases "findWsSession s i")
  case None
  then have "filter (\<lambda>(k, _). k \<noteq> i) (g_wsSessions s) = g_wsSessions s"
    by (intro filter_True) (force simp: findWsSession_eq map_of_eq_None_iff)
  then have "same_slots s (eraseWsSession i s)"
    using None by (simp add: same_slots_def slot_view_def eraseWsSession_def takeWsSession_def giveBackSlot_def dropFromAllRooms_def)
  then show ?thesis by (blast intro: slot_step.other)
next
  case (Some sn)
  let ?s1 = "snd (takeWsSession i s)"
  have "slot_step\<^sup>*\<^sup>* (s, p) (?s1, p\<lparr>pd_taken := sn # pd_taken p\<rparr>)"
    using Some by (intro r_into_rtranclp slot_step.take [where i = i]) (simp add: takeWsSession_def)
  also have "slot_step\<^sup>*\<^sup>* \<dots> (giveBackSlot (Some sn) ?s1, p)"
    using slot_step.give_back [of sn "p\<lparr>pd_taken := sn # pd_taken p\<rparr>" ?s1] by simp
  also have "slot_step\<^sup>*\<^sup>* \<dots> (eraseWsSession i s, p)"
    using Some same_slots_ops(8) by (auto simp: eraseWsSession_def takeWsSession_def intro!: slot_step.other)
  finally show ?thesis .
qed

lemma handleNewConnection_steps:
  assumes "g_nextWsId s \<noteq> - 1"
  shows "slot_step\<^sup>*\<^sup>* (s, p) (handleNewConnection now path conn s, p)"
proof -
  let ?rid = "routeIdForPath s path"
  let ?g = "guardsForRoute s ?rid"
  consider (hooks) "cppFnForRoute s ?rid = None" | (free) "cppFnForRoute s ?rid \<noteq> None" "guarded ?g = None"
    | (cap) c where "cppFnForRoute s ?rid \<noteq> None" "guarded ?g = Some c" by fastforce
  then show ?thesis
  proof cases
    case hooks
    then show ?thesis
      using slot_step.register_hooks [OF hooks assms]
      by (auto simp: handleNewConnection_def no_guards_def guarded_def)
  next
    case free
    then show ?thesis
      using slot_step.register_cpp [OF free assms] by (auto simp: handleNewConnection_def Let_def)
  next
    case cap
    obtain ok s1 where a: "tryAdmit c (gd_max_conns ?g) s = (ok, s1)" by fastforce
    then have "g_wsRoutes s1 = g_wsRoutes s" and n: "g_nextWsId s1 = g_nextWsId s" by (auto simp: tryAdmit_def Let_def)
    note cong = guards_cong [OF this(1)]
    show ?thesis
    proof (cases ok)
      case True
      then have "slot_step (s, p) (s1, p\<lparr>pd_admitted := (?rid, conn) # pd_admitted p\<rparr>)"
        using cap a by (intro slot_step.admit) auto
      moreover have "slot_step (s1, p\<lparr>pd_admitted := (?rid, conn) # pd_admitted p\<rparr>) (handleNewConnection now path conn s, p)"
        using slot_step.register [of ?rid conn "p\<lparr>pd_admitted := (?rid, conn) # pd_admitted p\<rparr>" s1 now] cap a True assms
        by (auto simp: handleNewConnection_def n cong Let_def)
      ultimately show ?thesis by (meson converse_rtranclp_into_rtranclp r_into_rtranclp)
    next
      case False
      then have "slot_step (s, p) (s1, p\<lparr>pd_refused := c # pd_refused p\<rparr>)"
        using cap a by (intro slot_step.refuse) auto
      moreover have "slot_step (s1, p\<lparr>pd_refused := c # pd_refused p\<rparr>) (handleNewConnection now path conn s, p)"
        using slot_step.rollback [of c "p\<lparr>pd_refused := c # pd_refused p\<rparr>" s1 conn] cap a False
        by (auto simp: handleNewConnection_def)
      ultimately show ?thesis by (meson converse_rtranclp_into_rtranclp r_into_rtranclp)
    qed
  qed
qed

lemma handleConnectionClosed_steps: "slot_step\<^sup>*\<^sup>* (s, p) (handleConnectionClosed conn s, p)"
proof -
  have other: "slot_step (s, p) (dispatchCpp i sn CppClose (updateWsSession i (\<lambda>sn. sn\<lparr>sn_closing := True\<rparr>) s), p)"
    "slot_step (s, p) (enqueueWsEvent ev (updateWsSession i (\<lambda>sn. sn\<lparr>sn_closing := True\<rparr>) s), p)" for i sn ev
    by (rule slot_step.other, simp add: same_slots_def dispatchCpp_def enqueueWsEvent_def split: option.splits)+
  show ?thesis
    using converse_rtranclp_into_rtranclp [where r = slot_step, OF other(1) eraseWsSession_steps]
      r_into_rtranclp [where r = slot_step, OF other(2)]
    by (auto simp: handleConnectionClosed_def Let_def split: option.splits)
qed

text \<open>
  (C9) The cap on concurrent WebSocket sessions holds in every interleaving of the I/O threads: a
  native route with \<open>max_conns = m\<close> never has more than \<open>m\<close> sessions in the table, and whenever no
  handler is in the middle of an admission or a close, the route's counter is the number of sessions
  that hold one of its slots, so no slot is lost or given back twice.
\<close>

theorem ws_capacity:
  assumes "ws_fresh s0" and "slot_step\<^sup>*\<^sup>* (s0, no_pending) (s, p)" and "guarded_route s rid c m"
  shows "int (length (filter (\<lambda>(_, sn). sn_route_id sn = rid) (g_wsSessions s))) \<le> m
     \<and> (p = no_pending \<longrightarrow> g_wsCounters s c = int (length (filter (\<lambda>(_, sn). holds_slot c sn) (g_wsSessions s))))"
proof -
  have inv: "slots_inv (s, p)" using slots_inv_run [OF assms(2)] slots_inv_fresh [OF assms(1)] by blast
  then have c: "count_ok c m s p" using assms(3) by (auto simp: slots_inv_def)
  have live: "live_slots c s = length (filter (\<lambda>(_, sn). holds_slot c sn) (g_wsSessions s))"
    by (simp add: live_slots_def slot_view_def filter_map comp_def case_prod_unfold holds_slot_def)
  have "holds_slot c sn" if "(i, sn) \<in> set (g_wsSessions s)" "sn_route_id sn = rid" for i sn
    using inv that assms(3)
    by (force simp: slots_inv_def slots_struct_def view_ok_def slot_view_def holds_slot_def)
  then have "filter (\<lambda>(_, sn). sn_route_id sn = rid) (g_wsSessions s)
      = filter (\<lambda>(_, sn). sn_route_id sn = rid) (filter (\<lambda>(_, sn). holds_slot c sn) (g_wsSessions s))"
    by (auto simp: filter_filter intro!: filter_cong)
  then have "length (filter (\<lambda>(_, sn). sn_route_id sn = rid) (g_wsSessions s)) \<le> live_slots c s"
    by (metis length_filter_le live)
  with c live show ?thesis
    by (auto simp: count_ok_def no_pending_def admitted_slots_def taken_slots_def refused_slots_def)
qed

lemma ws_capacity_witness:
  "let s0 = snd (addWsRoute ((newWsRoute ''/ws'')\<lparr>wr_cpp_fn := Some 7, wr_max_conns := 1\<rparr>) wsys_init);
       s = handleNewConnection 20 ''/ws'' 6 (handleNewConnection 10 ''/ws'' 5 s0)
   in int (length (filter (\<lambda>(_, sn). sn_route_id sn = 0) (g_wsSessions s))) \<le> 1 \<and> g_wsCounters s 0 = 1
      \<and> wx_refused s = [6]"
proof -
  let ?init = "snd (addWsRoute ((newWsRoute ''/ws'')\<lparr>wr_cpp_fn := Some 7, wr_max_conns := 1\<rparr>) wsys_init)"
  let ?one = "handleNewConnection 10 ''/ws'' 5 ?init"
  let ?two = "handleNewConnection 20 ''/ws'' 6 ?one"
  note ev = handleNewConnection_def addWsRoute_def newWsRoute_def wsys_init_def routeIdForPath_def cppFnForRoute_def
    guardsForRoute_def wsRoute_def guarded_def tryAdmit_def rollbackAdmit_def refuseConn_def registerConn_def
    newWsSession_def emplaceWsSession_def dispatchCpp_def no_guards_def Let_def
  have run: "slot_step\<^sup>*\<^sup>* (?init, no_pending) (?two, no_pending)"
    by (rule rtranclp_trans [OF handleNewConnection_steps handleNewConnection_steps]) (simp_all add: ev)
  have fresh: "ws_fresh ?init" by (simp add: ws_fresh_def own_counters_def ev)
  have cap: "guarded_route ?two 0 0 1" by (simp add: guarded_route_def ev)
  have "length (filter (\<lambda>(_, sn). holds_slot 0 sn) (g_wsSessions ?two)) = 1" "wx_refused ?two = [6]"
    by (simp_all add: ev holds_slot_def)
  with ws_capacity [OF fresh run cap] show ?thesis by (simp add: Let_def)
qed

end
