(* ===== verification/WsDelivery.thy ===== *)
theory WsDelivery
  imports WsSession
begin

text \<open>
  What the WebSocket layer of \<^verbatim>\<open>src/src/ws_session.cpp\<close> promises to R code: rooms are sets of
  connections, the hooks of a connection run in the order of its events, ids survive the trip through
  an R number, and the reaper closes the sessions that are over their limits and no others.
\<close>

section \<open>Rooms\<close>

text \<open>The abstract view: a room is a set of connection ids.\<close>

definition members :: "wsys \<Rightarrow> string \<Rightarrow> uint64 list" where
  "members s room = (case map_of (g_wsRooms s) room of None \<Rightarrow> [] | Some ids \<Rightarrow> ids)"

definition room_sets :: "wsys \<Rightarrow> string \<Rightarrow> uint64 set" where
  "room_sets s room = set (members s room)"

definition rooms_wf :: "wsys \<Rightarrow> bool" where
  "rooms_wf s \<longleftrightarrow> distinct (map fst (g_wsRooms s)) \<and> (\<forall>(r, ids) \<in> set (g_wsRooms s). distinct ids)"

text \<open>The connections a message to \<open>ids\<close> is queued for.\<close>

definition live_conns :: "wsys \<Rightarrow> uint64 list \<Rightarrow> nat list" where
  "live_conns s ids =
     List.map_filter (\<lambda>i. case findWsSession s i of None \<Rightarrow> None | Some sn \<Rightarrow> if sn_closing sn then None else Some (sn_conn sn)) ids"

lemma map_of_map_key: "map_of (map (\<lambda>(k, v). (k, f k v)) xs) k = map_option (f k) (map_of xs k)"
  by (induction xs) auto

lemma map_of_filter_keys:
  "distinct (map fst xs) \<Longrightarrow>
     map_of (filter P xs) k = (case map_of xs k of None \<Rightarrow> None | Some v \<Rightarrow> if P (k, v) then Some v else None)"
proof (induction xs)
  case (Cons x xs)
  then show ?case by (cases x) (auto split: option.splits simp: map_of_eq_None_iff rev_image_eqI)
qed simp

lemma room_sets_join: "room_sets (roomJoin room i s) = (room_sets s)(room := insert i (room_sets s room))"
  by (rule ext) (auto simp: room_sets_def members_def roomJoin_def map_of_map_key option.map_ident split: option.splits)

lemma room_sets_leave:
  assumes "rooms_wf s"
  shows "room_sets (roomLeave room i s) = (room_sets s)(room := room_sets s room - {i})"
proof (rule ext)
  fix r
  let ?ys = "map (\<lambda>(r, ids). (r, if r = room then filter (\<lambda>j. j \<noteq> i) ids else ids)) (g_wsRooms s)"
  have "distinct (map fst ?ys)" using assms by (simp add: rooms_wf_def comp_def case_prod_unfold)
  from map_of_filter_keys [OF this]
  show "room_sets (roomLeave room i s) r = ((room_sets s)(room := room_sets s room - {i})) r"
    by (auto simp: room_sets_def members_def roomLeave_def map_of_map_key option.map_ident filter_empty_conv split: option.splits)
qed

lemma room_sets_drop: "room_sets (dropFromAllRooms i s) = (\<lambda>r. room_sets s r - {i})"
  by (rule ext) (auto simp: room_sets_def members_def dropFromAllRooms_def map_of_map_key split: option.splits)

lemma rooms_wf_ops:
  assumes "rooms_wf s"
  shows "rooms_wf (roomJoin room i s)" "rooms_wf (roomLeave room i s)" "rooms_wf (dropFromAllRooms i s)"
proof -
  note map_fst = comp_def case_prod_unfold
  show "rooms_wf (roomJoin room i s)"
    using assms by (auto simp: rooms_wf_def roomJoin_def map_fst map_of_eq_None_iff split: option.splits)
  show "rooms_wf (roomLeave room i s)"
    using assms by (auto simp: rooms_wf_def roomLeave_def map_fst intro!: distinct_map_filter)
  show "rooms_wf (dropFromAllRooms i s)"
    using assms by (auto simp: rooms_wf_def dropFromAllRooms_def map_fst)
qed

lemma rooms_cong:
  "g_wsRooms t = g_wsRooms s \<Longrightarrow> rooms_wf t = rooms_wf s"
  "g_wsRooms t = g_wsRooms s \<Longrightarrow> room_sets t = room_sets s"
  by (simp_all add: rooms_wf_def room_sets_def members_def fun_eq_iff)

lemma rooms_eraseWsSession: "g_wsRooms (eraseWsSession i s) = g_wsRooms (dropFromAllRooms i s)"
  by (simp add: eraseWsSession_def takeWsSession_def dropFromAllRooms_def giveBackSlot_def split: option.splits)

lemma live_conns_queue [simp]: "live_conns (s\<lparr>wx_queue := q\<rparr>) ids = live_conns s ids"
  by (simp add: live_conns_def findWsSession_def)

lemma live_conns_simps [simp]:
  "live_conns s [] = []"
  "live_conns s (i # ids) =
     (case findWsSession s i of None \<Rightarrow> live_conns s ids
      | Some sn \<Rightarrow> if sn_closing sn then live_conns s ids else sn_conn sn # live_conns s ids)"
  by (auto simp: live_conns_def List.map_filter_def split: option.splits)

lemma fold_sendToConn:
  "fold (\<lambda>i. sendToConn i d b) ids s = s\<lparr>wx_queue := wx_queue s @ map (\<lambda>c. (c, WsSendAct d b)) (live_conns s ids)\<rparr>"
proof (induction ids arbitrary: s)
  case (Cons i ids)
  have "sendToConn i d b s = s\<lparr>wx_queue := wx_queue s @ map (\<lambda>c. (c, WsSendAct d b)) (live_conns s [i])\<rparr>"
    by (auto simp: sendToConn_def queueWs_def split: option.splits)
  moreover have "live_conns s (i # ids) = live_conns s [i] @ live_conns s ids" by (auto split: option.splits)
  ultimately show ?case by (simp add: Cons del: live_conns_simps(2))
qed simp

text \<open>
  (C25) The room table implements a map from room names to sets of connection ids. Joining adds the id
  to that one room, leaving and closing remove it, and a broadcast queues the message exactly once for
  each member whose session exists and is not closing, in the order of the table, touching nothing else.
  The number it returns is the number of members, live or not.
\<close>

theorem rooms_refine_sets:
  assumes "rooms_wf s"
  shows "room_sets (roomJoin room i s) = (room_sets s)(room := insert i (room_sets s room))
    \<and> room_sets (roomLeave room i s) = (room_sets s)(room := room_sets s room - {i})
    \<and> room_sets (eraseWsSession i s) = (\<lambda>r. room_sets s r - {i})
    \<and> rooms_wf (roomJoin room i s) \<and> rooms_wf (roomLeave room i s) \<and> rooms_wf (eraseWsSession i s)
    \<and> distinct (members s room)
    \<and> roomBroadcast room d b s =
        (int (card (room_sets s room)),
         s\<lparr>wx_queue := wx_queue s @ map (\<lambda>c. (c, WsSendAct d b)) (live_conns s (members s room))\<rparr>)"
proof -
  have d: "distinct (members s room)"
    using assms by (auto simp: rooms_wf_def members_def split: option.splits dest!: map_of_SomeD)
  note e = rooms_eraseWsSession [of i s]
  have "rooms_wf (eraseWsSession i s)" "room_sets (eraseWsSession i s) = (\<lambda>r. room_sets s r - {i})"
    using rooms_wf_ops(3) [OF assms, of i] room_sets_drop [of i s] by (simp_all only: rooms_cong [OF e])
  moreover have "card (room_sets s room) = length (members s room)"
    using d by (simp add: room_sets_def distinct_card)
  moreover have "roomBroadcast room d b s =
      (int (length (members s room)),
       s\<lparr>wx_queue := wx_queue s @ map (\<lambda>c. (c, WsSendAct d b)) (live_conns s (members s room))\<rparr>)"
    by (cases "map_of (g_wsRooms s) room") (simp_all add: roomBroadcast_def fold_sendToConn members_def)
  ultimately show ?thesis
    using rooms_wf_ops [OF assms] d room_sets_join room_sets_leave [OF assms] by (simp only: simp_thms)
qed

lemma rooms_refine_sets_witness:
  "let s = roomJoin ''a'' 1 wsys_init
   in room_sets (roomJoin ''a'' 2 s) ''a'' = {1, 2} \<and> room_sets (roomLeave ''a'' 1 s) ''a'' = {}
      \<and> fst (roomBroadcast ''a'' ''hi'' False s) = 1 \<and> wx_queue (snd (roomBroadcast ''a'' ''hi'' False s)) = []"
proof -
  let ?s = "roomJoin ''a'' 1 wsys_init"
  have init: "rooms_wf wsys_init" by (simp add: rooms_wf_def wsys_init_def)
  have wf: "rooms_wf ?s" by (rule rooms_wf_ops(1) [OF init])
  have m: "members ?s ''a'' = [1]" "wx_queue ?s = []" "findWsSession ?s 1 = None"
    by (simp_all add: members_def roomJoin_def wsys_init_def findWsSession_def)
  then have "room_sets ?s ''a'' = {1}" by (simp add: room_sets_def)
  with rooms_refine_sets [OF wf, of "''a''" 2 "''hi''" False] rooms_refine_sets [OF wf, of "''a''" 1 "''hi''" False] m
  show ?thesis by (auto simp: Let_def)
qed

section \<open>Connection ids as R numbers\<close>

lemma u64_to_double_exact: "unat i < 2 ^ 53 \<Longrightarrow> u64_to_double i = Fin (Dbl False (unat i) 0)"
proof -
  assume "unat i < 2 ^ 53"
  then have "floorlog 2 (unat i) \<le> 53" by (simp add: floorlog_leD floorlog_le_iff)
  then show ?thesis by (simp add: u64_to_double_def Let_def)
qed

lemma double_to_u64_nat: "n < 2 ^ 64 \<Longrightarrow> double_to_u64 ub (Fin (Dbl False n 0)) = word_of_nat n"
  by (simp add: double_to_u64_def dbl_trunc_def dbl_num_def dbl_den_def Let_def)

text \<open>A connection handle survives the trip through R: the number the hooks receive, handed back to
  the API, names the same session for every id below \<open>2 ^ 53\<close>. The bound is sharp: the handle of
  \<open>2 ^ 53 + 1\<close> names session \<open>2 ^ 53\<close>.
\<close>

lemma conn_id_round_trip:
  "(unat i < 2 ^ 53 \<longrightarrow> conn_id_arg ub (makeWsConn i) = Some i)
   \<and> conn_id_arg ub (makeWsConn (2 ^ 53 + 1)) = Some (2 ^ 53)"
proof -
  have "floorlog 2 (2 ^ 53 + 1) = (54 :: nat)" by (rule antisym) (simp_all add: floorlog_le_iff floorlog_geI)
  then have "u64_to_double (2 ^ 53 + 1) = Fin (Dbl False (2 ^ 52) 1)"
    by (simp add: u64_to_double_def Let_def)
  then have "conn_id_arg ub (makeWsConn (2 ^ 53 + 1)) = Some (2 ^ 53)"
    by (simp add: makeWsConn_def double_to_u64_def dbl_trunc_def dbl_num_def dbl_den_def Let_def)
  moreover have "conn_id_arg ub (makeWsConn i) = Some i" if "unat i < 2 ^ 53"
    using that double_to_u64_nat [of "unat i" ub]
    by (simp add: makeWsConn_def u64_to_double_exact)
  ultimately show ?thesis by blast
qed

section \<open>The reaper\<close>

definition reaped :: "int \<Rightarrow> ws_session \<Rightarrow> ws_session" where
  "reaped now sn = (if expired now sn then sn\<lparr>sn_closing := True\<rparr> else sn)"

lemma reap_fold:
  assumes "distinct (map fst ex)"
  shows "fold (\<lambda>(i, sn) s. queueWs (sn_conn sn) WsShutdownAct (updateWsSession i (\<lambda>sn. sn\<lparr>sn_closing := True\<rparr>) s)) ex s =
     s\<lparr>g_wsSessions := map (\<lambda>(k, v). (k, if k \<in> fst ` set ex then v\<lparr>sn_closing := True\<rparr> else v)) (g_wsSessions s),
       wx_queue := wx_queue s @ map (\<lambda>(_, sn). (sn_conn sn, WsShutdownAct)) ex\<rparr>"
  using assms
proof (induction ex arbitrary: s)
  case Nil
  then show ?case by (simp add: case_prod_unfold)
next
  case (Cons e ex)
  then show ?case by (auto simp: case_prod_unfold queueWs_def updateWsSession_def)
qed

text \<open>
  One run of the reaper marks as closing, and queues a shutdown for, exactly the native sessions
  that are over their idle or lifetime limit and not closing yet; every other session is untouched. A
  second run at the same time does nothing.
\<close>

lemma reaper_exact:
  assumes "\<not> g_wsReaperStop s" and "distinct (map fst (g_wsSessions s))"
  shows "findWsSession (reapExpiredSessions now s) i = map_option (reaped now) (findWsSession s i)
    \<and> wx_queue (reapExpiredSessions now s) = wx_queue s
        @ map (\<lambda>(_, sn). (sn_conn sn, WsShutdownAct)) (filter (\<lambda>(_, sn). expired now sn) (g_wsSessions s))
    \<and> reapExpiredSessions now (reapExpiredSessions now s) = reapExpiredSessions now s"
proof -
  let ?ex = "filter (\<lambda>(_, sn). expired now sn) (g_wsSessions s)"
  have d: "distinct (map fst ?ex)" using assms(2) by (rule distinct_map_filter)
  have "expired now v \<longleftrightarrow> k \<in> fst ` set ?ex" if "(k, v) \<in> set (g_wsSessions s)" for k v
    using that assms(2) by (force dest: eq_key_imp_eq_value)
  then have sess: "map (\<lambda>(k, v). (k, if k \<in> fst ` set ?ex then v\<lparr>sn_closing := True\<rparr> else v)) (g_wsSessions s)
      = map (\<lambda>(k, v). (k, reaped now v)) (g_wsSessions s)"
    by (intro map_cong) (auto simp: reaped_def)
  have eq: "reapExpiredSessions now s = s\<lparr>g_wsSessions := map (\<lambda>(k, v). (k, reaped now v)) (g_wsSessions s),
      wx_queue := wx_queue s @ map (\<lambda>(_, sn). (sn_conn sn, WsShutdownAct)) ?ex\<rparr>"
    using assms(1) reap_fold [OF d, of s] unfolding sess by (simp add: reapExpiredSessions_def Let_def)
  have "\<not> expired now (reaped now sn)" for sn by (simp add: reaped_def expired_def)
  then have "filter (\<lambda>(_, sn). expired now sn) (map (\<lambda>(k, v). (k, reaped now v)) (g_wsSessions s)) = []"
    by (auto simp: filter_empty_conv)
  then have "reapExpiredSessions now (reapExpiredSessions now s) = reapExpiredSessions now s"
    using assms(1) by (simp add: eq) (simp add: reapExpiredSessions_def)
  then show ?thesis by (simp add: eq findWsSession_def map_of_map)
qed

section \<open>The events of a connection\<close>

text \<open>
  The system as R sees it. The I/O threads report connections, messages and closes, native handlers
  call the thunks, the reaper runs, and the main thread takes the queue and delivers it event by event,
  all interleaved arbitrarily. \<open>ww_batch\<close> is the deque that \<^verbatim>\<open>drainWsEvents\<close> is working on, and
  \<open>ww_delivered\<close> records the events it is done with.
\<close>

datatype ws_op =
    OpConnect int string nat
  | OpMessage nat string bool
  | OpClosed nat
  | OpCppSend int uint64 string bool
  | OpCppClose uint64
  | OpReap int
  | OpApi ws_api
  | OpSwap
  | OpDeliver

record 'w ws_world =
  ww_run :: "'w ws_run"
  ww_batch :: "ws_event list"
  ww_delivered :: "ws_event list"

abbreviation ww_sys :: "'w ws_world \<Rightarrow> wsys" where
  "ww_sys x \<equiv> snd (snd (ww_run x))"

definition ww_upd :: "(wsys \<Rightarrow> wsys) \<Rightarrow> 'w ws_world \<Rightarrow> 'w ws_world" where
  "ww_upd f x = x\<lparr>ww_run := (fst (ww_run x), fst (snd (ww_run x)), f (ww_sys x))\<rparr>"

fun ws_exec :: "uint64 \<Rightarrow> 'w hook_oracle \<Rightarrow> ws_op \<Rightarrow> 'w ws_world \<Rightarrow> 'w ws_world" where
  "ws_exec ub E (OpConnect now path c) x = ww_upd (handleNewConnection now path c) x"
| "ws_exec ub E (OpMessage c m b) x = ww_upd (handleNewMessage c m b) x"
| "ws_exec ub E (OpClosed c) x = ww_upd (handleConnectionClosed c) x"
| "ws_exec ub E (OpCppSend now i d b) x = ww_upd (\<lambda>s. snd (wsCppSend now i d b s)) x"
| "ws_exec ub E (OpCppClose i) x = ww_upd (wsCppClose i) x"
| "ws_exec ub E (OpReap now) x = ww_upd (reapExpiredSessions now) x"
| "ws_exec ub E (OpApi a) x = ww_upd (ws_api_call ub a) x"
| "ws_exec ub E OpSwap x =
     (if ww_batch x \<noteq> [] then x
      else (ww_upd (\<lambda>s. snd (swapWsEvents s)) x)\<lparr>ww_batch := fst (swapWsEvents (ww_sys x))\<rparr>)"
| "ws_exec ub E OpDeliver x =
     (case ww_batch x of
        [] \<Rightarrow> x
      | ev # rest \<Rightarrow> x\<lparr>ww_run := deliverWsEvent ub E ev (ww_run x), ww_delivered := ww_delivered x @ [ev], ww_batch := rest\<rparr>)"

text \<open>\<^verbatim>\<open>drainWsEvents\<close> is a swap followed by one delivery per event.\<close>

lemma ws_exec_deliver_all:
  "fold (ws_exec ub E) (replicate (length evs) OpDeliver) (x\<lparr>ww_batch := evs\<rparr>) =
     x\<lparr>ww_run := fold (deliverWsEvent ub E) evs (ww_run x), ww_batch := [], ww_delivered := ww_delivered x @ evs\<rparr>"
proof (induction evs arbitrary: x)
  case (Cons ev evs)
  from Cons.IH [of "x\<lparr>ww_run := deliverWsEvent ub E ev (ww_run x), ww_delivered := ww_delivered x @ [ev]\<rparr>"]
  show ?case by simp
qed simp

lemma drainWsEvents_exec:
  assumes "ww_batch x = []"
  shows "ww_run (fold (ws_exec ub E) (OpSwap # replicate (length (g_wsEvents (ww_sys x))) OpDeliver) x) =
     drainWsEvents ub E (ww_run x)"
proof -
  obtain w l s where r: "ww_run x = (w, l, s)" by (cases "ww_run x") auto
  with assms show ?thesis
    using ws_exec_deliver_all [of ub E "g_wsEvents s" "ww_upd (\<lambda>s. snd (swapWsEvents s)) x"]
    by (simp add: swapWsEvents_def ww_upd_def drainWsEvents_def)
qed

text \<open>What the framework reports: a connection opens once, then sends messages, then closes once.\<close>

definition opened :: "ws_op list \<Rightarrow> nat list" where
  "opened ops = concat (map (\<lambda>op. case op of OpConnect _ _ c \<Rightarrow> [c] | _ \<Rightarrow> []) ops)"

definition closed_conns :: "ws_op list \<Rightarrow> nat list" where
  "closed_conns ops = concat (map (\<lambda>op. case op of OpClosed c \<Rightarrow> [c] | _ \<Rightarrow> []) ops)"

definition op_fits :: "ws_op list \<Rightarrow> ws_op \<Rightarrow> bool" where
  "op_fits ops op =
     (case op of
        OpConnect _ _ c \<Rightarrow> c \<notin> set (opened ops)
      | OpMessage c _ _ \<Rightarrow> c \<in> set (opened ops) \<and> c \<notin> set (closed_conns ops)
      | OpClosed c \<Rightarrow> c \<in> set (opened ops) \<and> c \<notin> set (closed_conns ops)
      | _ \<Rightarrow> True)"

definition trace_ok :: "ws_op list \<Rightarrow> bool" where
  "trace_ok ops \<longleftrightarrow> (\<forall>k < length ops. op_fits (take k ops) (ops ! k))"

text \<open>The events that the reports about connection \<open>c\<close> stand for, and the hook call for an event.\<close>

definition conn_events :: "uint64 \<Rightarrow> int \<Rightarrow> nat \<Rightarrow> ws_op list \<Rightarrow> ws_event list" where
  "conn_events i rid c ops = concat (map (\<lambda>op. case op of
       OpConnect _ _ c' \<Rightarrow> if c' = c then [ConnectEv i rid] else []
     | OpMessage c' m b \<Rightarrow> if c' = c then [MessageEv i rid m b] else []
     | OpClosed c' \<Rightarrow> if c' = c then [CloseEv i rid] else []
     | _ \<Rightarrow> []) ops)"

fun ev_id :: "ws_event \<Rightarrow> uint64" where
  "ev_id (ConnectEv i _) = i" | "ev_id (MessageEv i _ _ _) = i" | "ev_id (CloseEv i _) = i"

fun hook_call :: "wsys \<Rightarrow> ws_event \<Rightarrow> (sexp \<times> sexp list) list" where
  "hook_call s (ConnectEv i rid) =
     (case hooksForRoute s rid of (h, _, _) \<Rightarrow> if is_closure h then [(h, [makeWsConn i])] else [])"
| "hook_call s (MessageEv i rid m b) =
     (case hooksForRoute s rid of (_, h, _) \<Rightarrow>
        if is_closure h then [(h, [makeWsConn i, STRSXP no_attr [mkChar m], LGLSXP no_attr [if b then 1 else 0]])] else [])"
| "hook_call s (CloseEv i rid) =
     (case hooksForRoute s rid of (_, _, h) \<Rightarrow> if is_closure h then [(h, [makeWsConn i])] else [])"

lemma trace_ok_snoc [simp]: "trace_ok [] " "trace_ok (ops @ [op]) \<longleftrightarrow> trace_ok ops \<and> op_fits ops op"
  by (auto simp: trace_ok_def nth_append less_Suc_eq)

lemma opened_snoc [simp]:
  "opened [] = []" "opened (ops @ [op]) = opened ops @ (case op of OpConnect _ _ c \<Rightarrow> [c] | _ \<Rightarrow> [])"
  by (simp_all add: opened_def)

lemma closed_snoc [simp]:
  "closed_conns [] = []" "closed_conns (ops @ [op]) = closed_conns ops @ (case op of OpClosed c \<Rightarrow> [c] | _ \<Rightarrow> [])"
  by (simp_all add: closed_conns_def)

lemma conn_events_snoc [simp]:
  "conn_events i rid c [] = []"
  "conn_events i rid c (ops @ [op]) = conn_events i rid c ops @ (case op of
       OpConnect _ _ c' \<Rightarrow> if c' = c then [ConnectEv i rid] else []
     | OpMessage c' m b \<Rightarrow> if c' = c then [MessageEv i rid m b] else []
     | OpClosed c' \<Rightarrow> if c' = c then [CloseEv i rid] else []
     | _ \<Rightarrow> [])"
  by (simp_all add: conn_events_def)

lemma conn_events_unopened: "trace_ok ops \<Longrightarrow> c \<notin> set (opened ops) \<Longrightarrow> conn_events i rid c ops = []"
  by (induction ops rule: rev_induct) (auto simp: op_fits_def split: ws_op.splits)

lemma conn_events_close: "CloseEv i r \<in> set (conn_events i rid c ops) \<Longrightarrow> c \<in> set (closed_conns ops)"
  by (induction ops rule: rev_induct) (auto split: ws_op.splits if_splits)

lemma connect_once:
  "trace_ok ops \<Longrightarrow> OpConnect n p c \<in> set ops \<Longrightarrow> OpConnect n' p' c \<in> set ops \<Longrightarrow> n = n' \<and> p = p'"
proof (induction ops rule: rev_induct)
  case (snoc op ops)
  have "OpConnect a b c \<in> set ops \<Longrightarrow> c \<in> set (opened ops)" for a b by (force simp: opened_def)
  with snoc show ?case by (auto simp: op_fits_def)
qed simp

text \<open>The part of the state the protocol depends on; most operations leave it alone.\<close>

definition sess_core :: "wsys \<Rightarrow> (uint64 \<times> int \<times> nat option) list" where
  "sess_core s = map (\<lambda>(k, sn). (k, sn_route_id sn, sn_cpp_fn sn)) (g_wsSessions s)"

definition same_core :: "wsys \<Rightarrow> wsys \<Rightarrow> bool" where
  "same_core s t \<longleftrightarrow> g_wsRoutes t = g_wsRoutes s \<and> wx_context t = wx_context s \<and> g_nextWsId t = g_nextWsId s
     \<and> g_wsEvents t = g_wsEvents s \<and> sess_core t = sess_core s"

lemma same_core_refl [simp]: "same_core s s"
  by (simp add: same_core_def)

lemma same_core_trans: "same_core s t \<Longrightarrow> same_core t u \<Longrightarrow> same_core s u"
  by (simp add: same_core_def)

lemma same_core_fold: "(\<And>x s. same_core s (f x s)) \<Longrightarrow> same_core s (fold f xs s)"
  by (induction xs arbitrary: s) (auto intro: same_core_trans)

lemma same_core_update:
  "(\<And>sn. sn_route_id (f sn) = sn_route_id sn \<and> sn_cpp_fn (f sn) = sn_cpp_fn sn) \<Longrightarrow> same_core s (updateWsSession i f s)"
  by (auto simp: same_core_def sess_core_def updateWsSession_def)

lemma same_core_queue: "same_core s (queueWs c a s)"
  by (simp add: same_core_def sess_core_def queueWs_def)

lemma same_core_simple:
  "same_core s (dispatchCpp i sn ev s)" "same_core s (roomJoin r i s)" "same_core s (roomLeave r i s)"
  "same_core s (dropFromAllRooms i s)" "same_core s (sendToConn i d b s)"
  by (auto simp: same_core_def sess_core_def dispatchCpp_def roomJoin_def roomLeave_def dropFromAllRooms_def
      sendToConn_def queueWs_def split: option.splits)

lemma same_core_shutdown: "same_core s (shutdownSession i s)"
  unfolding shutdownSession_def
  by (auto split: option.splits intro!: same_core_trans [OF same_core_update same_core_queue])

lemma same_core_cppSend: "same_core s (snd (wsCppSend now i d b s))"
  unfolding wsCppSend_def
  by (auto split: option.splits intro!: same_core_trans [OF same_core_queue same_core_update])

lemma same_core_reap: "same_core s (reapExpiredSessions now s)"
proof -
  have "same_core s (queueWs (sn_conn sn) WsShutdownAct (updateWsSession i (\<lambda>sn. sn\<lparr>sn_closing := True\<rparr>) s))" for i sn s
    by (auto intro!: same_core_trans [OF same_core_update same_core_queue])
  then show ?thesis
    unfolding reapExpiredSessions_def Let_def by (auto intro!: same_core_fold)
qed

lemma same_core_api: "same_core s (ws_api_call ub a s)"
  by (cases a)
    (auto simp: drogonR_ws_send_def drogonR_ws_close_def drogonR_ws_join_def drogonR_ws_leave_def drogonR_ws_broadcast_def
      roomBroadcast_def same_core_simple same_core_shutdown split: option.splits intro!: same_core_fold)

lemma same_core_callHook: "same_core (snd (snd x)) (snd (snd (callHook ub E h args x)))"
  by (auto simp: callHook_def Let_def case_prod_unfold intro!: same_core_fold same_core_api)

lemma hooksForRoute_cong: "g_wsRoutes t = g_wsRoutes s \<Longrightarrow> hooksForRoute t = hooksForRoute s"
  by (rule ext) (simp add: hooksForRoute_def wsRoute_def)

lemma hook_call_cong: "g_wsRoutes t = g_wsRoutes s \<Longrightarrow> hook_call t = hook_call s"
proof
  fix ev assume "g_wsRoutes t = g_wsRoutes s"
  from hooksForRoute_cong [OF this] show "hook_call t ev = hook_call s ev" by (cases ev) simp_all
qed

lemma sess_core_erase: "sess_core (eraseWsSession i s) = filter (\<lambda>(k, _). k \<noteq> i) (sess_core s)"
  by (simp add: sess_core_def filter_map comp_def case_prod_unfold)

lemma context_erase [simp]: "wx_context (eraseWsSession i s) = wx_context s"
  by (simp add: eraseWsSession_def takeWsSession_def dropFromAllRooms_def giveBackSlot_def split: option.splits)

text \<open>Delivering an event logs its hook call; only a close changes the protocol state.\<close>

lemma deliverWsEvent_effect:
  assumes y: "y = deliverWsEvent ub E ev x"
  shows "fst (snd y) = fst (snd x) @ hook_call (snd (snd x)) ev"
    and "g_wsRoutes (snd (snd y)) = g_wsRoutes (snd (snd x))" "wx_context (snd (snd y)) = wx_context (snd (snd x))"
    and "g_nextWsId (snd (snd y)) = g_nextWsId (snd (snd x))" "g_wsEvents (snd (snd y)) = g_wsEvents (snd (snd x))"
    and "sess_core (snd (snd y)) = (case ev of
          CloseEv i _ \<Rightarrow> filter (\<lambda>(k, _). k \<noteq> i) (sess_core (snd (snd x))) | _ \<Rightarrow> sess_core (snd (snd x)))"
proof -
  have l: "fst (snd (callHook ub E h args x)) = fst (snd x) @ (if is_closure h then [(h, args)] else [])" for h args
    by (auto simp: callHook_def Let_def case_prod_unfold)
  note c = same_core_callHook [of x ub E, unfolded same_core_def]
  note defs = y case_prod_unfold l c sess_core_erase
  show "fst (snd y) = fst (snd x) @ hook_call (snd (snd x)) ev" by (cases ev) (simp_all add: defs)
  show "g_wsRoutes (snd (snd y)) = g_wsRoutes (snd (snd x))" by (cases ev) (simp_all add: defs)
  show "wx_context (snd (snd y)) = wx_context (snd (snd x))" by (cases ev) (simp_all add: defs)
  show "g_nextWsId (snd (snd y)) = g_nextWsId (snd (snd x))" by (cases ev) (simp_all add: defs)
  show "g_wsEvents (snd (snd y)) = g_wsEvents (snd (snd x))" by (cases ev) (simp_all add: defs)
  show "sess_core (snd (snd y)) = (case ev of
      CloseEv i _ \<Rightarrow> filter (\<lambda>(k, _). k \<noteq> i) (sess_core (snd (snd x))) | _ \<Rightarrow> sess_core (snd (snd x)))"
    by (cases ev) (simp_all add: defs)
qed

text \<open>
  The protocol invariant after the operations \<open>ops\<close>. \<open>all\<close> are the events produced so far, delivered
  or not. A connection that was given an id owns the events and the session of that id.
\<close>

definition conn_ok :: "ws_op list \<Rightarrow> wsys \<Rightarrow> ws_event list \<Rightarrow> nat \<Rightarrow> uint64 \<Rightarrow> bool" where
  "conn_ok ops s all c i \<longleftrightarrow> (\<exists>now path. OpConnect now path c \<in> set ops
     \<and> (let rid = routeIdForPath s path; f = cppFnForRoute s rid
        in filter (\<lambda>ev. ev_id ev = i) all = (if f = None then conn_events i rid c ops else [])
           \<and> (c \<notin> set (closed_conns ops) \<longrightarrow> map_of (sess_core s) i = Some (rid, f))))"

definition contexts_ok :: "ws_op list \<Rightarrow> wsys \<Rightarrow> bool" where
  "contexts_ok ops s \<longleftrightarrow>
     (\<forall>c i. wx_context s c = Some i \<longrightarrow> i < g_nextWsId s \<and> c \<in> set (opened ops) \<and> (\<forall>c'. wx_context s c' = Some i \<longrightarrow> c' = c))
     \<and> (\<forall>now path c. OpConnect now path c \<in> set ops \<longrightarrow> cppFnForRoute s (routeIdForPath s path) = None \<longrightarrow> wx_context s c \<noteq> None)"

definition ids_ok :: "ws_op list \<Rightarrow> wsys \<Rightarrow> ws_event list \<Rightarrow> bool" where
  "ids_ok ops s all \<longleftrightarrow> unat (g_nextWsId s) \<le> Suc (length ops) \<and> (\<forall>ev \<in> set all. ev_id ev < g_nextWsId s)"

definition proto_ok :: "ws_op list \<Rightarrow> wsys \<Rightarrow> ws_event list \<Rightarrow> bool" where
  "proto_ok ops s all \<longleftrightarrow> ids_ok ops s all \<and> contexts_ok ops s \<and> (\<forall>c i. wx_context s c = Some i \<longrightarrow> conn_ok ops s all c i)"

lemma route_cong:
  "g_wsRoutes t = g_wsRoutes s \<Longrightarrow> routeIdForPath t = routeIdForPath s"
  by (rule ext) (simp add: routeIdForPath_def)

text \<open>An operation that is not a report about a connection, and keeps the protocol state.\<close>

definition silent :: "ws_op \<Rightarrow> bool" where
  "silent op \<longleftrightarrow> (case op of OpConnect _ _ _ \<Rightarrow> False | OpMessage _ _ _ \<Rightarrow> False | OpClosed _ \<Rightarrow> False | _ \<Rightarrow> True)"

lemma silent_snoc:
  assumes "silent op"
  shows "conn_events i rid c (ops @ [op]) = conn_events i rid c ops" "opened (ops @ [op]) = opened ops"
    "closed_conns (ops @ [op]) = closed_conns ops" "OpConnect now path c \<in> set (ops @ [op]) \<longleftrightarrow> OpConnect now path c \<in> set ops"
  using assms by (auto simp: silent_def split: ws_op.splits)

lemma proto_ok_silent:
  assumes p: "proto_ok ops s all" and op: "silent op"
    and t: "g_wsRoutes t = g_wsRoutes s" "wx_context t = wx_context s" "g_nextWsId t = g_nextWsId s"
    and sess: "\<And>c i. wx_context s c = Some i \<Longrightarrow> c \<notin> set (closed_conns ops) \<Longrightarrow> map_of (sess_core t) i = map_of (sess_core s) i"
  shows "proto_ok (ops @ [op]) t all"
proof -
  note cong = guards_cong [OF t(1)] route_cong [OF t(1)]
  have "ids_ok (ops @ [op]) t all" using p by (auto simp: proto_ok_def ids_ok_def t(3))
  moreover have "contexts_ok (ops @ [op]) t"
  proof -
    have "contexts_ok ops s" using p by (simp add: proto_ok_def)
    then show ?thesis by (simp only: contexts_ok_def silent_snoc [OF op] t cong simp_thms)
  qed
  moreover have "conn_ok (ops @ [op]) t all c i" if "wx_context s c = Some i" for c i
  proof -
    have "conn_ok ops s all c i" using p that by (simp add: proto_ok_def)
    then show ?thesis
      using sess [OF that] unfolding conn_ok_def Let_def silent_snoc [OF op] cong by auto
  qed
  ultimately show ?thesis by (simp add: proto_ok_def t(2))
qed

lemma proto_ok_same_core:
  "proto_ok ops s all \<Longrightarrow> silent op \<Longrightarrow> same_core s t \<Longrightarrow> proto_ok (ops @ [op]) t all"
  by (rule proto_ok_silent) (auto simp: same_core_def)

fun op_conn :: "ws_op \<Rightarrow> nat option" where
  "op_conn (OpConnect _ _ c) = Some c"
| "op_conn (OpMessage c _ _) = Some c"
| "op_conn (OpClosed c) = Some c"
| "op_conn _ = None"

lemma conn_ok_other:
  assumes ok: "conn_ok ops s all c i" and op: "op_conn op \<noteq> Some c"
    and t: "g_wsRoutes t = g_wsRoutes s" and sess: "map_of (sess_core t) i = map_of (sess_core s) i"
    and evs: "\<And>ev. ev \<in> set evs \<Longrightarrow> ev_id ev \<noteq> i"
  shows "conn_ok (ops @ [op]) t (all @ evs) c i"
proof -
  note cong = guards_cong [OF t] route_cong [OF t]
  have "conn_events i rid c (ops @ [op]) = conn_events i rid c ops" for rid
    using op by (cases op) auto
  moreover have "c \<in> set (closed_conns (ops @ [op])) \<longleftrightarrow> c \<in> set (closed_conns ops)" using op by (cases op) auto
  moreover have "filter (\<lambda>ev. ev_id ev = i) evs = []" using evs by (auto simp: filter_empty_conv)
  moreover obtain now path where "OpConnect now path c \<in> set (ops @ [op])"
      "let rid = routeIdForPath s path; f = cppFnForRoute s rid
       in filter (\<lambda>ev. ev_id ev = i) all = (if f = None then conn_events i rid c ops else [])
         \<and> (c \<notin> set (closed_conns ops) \<longrightarrow> map_of (sess_core s) i = Some (rid, f))"
    using ok unfolding conn_ok_def by auto
  ultimately show ?thesis
    unfolding conn_ok_def by (intro exI [of _ now] exI [of _ path]) (simp add: Let_def cong sess)
qed

lemma handleNewConnection_effect:
  assumes t: "t = handleNewConnection now path c s" and rid: "rid = routeIdForPath s path" and f: "f = cppFnForRoute s rid"
  shows "same_core s t \<and> f \<noteq> None
    \<or> g_wsRoutes t = g_wsRoutes s \<and> wx_context t = (wx_context s)(c \<mapsto> g_nextWsId s) \<and> g_nextWsId t = g_nextWsId s + 1
      \<and> g_wsEvents t = g_wsEvents s @ (if f = None then [ConnectEv (g_nextWsId s) rid] else [])
      \<and> sess_core t = (g_nextWsId s, rid, f) # sess_core s"
proof -
  have reg: "g_wsRoutes u = g_wsRoutes s \<and> wx_context u = (wx_context s)(c \<mapsto> g_nextWsId s) \<and> g_nextWsId u = g_nextWsId s + 1
      \<and> g_wsEvents u = g_wsEvents s @ (if f = None then [ConnectEv (g_nextWsId s) rid] else [])
      \<and> sess_core u = (g_nextWsId s, rid, f) # sess_core s"
    if "u = registerConn now rid f g c (s\<lparr>g_wsCounters := cs\<rparr>)" for u g cs
    using that by (auto simp: registerConn_def Let_def emplaceWsSession_def newWsSession_def dispatchCpp_def enqueueWsEvent_def
        sess_core_def split: option.splits)
  note reg0 = reg [of _ _ "g_wsCounters s", simplified]
  let ?g = "if f \<noteq> None then guardsForRoute s rid else no_guards"
  have t: "t = (case guarded ?g of
      Some k \<Rightarrow> (case tryAdmit k (gd_max_conns ?g) s of
          (False, s1) \<Rightarrow> refuseConn c (rollbackAdmit k s1) | (True, s1) \<Rightarrow> registerConn now rid f ?g c s1)
    | None \<Rightarrow> registerConn now rid f ?g c s)"
    by (simp only: t handleNewConnection_def Let_def rid f)
  show ?thesis
  proof (cases "guarded ?g")
    case None
    then have "t = registerConn now rid f ?g c s" using t by (simp only: option.case)
    then show ?thesis using reg0 by blast
  next
    case (Some k)
    then have fn: "f \<noteq> None" by (auto simp: guarded_def no_guards_def split: if_splits)
    let ?s1 = "s\<lparr>g_wsCounters := (g_wsCounters s)(k := g_wsCounters s k + 1)\<rparr>"
    have "t = registerConn now rid f ?g c ?s1 \<or> t = refuseConn c (rollbackAdmit k ?s1)"
      using t Some by (auto simp: tryAdmit_def Let_def split: bool.splits)
    moreover have "same_core s (refuseConn c (rollbackAdmit k ?s1))"
      by (simp add: rollbackAdmit_def refuseConn_def same_core_def sess_core_def)
    ultimately show ?thesis using reg fn by blast
  qed
qed

lemma proto_ok_connect:
  assumes p: "proto_ok ops s all" and tr: "trace_ok ops" and fresh: "c \<notin> set (opened ops)"
    and nowrap: "g_nextWsId s \<noteq> - 1"
    and t: "t = handleNewConnection now path c s" and evs: "g_wsEvents t = g_wsEvents s @ evs"
  shows "proto_ok (ops @ [OpConnect now path c]) t (all @ evs)" (is "proto_ok (ops @ [?op]) _ _")
proof -
  let ?i = "g_nextWsId s" and ?rid = "routeIdForPath s path"
  let ?f = "cppFnForRoute s ?rid"
  have ctx: "contexts_ok ops s" and ids: "ids_ok ops s all" and conns: "\<And>c i. wx_context s c = Some i \<Longrightarrow> conn_ok ops s all c i"
    using p by (auto simp: proto_ok_def)
  have c0: "wx_context s c = None" using ctx fresh by (cases "wx_context s c") (auto simp: contexts_ok_def)
  consider (no) "same_core s t" "?f \<noteq> None"
    | (yes) "g_wsRoutes t = g_wsRoutes s" "wx_context t = (wx_context s)(c \<mapsto> ?i)" "g_nextWsId t = ?i + 1"
      "g_wsEvents t = g_wsEvents s @ (if ?f = None then [ConnectEv ?i ?rid] else [])" "sess_core t = (?i, ?rid, ?f) # sess_core s"
    using handleNewConnection_effect [OF t refl refl] by blast
  then show ?thesis
  proof cases
    case no
    then have e: "evs = []" and same: "g_wsRoutes t = g_wsRoutes s" "wx_context t = wx_context s" "g_nextWsId t = g_nextWsId s"
      "sess_core t = sess_core s" using evs by (auto simp: same_core_def)
    have "contexts_ok (ops @ [?op]) t"
      using ctx no(2) unfolding contexts_ok_def same guards_cong [OF same(1)] route_cong [OF same(1)] by auto
    moreover have "conn_ok (ops @ [?op]) t (all @ []) c' i'" if "wx_context s c' = Some i'" for c' i'
      by (rule conn_ok_other [OF conns [OF that]]) (use that c0 same in auto)
    ultimately show ?thesis using ids by (auto simp: proto_ok_def ids_ok_def same e)
  next
    case yes
    then have e: "evs = (if ?f = None then [ConnectEv ?i ?rid] else [])" using evs by simp
    note cong = guards_cong [OF yes(1)] route_cong [OF yes(1)]
    have less: "j < ?i \<Longrightarrow> j < ?i + 1" "?i < ?i + 1" for j using nowrap by (auto simp: word_less_inc)
    have "ids_ok (ops @ [?op]) t (all @ evs)"
      using ids less nowrap by (auto simp: ids_ok_def e yes(3) unat_inc)
    moreover have "contexts_ok (ops @ [?op]) t"
      using ctx less unfolding contexts_ok_def cong yes(2,3) by (auto dest: less_imp_neq)
    moreover have "conn_ok (ops @ [?op]) t (all @ evs) c ?i"
    proof -
      have "filter (\<lambda>ev. ev_id ev = ?i) all = []" using ids by (auto simp: ids_ok_def filter_empty_conv)
      then show ?thesis
        using conn_events_unopened [OF tr fresh]
        by (auto simp: conn_ok_def Let_def cong e yes(5) intro!: exI [of _ now] exI [of _ path])
    qed
    moreover have "conn_ok (ops @ [?op]) t (all @ evs) c' i'" if "wx_context s c' = Some i'" for c' i'
    proof -
      have "i' < ?i" using ctx that by (auto simp: contexts_ok_def)
      then show ?thesis
        by (intro conn_ok_other [OF conns [OF that]]) (use that c0 yes in \<open>auto simp: e\<close>)
    qed
    ultimately show ?thesis by (auto simp: proto_ok_def yes(2))
  qed
qed

text \<open>A report about a connection that has a live session, for which the code queues \<open>evs\<close>.\<close>

lemma proto_ok_report:
  assumes p: "proto_ok ops s all" and op: "op_conn op = Some c" "\<forall>now path. op \<noteq> OpConnect now path c"
    and open_c: "c \<notin> set (closed_conns ops)"
    and t: "g_wsRoutes t = g_wsRoutes s" "wx_context t = wx_context s" "g_nextWsId t = g_nextWsId s"
    and own: "\<And>i rid f. wx_context s c = Some i \<Longrightarrow> map_of (sess_core s) i = Some (rid, f) \<Longrightarrow>
        evs = (if f = None then conn_events i rid c [op] else [])
        \<and> (map_of (sess_core t) i = Some (rid, f) \<or> c \<in> set (closed_conns [op]))
        \<and> (\<forall>j. j \<noteq> i \<longrightarrow> map_of (sess_core t) j = map_of (sess_core s) j)"
    and none: "wx_context s c = None \<Longrightarrow> evs = [] \<and> sess_core t = sess_core s"
  shows "proto_ok (ops @ [op]) t (all @ evs)"
proof -
  note cong = guards_cong [OF t(1)] route_cong [OF t(1)]
  have ctx: "contexts_ok ops s" and ids: "ids_ok ops s all" and conns: "\<And>c i. wx_context s c = Some i \<Longrightarrow> conn_ok ops s all c i"
    using p by (auto simp: proto_ok_def)
  have ce: "conn_events j r c' (ops @ [op]) = conn_events j r c' ops @ conn_events j r c' [op]" for j r c'
    by (simp add: conn_events_def)
  have cl: "closed_conns (ops @ [op]) = closed_conns ops @ closed_conns [op]" by (simp add: closed_conns_def)
  have ev_ids: "ev_id ev = i \<and> i < g_nextWsId s" if "ev \<in> set evs" "wx_context s c = Some i" for ev i
  proof -
    have "i < g_nextWsId s" using ctx that by (auto simp: contexts_ok_def)
    moreover from conns [OF that(2)] open_c obtain rid f where "map_of (sess_core s) i = Some (rid, f)"
      by (auto simp: conn_ok_def Let_def)
    from own [OF that(2) this] that(1) have "ev \<in> set (conn_events i rid c [op])" by (auto split: if_splits)
    ultimately show ?thesis by (cases op) (auto simp: conn_events_def split: if_splits)
  qed
  have "contexts_ok (ops @ [op]) t"
    using ctx op unfolding contexts_ok_def cong t by (auto split: ws_op.splits)
  moreover have "ids_ok (ops @ [op]) t (all @ evs)"
    using ids ev_ids none by (cases "wx_context s c") (auto simp: ids_ok_def t)
  moreover have "conn_ok (ops @ [op]) t (all @ evs) c' i'" if c': "wx_context s c' = Some i'" for c' i'
  proof (cases "c' = c")
    case False
    have inj: "i \<noteq> i'" if "wx_context s c = Some i" for i
      using ctx that c' False by (auto simp: contexts_ok_def)
    have "map_of (sess_core t) i' = map_of (sess_core s) i'"
    proof (cases "wx_context s c")
      case (Some i)
      from conns [OF Some] open_c obtain rid f where "map_of (sess_core s) i = Some (rid, f)"
        by (auto simp: conn_ok_def Let_def)
      from own [OF Some this] inj [OF Some] show ?thesis by auto
    qed (simp add: none)
    with False op ev_ids inj none show ?thesis
      by (intro conn_ok_other [OF conns [OF c']]) (auto simp: t cong: option.case_cong, cases "wx_context s c", auto)
  next
    case True
    obtain now path where np: "OpConnect now path c \<in> set ops"
      and f: "filter (\<lambda>ev. ev_id ev = i') all
          = (if cppFnForRoute s (routeIdForPath s path) = None then conn_events i' (routeIdForPath s path) c ops else [])"
      and sess: "map_of (sess_core s) i' = Some (routeIdForPath s path, cppFnForRoute s (routeIdForPath s path))"
      using conns [OF c'] open_c True by (auto simp: conn_ok_def Let_def)
    have w: "wx_context s c = Some i'" using c' True by simp
    let ?rid = "routeIdForPath s path"
    let ?f = "cppFnForRoute s ?rid"
    from own [OF w sess] have e: "evs = (if ?f = None then conn_events i' ?rid c [op] else [])"
      and m: "c \<notin> set (closed_conns [op]) \<longrightarrow> map_of (sess_core t) i' = Some (?rid, ?f)" by blast+
    have "filter (\<lambda>ev. ev_id ev = i') evs = evs" using ev_ids [OF _ w] by (auto intro!: filter_True)
    then have "filter (\<lambda>ev. ev_id ev = i') (all @ evs) = (if ?f = None then conn_events i' ?rid c (ops @ [op]) else [])"
      unfolding filter_append f ce by (simp add: e)
    moreover have "c \<notin> set (closed_conns (ops @ [op])) \<longrightarrow> map_of (sess_core t) i' = Some (?rid, ?f)"
      using m unfolding cl by simp
    moreover have "OpConnect now path c \<in> set (ops @ [op])" using np by simp
    ultimately show ?thesis unfolding conn_ok_def Let_def cong True by blast
  qed
  ultimately show ?thesis by (simp add: proto_ok_def t(2))
qed

lemma find_core: "map_option (\<lambda>sn. (sn_route_id sn, sn_cpp_fn sn)) (findWsSession s i) = map_of (sess_core s) i"
  unfolding findWsSession_def sess_core_def by (induction "g_wsSessions s") (auto simp: map_of_map)

lemma proto_ok_message:
  assumes p: "proto_ok ops s all" and open_c: "c \<notin> set (closed_conns ops)"
    and t: "t = handleNewMessage c m b s" and evs: "g_wsEvents t = g_wsEvents s @ evs"
  shows "proto_ok (ops @ [OpMessage c m b]) t (all @ evs)"
proof (rule proto_ok_report [OF p _ _ open_c])
  show "g_wsRoutes t = g_wsRoutes s" "wx_context t = wx_context s" "g_nextWsId t = g_nextWsId s"
    by (auto simp: t handleNewMessage_def dispatchCpp_def enqueueWsEvent_def split: option.splits)
  have core: "sess_core t = sess_core s"
    by (auto simp: t handleNewMessage_def dispatchCpp_def enqueueWsEvent_def sess_core_def split: option.splits)
  show "evs = [] \<and> sess_core t = sess_core s" if "wx_context s c = None"
    using that evs by (simp add: t handleNewMessage_def)
  show "evs = (if f = None then conn_events i rid c [OpMessage c m b] else [])
        \<and> (map_of (sess_core t) i = Some (rid, f) \<or> c \<in> set (closed_conns [OpMessage c m b]))
        \<and> (\<forall>j. j \<noteq> i \<longrightarrow> map_of (sess_core t) j = map_of (sess_core s) j)"
    if ctx: "wx_context s c = Some i" and m: "map_of (sess_core s) i = Some (rid, f)" for i rid f
  proof -
    obtain sn where sn: "findWsSession s i = Some sn" "sn_route_id sn = rid" "sn_cpp_fn sn = f"
      using m find_core [of s i] by (cases "findWsSession s i") auto
    then have "g_wsEvents t = g_wsEvents s @ (if f = None then [MessageEv i rid m b] else [])"
      by (auto simp: t handleNewMessage_def ctx dispatchCpp_def enqueueWsEvent_def)
    with evs show ?thesis by (auto simp: core m conn_events_def)
  qed
qed simp_all

lemma proto_ok_closed:
  assumes p: "proto_ok ops s all" and open_c: "c \<notin> set (closed_conns ops)"
    and t: "t = handleConnectionClosed c s" and evs: "g_wsEvents t = g_wsEvents s @ evs"
  shows "proto_ok (ops @ [OpClosed c]) t (all @ evs)"
proof (rule proto_ok_report [OF p _ _ open_c])
  let ?mark = "\<lambda>i. updateWsSession i (\<lambda>sn. sn\<lparr>sn_closing := True\<rparr>) s"
  have mark: "same_core s (?mark i)" for i by (rule same_core_update) simp
  have disp: "same_core s (dispatchCpp i sn CppClose (?mark i))" for i sn
    by (rule same_core_trans [OF mark same_core_simple(1)])
  show "g_wsRoutes t = g_wsRoutes s" "wx_context t = wx_context s" "g_nextWsId t = g_nextWsId s"
    using mark disp
    by (auto simp: t handleConnectionClosed_def enqueueWsEvent_def same_core_def Let_def split: option.splits)
  show "evs = [] \<and> sess_core t = sess_core s" if "wx_context s c = None"
    using that evs by (simp add: t handleConnectionClosed_def)
  show "evs = (if f = None then conn_events i rid c [OpClosed c] else [])
        \<and> (map_of (sess_core t) i = Some (rid, f) \<or> c \<in> set (closed_conns [OpClosed c]))
        \<and> (\<forall>j. j \<noteq> i \<longrightarrow> map_of (sess_core t) j = map_of (sess_core s) j)"
    if ctx: "wx_context s c = Some i" and m: "map_of (sess_core s) i = Some (rid, f)" for i rid f
  proof -
    obtain sn where sn: "findWsSession s i = Some sn" "sn_route_id sn = rid" "sn_cpp_fn sn = f"
      using m find_core [of s i] by (cases "findWsSession s i") auto
    have t': "t = (if f \<noteq> None then eraseWsSession i (dispatchCpp i sn CppClose (?mark i))
        else enqueueWsEvent (CloseEv i rid) (?mark i))"
      using sn by (simp add: t handleConnectionClosed_def ctx)
    then have "g_wsEvents t = g_wsEvents s @ (if f = None then [CloseEv i rid] else [])"
      using disp [of i sn] mark [of i] by (auto simp: same_core_def enqueueWsEvent_def)
    moreover have "map_of (sess_core t) j = map_of (sess_core s) j" if "j \<noteq> i" for j
    proof (cases f)
      case None
      then have "sess_core t = sess_core (?mark i)" by (simp add: t' enqueueWsEvent_def sess_core_def)
      then show ?thesis using mark [of i] by (simp add: same_core_def)
    next
      case (Some fn)
      then have "sess_core t = filter (\<lambda>(k, _). k \<noteq> i) (sess_core s)"
        using disp [of i sn] by (simp add: t' sess_core_erase same_core_def)
      then show ?thesis using that by (simp add: map_of_drop_key)
    qed
    ultimately show ?thesis using evs by (auto simp: conn_events_def closed_conns_def)
  qed
qed simp_all

lemma proto_ok_deliver:
  assumes p: "proto_ok ops s all" and ev: "ev \<in> set all" and y: "y = deliverWsEvent ub E ev (w, l, s)"
  shows "proto_ok (ops @ [OpDeliver]) (snd (snd y)) all"
proof (rule proto_ok_silent [OF p])
  note eff = deliverWsEvent_effect [OF y, simplified]
  show "g_wsRoutes (snd (snd y)) = g_wsRoutes s" "wx_context (snd (snd y)) = wx_context s"
    "g_nextWsId (snd (snd y)) = g_nextWsId s" using eff by simp_all
  show "map_of (sess_core (snd (snd y))) i = map_of (sess_core s) i"
    if c: "wx_context s c = Some i" "c \<notin> set (closed_conns ops)" for c i
  proof -
    have "ev \<noteq> CloseEv i r" for r
    proof
      assume "ev = CloseEv i r"
      with ev have "CloseEv i r \<in> set (filter (\<lambda>ev. ev_id ev = i) all)" by simp
      moreover have "conn_ok ops s all c i" using p c by (simp add: proto_ok_def)
      then have "\<exists>rid. filter (\<lambda>ev. ev_id ev = i) all \<in> {conn_events i rid c ops, []}"
        unfolding conn_ok_def Let_def by (metis insertCI)
      ultimately have "\<exists>rid. CloseEv i r \<in> set (conn_events i rid c ops)"
        by (metis empty_iff empty_set insertE)
      with c(2) show False using conn_events_close by blast
    qed
    then show ?thesis using eff(6) by (cases ev) (auto simp: map_of_drop_key)
  qed
qed (simp add: silent_def)

definition produced :: "'w ws_world \<Rightarrow> ws_event list" where
  "produced x = ww_delivered x @ ww_batch x @ g_wsEvents (ww_sys x)"

definition world_ok :: "wsys \<Rightarrow> ws_op list \<Rightarrow> 'w ws_world \<Rightarrow> bool" where
  "world_ok s0 ops x \<longleftrightarrow> proto_ok ops (ww_sys x) (produced x) \<and> g_wsRoutes (ww_sys x) = g_wsRoutes s0
     \<and> fst (snd (ww_run x)) = concat (map (hook_call s0) (ww_delivered x))"

lemma ww_upd_simps [simp]:
  "ww_sys (ww_upd f x) = f (ww_sys x)" "ww_batch (ww_upd f x) = ww_batch x" "ww_delivered (ww_upd f x) = ww_delivered x"
  "fst (snd (ww_run (ww_upd f x))) = fst (snd (ww_run x))"
  by (simp_all add: ww_upd_def)

lemma world_ok_upd:
  assumes "world_ok s0 ops x" and "g_wsRoutes (f (ww_sys x)) = g_wsRoutes (ww_sys x)"
    and "g_wsEvents (f (ww_sys x)) = g_wsEvents (ww_sys x) @ evs"
    and "proto_ok ops (ww_sys x) (produced x) \<Longrightarrow> proto_ok (ops @ [op]) (f (ww_sys x)) (produced x @ evs)"
  shows "world_ok s0 (ops @ [op]) (ww_upd f x)"
  using assms by (simp add: world_ok_def produced_def)

lemma world_ok_same_core:
  assumes "world_ok s0 ops x" and "silent op" and "same_core (ww_sys x) (f (ww_sys x))"
  shows "world_ok s0 (ops @ [op]) (ww_upd f x)"
  using world_ok_upd [OF assms(1), of f "[]" op] proto_ok_same_core [OF _ assms(2,3)] assms(3)
  by (simp add: same_core_def)

lemma reports_append:
  "\<exists>evs. g_wsEvents (handleNewConnection now path c s) = g_wsEvents s @ evs"
  "\<exists>evs. g_wsEvents (handleNewMessage c m b s) = g_wsEvents s @ evs"
  "\<exists>evs. g_wsEvents (handleConnectionClosed c s) = g_wsEvents s @ evs"
  "g_wsRoutes (handleNewConnection now path c s) = g_wsRoutes s"
  "g_wsRoutes (handleNewMessage c m b s) = g_wsRoutes s"
  "g_wsRoutes (handleConnectionClosed c s) = g_wsRoutes s"
proof -
  from handleNewConnection_effect [OF refl refl refl, of s now path c]
  show "\<exists>evs. g_wsEvents (handleNewConnection now path c s) = g_wsEvents s @ evs"
    and "g_wsRoutes (handleNewConnection now path c s) = g_wsRoutes s" by (auto simp: same_core_def)
qed (auto simp: handleNewMessage_def handleConnectionClosed_def dispatchCpp_def enqueueWsEvent_def Let_def split: option.splits)

lemma world_ok_step:
  assumes ok: "world_ok s0 ops x" and tr: "trace_ok (ops @ [op])" and len: "Suc (length ops) < 2 ^ 64 - 1"
  shows "world_ok s0 (ops @ [op]) (ws_exec ub E op x)"
proof (cases op)
  case (OpConnect now path c)
  have "unat (g_nextWsId (ww_sys x)) < 2 ^ 64 - 1"
    using ok len by (auto simp: world_ok_def proto_ok_def ids_ok_def)
  then have "g_nextWsId (ww_sys x) \<noteq> - 1" by (auto simp: unsigned_minus_1_eq_mask mask_eq_exp_minus_1)
  moreover obtain evs where "g_wsEvents (handleNewConnection now path c (ww_sys x)) = g_wsEvents (ww_sys x) @ evs"
    using reports_append(1) by blast
  ultimately show ?thesis
    using tr OpConnect
    by (auto simp: op_fits_def reports_append intro!: world_ok_upd [OF ok] proto_ok_connect)
next
  case (OpMessage c m b)
  obtain evs where "g_wsEvents (handleNewMessage c m b (ww_sys x)) = g_wsEvents (ww_sys x) @ evs"
    using reports_append(2) by blast
  with tr OpMessage show ?thesis
    by (auto simp: op_fits_def reports_append intro!: world_ok_upd [OF ok] proto_ok_message)
next
  case (OpClosed c)
  obtain evs where "g_wsEvents (handleConnectionClosed c (ww_sys x)) = g_wsEvents (ww_sys x) @ evs"
    using reports_append(3) by blast
  with tr OpClosed show ?thesis
    by (auto simp: op_fits_def reports_append intro!: world_ok_upd [OF ok] proto_ok_closed)
next
  case OpSwap
  have "proto_ok (ops @ [OpSwap]) (snd (swapWsEvents (ww_sys x))) (produced x)"
    using ok by (intro proto_ok_silent [of ops "ww_sys x"]) (auto simp: world_ok_def silent_def swapWsEvents_def sess_core_def)
  moreover have "proto_ok (ops @ [OpSwap]) (ww_sys x) (produced x)"
    using ok by (intro proto_ok_same_core [of ops "ww_sys x"]) (auto simp: world_ok_def silent_def)
  ultimately show ?thesis using ok OpSwap by (auto simp: world_ok_def produced_def swapWsEvents_def)
next
  case OpDeliver
  show ?thesis
  proof (cases "ww_batch x")
    case Nil
    have "proto_ok (ops @ [OpDeliver]) (ww_sys x) (produced x)"
      using ok by (intro proto_ok_same_core [of ops "ww_sys x"]) (auto simp: world_ok_def silent_def)
    with Nil ok OpDeliver show ?thesis by (simp add: world_ok_def)
  next
    case (Cons ev rest)
    obtain w l s where r: "ww_run x = (w, l, s)" by (cases "ww_run x") auto
    let ?y = "deliverWsEvent ub E ev (w, l, s)"
    note eff = deliverWsEvent_effect [OF refl, of ub E ev "(w, l, s)", simplified]
    have "proto_ok (ops @ [OpDeliver]) (snd (snd ?y)) (produced x)"
      using ok Cons by (intro proto_ok_deliver [OF _ _ refl]) (auto simp: world_ok_def produced_def r)
    moreover have x': "ww_run (ws_exec ub E op x) = ?y" "ww_batch (ws_exec ub E op x) = rest"
      "ww_delivered (ws_exec ub E op x) = ww_delivered x @ [ev]" by (simp_all add: OpDeliver Cons r)
    moreover have "produced (ws_exec ub E op x) = produced x" by (simp add: produced_def x' eff Cons r)
    moreover have "fst (snd ?y) = concat (map (hook_call s0) (ww_delivered x @ [ev]))"
    proof -
      have l: "l = concat (map (hook_call s0) (ww_delivered x))" and rt: "g_wsRoutes s = g_wsRoutes s0"
        using ok by (auto simp: world_ok_def r)
      show ?thesis unfolding eff(1) hook_call_cong [OF rt] by (simp add: l)
    qed
    moreover have "g_wsRoutes (snd (snd ?y)) = g_wsRoutes s0" unfolding eff(2) using ok by (simp add: world_ok_def r)
    ultimately show ?thesis unfolding world_ok_def by (simp only: OpDeliver simp_thms)
  qed
qed (use ok in \<open>auto simp: silent_def wsCppClose_def intro!: world_ok_same_core same_core_cppSend same_core_shutdown
       same_core_reap same_core_api\<close>)

text \<open>The server has just started: no connection, session or event yet.\<close>

definition ws_start :: "wsys \<Rightarrow> bool" where
  "ws_start s \<longleftrightarrow> g_wsSessions s = [] \<and> g_wsEvents s = [] \<and> wx_context s = (\<lambda>_. None) \<and> g_nextWsId s = 1"

definition ww_start :: "'w \<Rightarrow> wsys \<Rightarrow> 'w ws_world" where
  "ww_start w s = \<lparr>ww_run = (w, [], s), ww_batch = [], ww_delivered = []\<rparr>"

lemma world_ok_run:
  assumes "ws_start s0" and "trace_ok ops" and "length ops < 2 ^ 64 - 1"
  shows "world_ok s0 ops (fold (ws_exec ub E) ops (ww_start w s0))"
  using assms(2,3)
proof (induction ops rule: rev_induct)
  case Nil
  then show ?case
    using assms(1) by (simp add: world_ok_def produced_def ww_start_def ws_start_def proto_ok_def ids_ok_def contexts_ok_def)
next
  case (snoc op ops)
  then show ?case using world_ok_step [of s0 ops "fold (ws_exec ub E) ops (ww_start w s0)" op ub E] by simp
qed

text \<open>
  (C10) The R hooks see each connection's life in order and completely. Take any interleaving of
  reports from the I/O threads (for any number of connections), calls of the API, of native handlers
  and of the reaper, queue swaps and deliveries. For a connection on a route with R hooks, the events
  that carry its id, first the delivered ones and then those still waiting, are one connect, its
  messages in the order they arrived, and its close if it has been reported. The hook calls made so far
  are exactly those of the delivered events.
\<close>

theorem ws_events_in_order:
  assumes "ws_start s0" and "trace_ok ops" and "length ops < 2 ^ 64 - 1"
    and "OpConnect now path c \<in> set ops" and "cppFnForRoute s0 (routeIdForPath s0 path) = None"
    and "x = fold (ws_exec ub E) ops (ww_start w s0)"
  shows "(\<exists>i. wx_context (ww_sys x) c = Some i
        \<and> filter (\<lambda>ev. ev_id ev = i) (ww_delivered x @ ww_batch x @ g_wsEvents (ww_sys x))
          = conn_events i (routeIdForPath s0 path) c ops)
    \<and> fst (snd (ww_run x)) = concat (map (hook_call s0) (ww_delivered x))"
proof -
  have ok: "world_ok s0 ops x" unfolding assms(6) by (rule world_ok_run [OF assms(1-3)])
  then have p: "proto_ok ops (ww_sys x) (produced x)" and r: "g_wsRoutes (ww_sys x) = g_wsRoutes s0"
    and l: "fst (snd (ww_run x)) = concat (map (hook_call s0) (ww_delivered x))" by (auto simp: world_ok_def)
  note cong = guards_cong [OF r] route_cong [OF r]
  obtain i where i: "wx_context (ww_sys x) c = Some i"
    using p assms(4,5) unfolding proto_ok_def contexts_ok_def cong by blast
  have once: "path' = path" if "OpConnect now' path' c \<in> set ops" for now' path'
    using connect_once [OF assms(2) that assms(4)] by simp
  from p i have "conn_ok ops (ww_sys x) (produced x) c i" by (simp add: proto_ok_def)
  then have "filter (\<lambda>ev. ev_id ev = i) (produced x) = conn_events i (routeIdForPath s0 path) c ops"
    using assms(5) once unfolding conn_ok_def Let_def cong by metis
  with i l show ?thesis by (auto simp: produced_def)
qed

lemma ws_events_in_order_witness:
  "let s0 = snd (addWsRoute ((newWsRoute ''/chat'')\<lparr>wr_on_message := CLOSXP 3\<rparr>) wsys_init);
       ops = [OpConnect 1 ''/chat'' 5, OpSwap, OpMessage 5 ''hi'' False, OpDeliver, OpClosed 5, OpSwap, OpDeliver];
       x = fold (ws_exec 0 (\<lambda>w h a. ([], w))) ops (ww_start () s0)
   in \<exists>i. wx_context (ww_sys x) 5 = Some i
        \<and> filter (\<lambda>ev. ev_id ev = i) (ww_delivered x @ ww_batch x @ g_wsEvents (ww_sys x))
          = [ConnectEv i 0, MessageEv i 0 ''hi'' False, CloseEv i 0]"
proof -
  let ?init = "snd (addWsRoute ((newWsRoute ''/chat'')\<lparr>wr_on_message := CLOSXP 3\<rparr>) wsys_init)"
  let ?ops = "[OpConnect 1 ''/chat'' 5, OpSwap, OpMessage 5 ''hi'' False, OpDeliver, OpClosed 5, OpSwap, OpDeliver]"
  have st: "ws_start ?init" by (simp add: ws_start_def addWsRoute_def wsys_init_def)
  have tr: "trace_ok ?ops"
    by (simp add: trace_ok_def All_less_Suc op_fits_def opened_def closed_conns_def numeral_eq_Suc)
  have rid: "routeIdForPath ?init ''/chat'' = 0" "cppFnForRoute ?init 0 = None"
    by (simp_all add: addWsRoute_def wsys_init_def routeIdForPath_def newWsRoute_def cppFnForRoute_def wsRoute_def)
  have side: "length ?ops < 2 ^ 64 - 1" "OpConnect 1 ''/chat'' 5 \<in> set ?ops"
    "cppFnForRoute ?init (routeIdForPath ?init ''/chat'') = None" by (simp_all add: rid)
  have "conn_events i 0 5 ?ops = [ConnectEv i 0, MessageEv i 0 ''hi'' False, CloseEv i 0]" for i
    by (simp add: conn_events_def)
  with ws_events_in_order [OF st tr side refl, of 0 "\<lambda>w h a. ([], w)" "()", unfolded rid]
  show ?thesis unfolding Let_def by (simp only:)
qed

end
