(* ===== verification/WsFrame.thy ===== *)
theory WsFrame
  imports WsDelivery MsgBuffer
begin

text \<open>
  \<^verbatim>\<open>src/src/drogon/lib/src/WebSocketConnectionImpl.cc\<close>: WebSocket frames, from \<^verbatim>\<open>send\<close> to the bytes
  on the wire and from received bytes, in whatever pieces they arrive, to the messages handed to the
  controller. The receive buffer is the string of its readable bytes. Assertions are compiled out, as
  in every R package.
\<close>

section \<open>Sending\<close>

datatype ws_msg_type = WsText | WsBinary | WsPing | WsPong | WsClose | WsUnknown

abbreviation byte_val :: "char \<Rightarrow> nat" where
  "byte_val c \<equiv> of_char c"

fun xor_char :: "char \<Rightarrow> char \<Rightarrow> char" where
  "xor_char (Char a0 a1 a2 a3 a4 a5 a6 a7) (Char b0 b1 b2 b3 b4 b5 b6 b7) =
     Char (a0 \<noteq> b0) (a1 \<noteq> b1) (a2 \<noteq> b2) (a3 \<noteq> b3) (a4 \<noteq> b4) (a5 \<noteq> b5) (a6 \<noteq> b6) (a7 \<noteq> b7)"

text \<open>The masking loops: byte \<open>i\<close> is combined with byte \<open>i mod 4\<close> of the mask.\<close>

definition mask_bytes :: "string \<Rightarrow> string \<Rightarrow> string" where
  "mask_bytes key data = map (\<lambda>i. xor_char (data ! i) (key ! (i mod 4))) [0..<length data]"

text \<open>
  \<^verbatim>\<open>sendWsData\<close>: the frame for \<open>msg\<close>. A client masks it with four random bytes, the argument
  \<open>key\<close>; a server does not.
\<close>

definition sendWsData :: "bool \<Rightarrow> string \<Rightarrow> string \<Rightarrow> nat \<Rightarrow> string" where
  "sendWsData isServer key msg opcode =
     (let n = length msg;
          bit = (if isServer then 0 else 128);
          b0 = char_of (128 + opcode mod 16);
          header = (if n \<le> 125 then [b0, char_of (n + bit)]
                    else if n \<le> 65535 then b0 # char_of (126 + bit) # be_bytes 2 n
                    else b0 # char_of (127 + bit) # be_bytes 8 n)
      in header @ (if isServer then msg else key @ mask_bytes key msg))"

fun opcode_of :: "ws_msg_type \<Rightarrow> nat" where
  "opcode_of WsText = 1" | "opcode_of WsBinary = 2" | "opcode_of WsClose = 8"
| "opcode_of WsPing = 9" | "opcode_of WsPong = 10" | "opcode_of WsUnknown = 0"

definition ws_send :: "bool \<Rightarrow> string \<Rightarrow> string \<Rightarrow> ws_msg_type \<Rightarrow> string" where
  "ws_send isServer key msg type = sendWsData isServer key msg (opcode_of type)"

text \<open>\<^verbatim>\<open>shutdown\<close>: the close frame with code and reason; the write side of the connection is closed after it.\<close>

definition ws_shutdown :: "bool \<Rightarrow> string \<Rightarrow> bool \<Rightarrow> nat \<Rightarrow> string \<Rightarrow> string option" where
  "ws_shutdown isServer key conn_up close_code reason =
     (if \<not> conn_up then None else Some (ws_send isServer key (be_bytes 2 close_code @ reason) WsClose))"

section \<open>Parsing\<close>

record ws_parser =
  wp_message :: string
  wp_type :: ws_msg_type
  wp_gotAll :: bool

text \<open>\<^verbatim>\<open>type_\<close> is not initialised.\<close>

definition newWsParser :: "ws_msg_type \<Rightarrow> ws_parser" where
  "newWsParser ub = \<lparr>wp_message = [], wp_type = ub, wp_gotAll = False\<rparr>"

definition frame_type :: "nat \<Rightarrow> ws_msg_type \<Rightarrow> ws_msg_type option" where
  "frame_type opcode old =
     (if opcode = 0 then Some old else if opcode = 1 then Some WsText else if opcode = 2 then Some WsBinary
      else if opcode = 8 then Some WsClose else if opcode = 9 then Some WsPing
      else if opcode = 10 then Some WsPong else None)"

text \<open>The eight-byte length, with the overflow test before each shift.\<close>

fun length_loop :: "string \<Rightarrow> size_t \<Rightarrow> size_t option" where
  "length_loop [] len = Some len"
| "length_loop (c # cs) len =
     (if len > drop_bit 8 (- 1) then None else length_loop cs (push_bit 8 len + of_nat (byte_val c)))"

text \<open>
  One frame at the head of a buffer of at least two bytes: more bytes are needed, the frame is refused
  (and the buffer cleared or not), the bounds test passes although the payload is longer than the buffer
  (the copy of such a payload throws \<^verbatim>\<open>std::length_error\<close> or leaves the buffer), or a payload is taken and
  the frame's bytes are consumed.
\<close>

datatype frame_step =
    FrameMore
  | FrameBad bool
  | FrameOverrun
  | FrameOk bool string nat

definition take_payload :: "bool \<Rightarrow> nat \<Rightarrow> string option \<Rightarrow> size_t \<Rightarrow> string \<Rightarrow> frame_step" where
  "take_payload fin start key len buf =
     (if of_nat (length buf) \<ge> of_nat start + len then
        (if start + unat len \<le> length buf then
           FrameOk fin (case key of
               None \<Rightarrow> take (unat len) (drop start buf)
             | Some k \<Rightarrow> mask_bytes k (take (unat len) (drop start buf))) (start + unat len)
         else FrameOverrun)
      else FrameMore)"

definition is_control :: "nat \<Rightarrow> bool" where
  "is_control opcode \<longleftrightarrow> opcode = 8 \<or> opcode = 9 \<or> opcode = 10"

text \<open>The number of header bytes before the mask, and the payload length.\<close>

definition first_mask :: "nat \<Rightarrow> nat" where
  "first_mask len7 = (if len7 = 126 then 4 else if len7 = 127 then 10 else 2)"

definition frame_length :: "nat \<Rightarrow> string \<Rightarrow> size_t option" where
  "frame_length len7 buf =
     (if len7 = 126 then Some (push_bit 8 (of_nat (byte_val (buf ! 2))) + of_nat (byte_val (buf ! 3)))
      else if len7 = 127 then length_loop (take 8 (drop 2 buf)) 0
      else Some (of_nat len7))"

text \<open>The fields of the first two bytes.\<close>

definition fr_opcode :: "string \<Rightarrow> nat" where "fr_opcode buf = byte_val (buf ! 0) mod 16"
definition fr_fin :: "string \<Rightarrow> bool" where "fr_fin buf \<longleftrightarrow> byte_val (buf ! 0) \<ge> 128"
definition fr_masked :: "string \<Rightarrow> bool" where "fr_masked buf \<longleftrightarrow> byte_val (buf ! 1) \<ge> 128"
definition fr_len7 :: "string \<Rightarrow> nat" where "fr_len7 buf = byte_val (buf ! 1) mod 128"

definition frame_body :: "size_t \<Rightarrow> size_t \<Rightarrow> string \<Rightarrow> frame_step" where
  "frame_body max_size len buf =
     (let fm = first_mask (fr_len7 buf)
      in if fr_masked buf then
           if len > max_size then FrameBad True
           else take_payload (fr_fin buf) (fm + 4) (Some (take 4 (drop fm buf))) len buf
         else take_payload (fr_fin buf) fm None len buf)"

definition parse_frame :: "size_t \<Rightarrow> string \<Rightarrow> frame_step" where
  "parse_frame max_size buf =
     (let fm = first_mask (fr_len7 buf)
      in if frame_type (fr_opcode buf) WsUnknown = None then FrameBad False
         else if \<not> fr_fin buf \<and> is_control (fr_opcode buf) then FrameBad False
         else if fm > 2 \<and> length buf < fm then FrameMore
         else if fm > 2 \<and> is_control (fr_opcode buf) then FrameBad False
         else
           (case frame_length (fr_len7 buf) buf of
              None \<Rightarrow> FrameBad False
            | Some len \<Rightarrow> frame_body max_size len buf))"

text \<open>
  \<^verbatim>\<open>WebSocketMessageParser::parse\<close>: whether it succeeded, the parser and the unread bytes; \<open>None\<close> when it
  copies a payload longer than the buffer. The type is set before anything else about the frame is known.
\<close>

definition see_frame :: "string \<Rightarrow> ws_parser \<Rightarrow> ws_parser" where
  "see_frame buf p =
     (case frame_type (fr_opcode buf) (wp_type p) of None \<Rightarrow> p | Some t \<Rightarrow> p\<lparr>wp_type := t\<rparr>)"

lemma take_payload_consumes: "take_payload f start k len buf = FrameOk fin d n \<Longrightarrow> start \<le> n \<and> n \<le> length buf"
  by (auto simp: take_payload_def split: if_splits)

lemma frame_body_consumes: "frame_body m len buf = FrameOk fin d n \<Longrightarrow> 2 \<le> n \<and> n \<le> length buf"
proof -
  have "2 \<le> first_mask k" for k by (simp add: first_mask_def)
  then show "frame_body m len buf = FrameOk fin d n \<Longrightarrow> 2 \<le> n \<and> n \<le> length buf"
    unfolding frame_body_def Let_def
    by (simp split: if_splits) (meson add_leD1 le_trans take_payload_consumes)+
qed

lemma parse_frame_consumes: "parse_frame m buf = FrameOk fin d n \<Longrightarrow> 2 \<le> n \<and> n \<le> length buf"
  unfolding parse_frame_def Let_def by (simp split: if_splits option.splits) (rule frame_body_consumes)

function parse_loop :: "size_t \<Rightarrow> ws_parser \<Rightarrow> string \<Rightarrow> (bool \<times> ws_parser \<times> string) option" where
  "parse_loop max_size p buf =
     (if length buf < 2 then Some (True, p, buf)
      else
        let p1 = see_frame buf p
        in case parse_frame max_size buf of
             FrameMore \<Rightarrow> Some (True, p1, buf)
           | FrameBad clear \<Rightarrow> Some (False, p1, if clear then [] else buf)
           | FrameOverrun \<Rightarrow> None
           | FrameOk fin data n \<Rightarrow>
               let p2 = p1\<lparr>wp_message := wp_message p1 @ data\<rparr>
               in if fin then Some (True, p2\<lparr>wp_gotAll := True\<rparr>, drop n buf)
                  else parse_loop max_size p2 (drop n buf))"
  by pat_completeness auto
termination by (relation "measure (\<lambda>(_, _, buf). length buf)") (auto dest: parse_frame_consumes)

declare parse_loop.simps [simp del]

definition ws_parse :: "size_t \<Rightarrow> ws_parser \<Rightarrow> string \<Rightarrow> (bool \<times> ws_parser \<times> string) option" where
  "ws_parse max_size p buf = parse_loop max_size (p\<lparr>wp_gotAll := False\<rparr>) buf"

text \<open>A parse that completes a message has consumed bytes.\<close>

lemma parse_loop_progress:
  "parse_loop m p buf = Some (ok, q, rest) \<Longrightarrow> \<not> wp_gotAll p \<Longrightarrow>
     length rest \<le> length buf \<and> (wp_gotAll q \<longrightarrow> ok \<and> length rest < length buf)"
proof (induction m p buf rule: parse_loop.induct)
  case (1 m p buf)
  have see: "wp_gotAll (see_frame buf p) = wp_gotAll p" by (simp add: see_frame_def split: option.splits)
  show ?case
  proof (cases "parse_frame m buf")
    case (FrameOk fin data n)
    note c = parse_frame_consumes [OF FrameOk]
    show ?thesis
    proof (cases "length buf < 2 \<or> fin")
      case True
      then show ?thesis using "1.prems" FrameOk c see by (auto simp: parse_loop.simps [of m p buf] Let_def)
    next
      case False
      let ?p2 = "(see_frame buf p)\<lparr>wp_message := wp_message (see_frame buf p) @ data\<rparr>"
      have "parse_loop m ?p2 (drop n buf) = Some (ok, q, rest)"
        using "1.prems" FrameOk False by (simp add: parse_loop.simps [of m p buf] Let_def)
      moreover have "\<not> wp_gotAll ?p2" using "1.prems" see by simp
      ultimately have "length rest \<le> length (drop n buf) \<and> (wp_gotAll q \<longrightarrow> ok \<and> length rest < length (drop n buf))"
        using "1.IH" [OF _ refl FrameOk refl] False by blast
      then show ?thesis by auto
    qed
  qed (use 1 see in \<open>auto simp: parse_loop.simps [of m p buf] Let_def split: if_splits\<close>)
qed

section \<open>Receiving\<close>

text \<open>
  What \<^verbatim>\<open>onNewMessage\<close> does: bytes written to the connection, closing its write side, and calls of the
  message callback.
\<close>

datatype ws_out = WsWire string | WsShutdown | WsCallback string ws_msg_type

definition message_outs :: "bool \<Rightarrow> string \<Rightarrow> string \<Rightarrow> ws_msg_type \<Rightarrow> ws_out list" where
  "message_outs isServer key message type =
     (if type = WsPing then [WsWire (ws_send isServer key message WsPong)]
      else if type = WsClose then [WsShutdown] else []) @ [WsCallback message type]"

function onNewMessage :: "size_t \<Rightarrow> bool \<Rightarrow> string \<Rightarrow> ws_parser \<Rightarrow> string \<Rightarrow> (ws_out list \<times> ws_parser \<times> string) option" where
  "onNewMessage max_size isServer key p buf =
     (if buf = [] then Some ([], p, [])
      else case ws_parse max_size p buf of
             None \<Rightarrow> None
           | Some (ok, p1, rest) \<Rightarrow>
               if \<not> ok then Some ([WsShutdown], p1, rest)
               else if \<not> wp_gotAll p1 then Some ([], p1, rest)
               else
                 let p2 = p1\<lparr>wp_message := []\<rparr>
                 in if wp_type p1 = WsUnknown then Some ([], p2, rest)
                    else
                      (case onNewMessage max_size isServer key p2 rest of
                         None \<Rightarrow> None
                       | Some (outs, p3, rest3) \<Rightarrow>
                           Some (message_outs isServer key (wp_message p1) (wp_type p1) @ outs, p3, rest3)))"
  by pat_completeness auto
termination
  by (relation "measure (\<lambda>(_, _, _, _, buf). length buf)")
    (auto simp: ws_parse_def dest!: parse_loop_progress)

declare onNewMessage.simps [simp del]

text \<open>A connection's reads: the buffer keeps what was not consumed, and each read appends to it.\<close>

fun ws_receive ::
  "size_t \<Rightarrow> bool \<Rightarrow> string \<Rightarrow> string list \<Rightarrow> ws_parser \<Rightarrow> string \<Rightarrow> (ws_out list \<times> ws_parser \<times> string) option" where
  "ws_receive max_size isServer key [] p buf = Some ([], p, buf)"
| "ws_receive max_size isServer key (d # ds) p buf =
     (case onNewMessage max_size isServer key p (buf @ d) of
        None \<Rightarrow> None
      | Some (outs, p1, rest) \<Rightarrow>
          (case ws_receive max_size isServer key ds p1 rest of
             None \<Rightarrow> None
           | Some (outs2, p2, rest2) \<Rightarrow> Some (outs @ outs2, p2, rest2)))"

section \<open>Masks, lengths and headers\<close>

lemma xor_char_twice [simp]: "xor_char (xor_char a b) b = a"
  by (cases a; cases b) auto

lemma length_mask_bytes [simp]: "length (mask_bytes key data) = length data"
  by (simp add: mask_bytes_def)

lemma mask_bytes_twice [simp]: "mask_bytes key (mask_bytes key data) = data"
  by (rule nth_equalityI) (simp_all add: mask_bytes_def)

lemma byte_val_char_of [simp]: "n < 256 \<Longrightarrow> byte_val (char_of n) = n"
  by (simp add: of_char_of take_bit_eq_mod)

lemma byte_val_less [simp]: "byte_val c < 256"
  by (metis mod_less_divisor of_char_mod_256 zero_less_numeral)

lemma be_value_Cons: "be_value (c # cs) = byte_val c * 256 ^ length cs + be_value cs"
proof -
  have "foldl (\<lambda>v c. 256 * v + byte_val c) n cs = n * 256 ^ length cs + be_value cs" for n
  proof (induction cs rule: rev_induct)
    case (snoc x xs)
    then show ?case by (simp add: be_value_snoc algebra_simps)
  qed (simp add: be_value_def)
  from this [of "byte_val c"] show ?thesis by (simp add: be_value_def)
qed

lemma length_loop_value:
  "length cs \<le> 8 \<Longrightarrow> n < 256 ^ (8 - length cs) \<Longrightarrow>
     length_loop cs (of_nat n) = Some (of_nat (n * 256 ^ length cs + be_value cs))"
proof (induction cs arbitrary: n)
  case Nil
  then show ?case by (simp add: be_value_def)
next
  case (Cons c cs)
  let ?k = "8 - length (c # cs)"
  have "(256 :: nat) ^ ?k \<le> 256 ^ 7" by (rule power_increasing) auto
  with Cons.prems(2) have "n < 2 ^ 56" by simp
  then have "\<not> drop_bit 8 (- 1) < (of_nat n :: size_t)"
    by (simp add: word_less_nat_alt unat_drop_bit_eq unat_of_nat take_bit_eq_mod unsigned_minus_1_eq_mask drop_bit_mask_eq
        mask_eq_exp_minus_1)
  moreover have "push_bit 8 (of_nat n) + of_nat (byte_val c) = (of_nat (n * 256 + byte_val c) :: size_t)"
    by (simp add: push_bit_eq_mult)
  moreover have "n * 256 + byte_val c < 256 ^ (8 - length cs)"
  proof -
    have "Suc n \<le> 256 ^ ?k" using Cons.prems(2) by simp
    then have "Suc n * 256 \<le> 256 ^ ?k * 256" by (rule mult_right_mono) simp
    also have "8 - length cs = Suc ?k" using Cons.prems(1) by simp
    then have "256 ^ ?k * 256 = (256 :: nat) ^ (8 - length cs)" by (simp only: power_Suc2)
    finally have "n * 256 + 256 \<le> 256 ^ (8 - length cs)" by simp
    then show ?thesis by (rule less_le_trans [rotated]) simp
  qed
  ultimately show ?case
    using Cons.IH [of "n * 256 + byte_val c"] Cons.prems(1) by (simp add: be_value_Cons algebra_simps)
qed

text \<open>The eight-byte length is read in full: the overflow test never fires.\<close>

lemma length_loop_8: "length cs = 8 \<Longrightarrow> length_loop cs 0 = Some (of_nat (be_value cs))"
  using length_loop_value [of cs 0] by simp

lemma take_payload_fits:
  "start + n \<le> length buf \<Longrightarrow> length buf < 2 ^ 64 \<Longrightarrow>
     take_payload fin start key (of_nat n) buf =
       FrameOk fin (case key of None \<Rightarrow> take n (drop start buf) | Some k \<Rightarrow> mask_bytes k (take n (drop start buf))) (start + n)"
proof -
  assume a: "start + n \<le> length buf" "length buf < 2 ^ 64"
  then have u: "unat (of_nat n :: size_t) = n" by (simp add: unat_of_nat take_bit_eq_mod)
  have "(of_nat start + of_nat n :: size_t) = of_nat (start + n)" by simp
  moreover have "(of_nat (start + n) :: size_t) \<le> of_nat (length buf)"
    using a by (simp add: word_le_nat_alt unat_of_nat take_bit_eq_mod del: of_nat_add)
  ultimately show ?thesis using a unfolding take_payload_def u by simp
qed

text \<open>A decision about a frame is final: more bytes do not change it.\<close>

lemma take_payload_stable:
  assumes "take_payload fin start key len b \<noteq> FrameMore" and "length (b @ c) < 2 ^ 64"
  shows "take_payload fin start key len (b @ c) = take_payload fin start key len b"
proof -
  have le: "(of_nat (length b) :: size_t) \<le> of_nat (length (b @ c))"
    using assms(2) by (simp add: word_le_nat_alt unat_of_nat take_bit_eq_mod del: of_nat_add)
  have fit: "of_nat start + len \<le> (of_nat (length b) :: size_t)" using assms(1) by (auto simp: take_payload_def split: if_splits)
  show ?thesis
  proof (cases "start + unat len \<le> length b")
    case True
    then show ?thesis using fit order_trans [OF fit le] by (auto simp: take_payload_def split: option.splits)
  next
    case False
    have "unat (of_nat start + len) = (start + unat len) mod 2 ^ 64"
      by (simp add: unat_word_ariths unat_of_nat take_bit_eq_mod mod_simps)
    then have "(start + unat len) mod 2 ^ 64 \<le> length b"
      using fit assms(2) by (simp add: word_le_nat_alt unat_of_nat take_bit_eq_mod)
    with False have "2 ^ 64 \<le> start + unat len" by (metis mod_less not_le_imp_less)
    then show ?thesis using False fit order_trans [OF fit le] assms(2) by (simp add: take_payload_def)
  qed
qed

lemma take_payload_masked_stable:
  assumes "take_payload fin (f + 4) (Some (take 4 (drop f b))) len b \<noteq> FrameMore" and "length (b @ c) < 2 ^ 64"
  shows "take_payload fin (f + 4) (Some (take 4 (drop f (b @ c)))) len (b @ c)
    = take_payload fin (f + 4) (Some (take 4 (drop f b))) len b"
proof (cases "f + 4 \<le> length b")
  case True
  then show ?thesis using take_payload_stable [OF assms] by simp
next
  case False
  then have "take_payload fin (f + 4) k len b = take_payload fin (f + 4) (Some (take 4 (drop f b))) len b" for k
    by (simp add: take_payload_def)
  then show ?thesis using take_payload_stable [OF _ assms(2)] assms(1) by metis
qed

lemma frame_length_stable:
  assumes "first_mask len7 \<le> length b" shows "frame_length len7 (b @ c) = frame_length len7 b"
proof -
  consider "len7 = 126" "4 \<le> length b" | "len7 = 127" "10 \<le> length b" | "len7 \<noteq> 126" "len7 \<noteq> 127"
    using assms by (auto simp: first_mask_def split: if_splits)
  then show ?thesis
  proof cases
    case 1
    then have "(b @ c) ! 2 = b ! 2" "(b @ c) ! 3 = b ! 3" by (simp_all add: nth_append)
    with 1 show ?thesis by (simp only: frame_length_def if_True refl)
  next
    case 2
    then have eq: "take 8 (drop 2 (b @ c)) = take 8 (drop 2 b)" by simp
    have "(127 :: nat) \<noteq> 126" by simp
    then show ?thesis unfolding frame_length_def eq 2(1) by (simp only: if_False if_True refl)
  next
    case 3
    then show ?thesis by (simp only: frame_length_def if_False)
  qed
qed

lemma fr_append:
  assumes "2 \<le> length b"
  shows "fr_opcode (b @ c) = fr_opcode b" "fr_fin (b @ c) = fr_fin b" "fr_masked (b @ c) = fr_masked b"
    "fr_len7 (b @ c) = fr_len7 b"
proof -
  obtain x y r where "b = x # y # r" using assms by (cases b rule: remdups_adj.cases) auto
  then show "fr_opcode (b @ c) = fr_opcode b" "fr_fin (b @ c) = fr_fin b" "fr_masked (b @ c) = fr_masked b"
    "fr_len7 (b @ c) = fr_len7 b"
    by (simp_all add: fr_opcode_def fr_fin_def fr_masked_def fr_len7_def)
qed

lemma frame_body_stable:
  assumes "frame_body m len b \<noteq> FrameMore" and "2 \<le> length b" and "length (b @ c) < 2 ^ 64"
  shows "frame_body m len (b @ c) = frame_body m len b"
  using assms(1) take_payload_stable [OF _ assms(3)] take_payload_masked_stable [OF _ assms(3)]
  by (cases "fr_masked b"; cases "len > m") (simp_all only: frame_body_def Let_def fr_append [OF assms(2)] if_True if_False simp_thms)

lemma parse_frame_stable:
  assumes "parse_frame m b \<noteq> FrameMore" and "2 \<le> length b" and "length (b @ c) < 2 ^ 64"
  shows "parse_frame m (b @ c) = parse_frame m b"
proof (cases "frame_type (fr_opcode b) WsUnknown = None \<or> \<not> fr_fin b \<and> is_control (fr_opcode b)")
  case True
  then show ?thesis by (auto simp: parse_frame_def Let_def fr_append [OF assms(2)])
next
  case False
  have ok: "first_mask (fr_len7 b) \<le> length b"
  proof (rule ccontr)
    assume "\<not> first_mask (fr_len7 b) \<le> length b"
    with False assms(1,2) show False by (auto simp: parse_frame_def Let_def split: if_splits)
  qed
  then show ?thesis
    using assms(1) frame_body_stable [OF _ assms(2,3)] frame_length_stable [OF ok, of c] False
    by (auto simp: parse_frame_def Let_def fr_append [OF assms(2)] split: option.splits)
qed

section \<open>A frame that was sent\<close>

definition len7_of :: "nat \<Rightarrow> nat" where
  "len7_of n = (if n \<le> 125 then n else if n \<le> 65535 then 126 else 127)"

definition ext_of :: "nat \<Rightarrow> string" where
  "ext_of n = (if n \<le> 125 then [] else if n \<le> 65535 then be_bytes 2 n else be_bytes 8 n)"

lemma sendWsData_shape:
  "sendWsData isServer key msg opcode =
     char_of (128 + opcode mod 16) # char_of (len7_of (length msg) + (if isServer then 0 else 128))
       # ext_of (length msg) @ (if isServer then msg else key @ mask_bytes key msg)"
  by (simp add: sendWsData_def len7_of_def ext_of_def Let_def)

lemma first_mask_len7 [simp]: "first_mask (len7_of n) = 2 + length (ext_of n)"
  by (simp add: first_mask_def len7_of_def ext_of_def)

lemma len7_of_less [simp]: "len7_of n < 128" "len7_of n + 128 < 256"
  by (simp_all add: len7_of_def)

lemma opcode_of_less [simp]: "opcode_of t < 16" by (cases t) simp_all

lemma sent_fields:
  assumes "buf = ws_send isServer key msg t @ rest"
  shows "fr_opcode buf = opcode_of t" "fr_fin buf" "fr_masked buf \<longleftrightarrow> \<not> isServer" "fr_len7 buf = len7_of (length msg)"
proof -
  have o: "128 + opcode_of t < 256" using opcode_of_less [of t] by linarith
  have l: "len7_of (length msg) + (if isServer then 0 else 128) < 256" by (simp add: len7_of_def)
  have m: "(128 + opcode_of t) mod 16 = opcode_of t" by (cases t) simp_all
  have m2: "(len7_of (length msg) + (if isServer then 0 else 128)) mod 128 = len7_of (length msg)" by simp
  show "fr_opcode buf = opcode_of t" "fr_fin buf"
    using o m by (simp_all add: assms ws_send_def sendWsData_shape fr_opcode_def fr_fin_def)
  show "fr_masked buf \<longleftrightarrow> \<not> isServer" "fr_len7 buf = len7_of (length msg)"
    using l m2 len7_of_less(1) [of "length msg"]
    by (simp_all add: assms ws_send_def sendWsData_shape fr_masked_def fr_len7_def not_le)
qed

lemma frame_length_sent:
  assumes "n < 2 ^ 64"
  shows "frame_length (len7_of n) (b0 # b1 # ext_of n @ rest) = Some (of_nat n)"
proof -
  consider "n \<le> 125" | "125 < n" "n \<le> 65535" | "65535 < n" by linarith
  then show ?thesis
  proof cases
    case 2
    then have "byte_val (char_of (n div 256)) = n div 256" by simp
    moreover have "byte_val (char_of n) = n mod 256" by (simp add: of_char_of take_bit_eq_mod)
    moreover have "push_bit 8 (of_nat (n div 256)) + of_nat (n mod 256) = (of_nat (n div 256 * 256 + n mod 256) :: size_t)"
      unfolding of_nat_add of_nat_mult by (simp add: push_bit_eq_mult)
    ultimately show ?thesis
      using 2 by (simp add: frame_length_def len7_of_def ext_of_def numeral_2_eq_2 numeral_3_eq_3)
  next
    case 3
    have "length_loop (be_bytes 8 n) 0 = Some (of_nat n)"
      using length_loop_8 [of "be_bytes 8 n"] assms by (simp add: be_value_bytes)
    with 3 show ?thesis by (simp add: frame_length_def len7_of_def ext_of_def)
  qed (simp add: frame_length_def len7_of_def)
qed

text \<open>What may be sent: a message of a known type, short if it is a control frame, within the receiver's limit.\<close>

definition frame_ok :: "size_t \<Rightarrow> ws_msg_type \<times> string \<times> string \<Rightarrow> bool" where
  "frame_ok max_size f = (case f of (t, msg, key) \<Rightarrow>
     t \<noteq> WsUnknown \<and> (t \<in> {WsPing, WsPong, WsClose} \<longrightarrow> length msg \<le> 125) \<and> length key = 4 \<and> length msg \<le> unat max_size)"

lemma parse_frame_sent:
  assumes ok: "frame_ok m (t, msg, key)" and len: "length (ws_send isServer key msg t @ rest) < 2 ^ 64"
  shows "parse_frame m (ws_send isServer key msg t @ rest) = FrameOk True msg (length (ws_send isServer key msg t))"
proof -
  let ?n = "length msg" and ?buf = "ws_send isServer key msg t @ rest"
  let ?fm = "2 + length (ext_of ?n)"
  note fields = sent_fields [OF refl, of isServer key msg t rest]
  have n: "?n < 2 ^ 64" using len by (simp add: ws_send_def sendWsData_shape split: if_splits)
  have known: "frame_type (opcode_of t) WsUnknown \<noteq> None" "is_control (opcode_of t) \<Longrightarrow> length (ext_of ?n) = 0"
    using ok by (cases t; simp add: frame_type_def is_control_def frame_ok_def ext_of_def)+
  have fl: "frame_length (len7_of ?n) ?buf = Some (of_nat ?n)"
    using frame_length_sent [OF n] by (simp add: ws_send_def sendWsData_shape)
  have "unat (of_nat ?n :: size_t) = ?n" using n by (simp add: unat_of_nat take_bit_eq_mod)
  then have lim: "\<not> m < of_nat ?n" using ok by (simp add: frame_ok_def word_less_nat_alt)
  have "frame_body m (of_nat ?n) ?buf = FrameOk True msg (length (ws_send isServer key msg t))"
  proof (cases isServer)
    case True
    then have "take ?n (drop ?fm ?buf) = msg" "length (ws_send isServer key msg t) = ?fm + ?n"
      by (simp_all add: ws_send_def sendWsData_shape)
    then show ?thesis
      unfolding frame_body_def Let_def fields first_mask_len7
      using take_payload_fits [of ?fm ?n ?buf True None] len True fields(2) by simp
  next
    case False
    have k: "length key = 4" using ok by (simp add: frame_ok_def)
    have d: "drop ?fm ?buf = key @ mask_bytes key msg @ rest" using False by (simp add: ws_send_def sendWsData_shape)
    have "drop (?fm + 4) ?buf = drop 4 (drop ?fm ?buf)" by (simp only: drop_drop add.commute)
    with d k have "take 4 (drop ?fm ?buf) = key" "take ?n (drop (?fm + 4) ?buf) = mask_bytes key msg" by simp_all
    moreover have "length (ws_send isServer key msg t) = ?fm + 4 + ?n" using False k by (simp add: ws_send_def sendWsData_shape)
    ultimately show ?thesis
      unfolding frame_body_def Let_def fields first_mask_len7
      using take_payload_fits [of "?fm + 4" ?n ?buf True "Some key"] len False lim fields(2) by simp
  qed
  then show ?thesis
    using known fl by (auto simp: parse_frame_def Let_def fields) (simp add: ws_send_def sendWsData_shape)
qed

section \<open>From the wire to the hooks\<close>

definition sent :: "bool \<Rightarrow> ws_msg_type \<times> string \<times> string \<Rightarrow> string" where
  "sent isServer f = (case f of (t, msg, key) \<Rightarrow> ws_send isServer key msg t)"

lemma sent_length: "2 \<le> length (sent isServer f)"
  by (cases f) (simp add: sent_def ws_send_def sendWsData_shape)

lemma see_frame_sent:
  assumes "frame_ok m (t, msg, key)"
  shows "see_frame (ws_send isServer key msg t @ rest) p = p\<lparr>wp_type := t\<rparr>"
  using assms sent_fields(1) [OF refl, of isServer key msg t rest]
  by (cases t) (simp_all add: see_frame_def frame_type_def frame_ok_def)

lemma onNewMessage_sent:
  assumes ok: "frame_ok m (t, msg, key)" and len: "length (sent isServer (t, msg, key) @ rest) < 2 ^ 64" and p: "wp_message p = []"
  shows "onNewMessage m srv k p (sent isServer (t, msg, key) @ rest) =
     map_option (\<lambda>(outs, q, r). (message_outs srv k msg t @ outs, q, r))
       (onNewMessage m srv k \<lparr>wp_message = [], wp_type = t, wp_gotAll = True\<rparr> rest)"
proof -
  let ?buf = "sent isServer (t, msg, key) @ rest"
  have two: "\<not> length ?buf < 2" using sent_length [of isServer "(t, msg, key)"] by simp
  have "parse_frame m ?buf = FrameOk True msg (length (sent isServer (t, msg, key)))"
    using parse_frame_sent [OF ok] len by (simp add: sent_def)
  moreover have "see_frame ?buf q = q\<lparr>wp_type := t\<rparr>" for q using see_frame_sent [OF ok] by (simp add: sent_def)
  ultimately have "ws_parse m p ?buf = Some (True, \<lparr>wp_message = msg, wp_type = t, wp_gotAll = True\<rparr>, rest)"
    using two p by (cases p) (simp add: ws_parse_def parse_loop.simps [of m _ ?buf] Let_def)
  moreover have "?buf \<noteq> []" using two by auto
  moreover have "t \<noteq> WsUnknown" using ok by (simp add: frame_ok_def)
  ultimately show ?thesis
    by (subst onNewMessage.simps) (auto simp: Let_def split: option.splits)
qed

lemma onNewMessage_part:
  assumes ok: "frame_ok m (t, msg, key)" and len: "length (sent isServer (t, msg, key)) < 2 ^ 64"
    and part: "strict_prefix part (sent isServer (t, msg, key))"
  shows "\<exists>q. onNewMessage m srv k p part = Some ([], q, part) \<and> wp_message q = wp_message p"
proof -
  obtain c where c: "sent isServer (t, msg, key) = part @ c" "c \<noteq> []" using part by (auto simp: strict_prefix_def prefix_def)
  have see: "wp_message (see_frame part q) = wp_message q" "wp_gotAll (see_frame part q) = wp_gotAll q" for q
    by (simp_all add: see_frame_def split: option.splits)
  have more: "parse_frame m part = FrameMore" if "2 \<le> length part"
  proof (rule ccontr)
    assume a: "parse_frame m part \<noteq> FrameMore"
    have "parse_frame m (part @ c) = FrameOk True msg (length (part @ c))"
      using parse_frame_sent [OF ok, of isServer "[]"] len c(1) by (simp add: sent_def)
    then have "parse_frame m part = FrameOk True msg (length (part @ c))"
      using parse_frame_stable [OF a that] len c(1) by simp
    from parse_frame_consumes [OF this] c(2) show False by simp
  qed
  have "\<exists>q. ws_parse m p part = Some (True, q, part) \<and> wp_message q = wp_message p \<and> \<not> wp_gotAll q"
  proof (cases "length part < 2")
    case True
    then show ?thesis by (simp add: ws_parse_def parse_loop.simps [of m _ part])
  next
    case False
    then show ?thesis using more see by (simp add: ws_parse_def parse_loop.simps [of m _ part] Let_def)
  qed
  then show ?thesis by (subst onNewMessage.simps) (auto split: option.splits)
qed

text \<open>Complete frames followed by the beginning of another.\<close>

definition partial_frame :: "size_t \<Rightarrow> bool \<Rightarrow> string \<Rightarrow> bool" where
  "partial_frame m isServer part \<longleftrightarrow> part = [] \<or> (\<exists>f. frame_ok m f \<and> length (sent isServer f) < 2 ^ 64 \<and> strict_prefix part (sent isServer f))"

definition outs_of :: "bool \<Rightarrow> string \<Rightarrow> (ws_msg_type \<times> string \<times> string) list \<Rightarrow> ws_out list" where
  "outs_of srv k fs = concat (map (\<lambda>(t, msg, _). message_outs srv k msg t) fs)"

lemma onNewMessage_frames:
  assumes "\<forall>f \<in> set fs. frame_ok m f" and "partial_frame m isServer part"
    and "length (concat (map (sent isServer) fs) @ part) < 2 ^ 64" and "wp_message p = []"
  shows "\<exists>q. onNewMessage m srv k p (concat (map (sent isServer) fs) @ part) = Some (outs_of srv k fs, q, part) \<and> wp_message q = []"
  using assms
proof (induction fs arbitrary: p)
  case Nil
  show ?case
  proof (cases "part = []")
    case True
    then show ?thesis using Nil by (simp add: onNewMessage.simps outs_of_def)
  next
    case False
    then obtain t msg key where "frame_ok m (t, msg, key)" "length (sent isServer (t, msg, key)) < 2 ^ 64"
      "strict_prefix part (sent isServer (t, msg, key))" using Nil.prems(2) by (auto simp: partial_frame_def)
    from onNewMessage_part [OF this, of srv k p] Nil.prems(4) show ?thesis by (auto simp: outs_of_def)
  qed
next
  case (Cons f fs)
  obtain t msg key where f: "f = (t, msg, key)" by (cases f)
  let ?rest = "concat (map (sent isServer) fs) @ part" and ?p = "\<lparr>wp_message = [], wp_type = t, wp_gotAll = True\<rparr>"
  obtain q where "onNewMessage m srv k ?p ?rest = Some (outs_of srv k fs, q, part)" "wp_message q = []"
    using Cons.IH [of ?p] Cons.prems by auto
  moreover have "onNewMessage m srv k p (sent isServer f @ ?rest) =
      map_option (\<lambda>(outs, q, r). (message_outs srv k msg t @ outs, q, r)) (onNewMessage m srv k ?p ?rest)"
    using Cons.prems onNewMessage_sent [of m t msg key isServer ?rest p] by (simp add: f)
  ultimately show ?case by (simp add: outs_of_def f)
qed

lemma prefix_of_frames:
  "prefix xs (concat (map (sent isServer) fs)) \<Longrightarrow>
     \<exists>as bs part. fs = as @ bs \<and> xs = concat (map (sent isServer) as) @ part
       \<and> (part = [] \<or> (\<exists>b cs. bs = b # cs \<and> strict_prefix part (sent isServer b)))"
proof (induction fs arbitrary: xs)
  case (Cons f fs)
  show ?case
  proof (cases "strict_prefix xs (sent isServer f)")
    case True
    then show ?thesis by (intro exI [of _ "[]"] exI [of _ "f # fs"] exI [of _ xs]) auto
  next
    case False
    with Cons.prems obtain ys where ys: "xs = sent isServer f @ ys" "prefix ys (concat (map (sent isServer) fs))"
      by (auto simp: prefix_append strict_prefix_def)
    from Cons.IH [OF ys(2)] obtain as bs part where "fs = as @ bs" "ys = concat (map (sent isServer) as) @ part"
      "part = [] \<or> (\<exists>b cs. bs = b # cs \<and> strict_prefix part (sent isServer b))" by blast
    with ys(1) show ?thesis by (intro exI [of _ "f # as"] exI [of _ bs] exI [of _ part]) auto
  qed
qed simp

lemma ws_receive_frames:
  assumes "\<forall>f \<in> set fs. frame_ok m f" and "partial_frame m isServer part" and "wp_message p = []"
    and "part @ concat pieces = concat (map (sent isServer) fs)" and "length (concat (map (sent isServer) fs)) < 2 ^ 64"
    and "\<And>f. fs = [] \<or> part = [] \<or> strict_prefix part (sent isServer (hd fs))"
  shows "\<exists>q. ws_receive m srv k pieces p part = Some (outs_of srv k fs, q, []) \<and> wp_message q = []"
  using assms
proof (induction pieces arbitrary: fs part p)
  case Nil
  have "fs = []"
  proof (rule ccontr)
    assume "fs \<noteq> []"
    then obtain f gs where fs: "fs = f # gs" by (cases fs) auto
    with Nil.prems(4) have "prefix (sent isServer f) part" by simp
    with Nil.prems(6) fs sent_length [of isServer f] show False by (auto simp: strict_prefix_def)
  qed
  with Nil show ?case by (simp add: outs_of_def)
next
  case (Cons d ds)
  have pre: "prefix (part @ d) (concat (map (sent isServer) fs))"
    unfolding Cons.prems(4) [symmetric] by (simp add: prefix_def)
  obtain as bs part' where split: "fs = as @ bs" "part @ d = concat (map (sent isServer) as) @ part'"
    and p': "part' = [] \<or> (\<exists>b cs. bs = b # cs \<and> strict_prefix part' (sent isServer b))"
    using prefix_of_frames [OF pre] by blast
  have small: "length (sent isServer b) < 2 ^ 64" if "b \<in> set fs" for b
  proof -
    have "length (sent isServer b) \<le> length (concat (map (sent isServer) fs))"
      using that by (auto simp: length_concat intro: member_le_sum_list)
    with Cons.prems(5) show ?thesis by simp
  qed
  have pf: "partial_frame m isServer part'"
    using p' Cons.prems(1) small split(1) by (fastforce simp: partial_frame_def)
  have "length (part @ d) < 2 ^ 64" using prefix_length_le [OF pre] Cons.prems(5) by simp
  then obtain q where q: "onNewMessage m srv k p (part @ d) = Some (outs_of srv k as, q, part')" "wp_message q = []"
    using onNewMessage_frames [OF _ pf _ Cons.prems(3), of as srv k] Cons.prems(1) split by auto
  have "(part @ d) @ concat ds = concat (map (sent isServer) as) @ concat (map (sent isServer) bs)"
    using Cons.prems(4) split(1) by simp
  then have "part' @ concat ds = concat (map (sent isServer) bs)" unfolding split(2) by simp
  moreover have "length (concat (map (sent isServer) bs)) < 2 ^ 64" using Cons.prems(5) split(1) by simp
  ultimately obtain r where "ws_receive m srv k ds q part' = Some (outs_of srv k bs, r, [])" "wp_message r = []"
    using Cons.IH [of bs part' q] pf q(2) p' Cons.prems(1) split(1) by auto
  with q(1) show ?case by (simp add: outs_of_def split(1))
qed

text \<open>The message callback of a connection is the controller's \<^verbatim>\<open>handleNewMessage\<close>.\<close>

fun ws_callback :: "nat \<Rightarrow> ws_out \<Rightarrow> wsys \<Rightarrow> wsys" where
  "ws_callback c (WsCallback m t) s = handleNewMessage c m (t = WsBinary) s"
| "ws_callback c _ s = s"

lemma ws_callback_events:
  assumes "wx_context s c = Some i" and "findWsSession s i = Some sn" and "sn_cpp_fn sn = None"
  shows "g_wsEvents (fold (ws_callback c) (outs_of srv k fs) s) =
     g_wsEvents s @ map (\<lambda>(t, msg, _). MessageEv i (sn_route_id sn) msg (t = WsBinary)) fs"
  using assms
proof (induction fs arbitrary: s)
  case (Cons f fs)
  obtain t msg key where f: "f = (t, msg, key)" by (cases f)
  let ?s = "enqueueWsEvent (MessageEv i (sn_route_id sn) msg (t = WsBinary)) s"
  have "fold (ws_callback c) (message_outs srv k msg t) s = ?s"
    using Cons.prems by (simp add: message_outs_def handleNewMessage_def)
  moreover have "wx_context ?s c = Some i" "findWsSession ?s i = Some sn" "g_wsEvents ?s = g_wsEvents s @ [MessageEv i (sn_route_id sn) msg (t = WsBinary)]"
    using Cons.prems by (simp_all add: enqueueWsEvent_def findWsSession_def)
  ultimately show ?case using Cons.IH [of ?s] Cons.prems(3) by (simp add: outs_of_def f)
qed (simp add: outs_of_def)


definition chat_conn :: wsys where
  "chat_conn = handleNewConnection 1 ''/chat'' 5 (snd (addWsRoute (newWsRoute ''/chat'') wsys_init))"

lemma chat_conn_session:
  "wx_context chat_conn 5 = Some 1" "findWsSession chat_conn 1 = Some (newWsSession 1 0 None no_guards 5)"
  "g_wsEvents chat_conn = [ConnectEv 1 0]"
  by (simp_all add: chat_conn_def handleNewConnection_def addWsRoute_def newWsRoute_def wsys_init_def routeIdForPath_def
      cppFnForRoute_def wsRoute_def guarded_def no_guards_def registerConn_def emplaceWsSession_def enqueueWsEvent_def
      findWsSession_def Let_def)


section \<open>Frames that were not sent by this code\<close>

text \<open>An unmasked frame with a short payload.\<close>

definition raw_frame :: "nat \<Rightarrow> string \<Rightarrow> string" where
  "raw_frame b0 data = char_of b0 # char_of (length data) # data"

lemma parse_raw_frame:
  assumes "b0 < 256" and "frame_type (b0 mod 16) WsUnknown \<noteq> None" and "128 \<le> b0 \<or> \<not> is_control (b0 mod 16)"
    and "length data \<le> 125" and "length (raw_frame b0 data @ rest) < 2 ^ 64"
  shows "parse_frame m (raw_frame b0 data @ rest) = FrameOk (128 \<le> b0) data (2 + length data)"
proof -
  let ?buf = "raw_frame b0 data @ rest"
  have f: "fr_opcode ?buf = b0 mod 16" "fr_fin ?buf \<longleftrightarrow> 128 \<le> b0" "\<not> fr_masked ?buf" "fr_len7 ?buf = length data"
    using assms(1,4) by (simp_all add: raw_frame_def fr_opcode_def fr_fin_def fr_masked_def fr_len7_def)
  have "first_mask (length data) = 2" "frame_length (length data) ?buf = Some (of_nat (length data))"
    using assms(4) by (auto simp: first_mask_def frame_length_def)
  moreover have "take (length data) (drop 2 ?buf) = data" by (simp add: raw_frame_def)
  moreover have "2 + length data \<le> length ?buf" by (simp add: raw_frame_def)
  ultimately show ?thesis
    using assms(2,3,5) take_payload_fits [of 2 "length data" ?buf "128 \<le> b0" None]
    by (auto simp: parse_frame_def frame_body_def Let_def f)
qed

lemma parse_loop_raw:
  assumes "b0 < 256" and "frame_type (b0 mod 16) WsUnknown \<noteq> None" and "128 \<le> b0 \<or> \<not> is_control (b0 mod 16)"
    and "length data \<le> 125" and "length (raw_frame b0 data @ rest) < 2 ^ 64"
  shows "parse_loop m p (raw_frame b0 data @ rest) =
     (let t = the (frame_type (b0 mod 16) (wp_type p)); q = p\<lparr>wp_type := t, wp_message := wp_message p @ data\<rparr>
      in if 128 \<le> b0 then Some (True, q\<lparr>wp_gotAll := True\<rparr>, rest) else parse_loop m q rest)"
proof -
  let ?buf = "raw_frame b0 data @ rest"
  have op: "fr_opcode ?buf = b0 mod 16" using assms(1) by (simp add: raw_frame_def fr_opcode_def)
  have "frame_type (b0 mod 16) (wp_type p) \<noteq> None" using assms(2) by (auto simp: frame_type_def split: if_splits)
  then have see: "see_frame ?buf p = p\<lparr>wp_type := the (frame_type (b0 mod 16) (wp_type p))\<rparr>"
    by (auto simp: see_frame_def op)
  have "\<not> length ?buf < 2" "drop (2 + length data) ?buf = rest" by (simp_all add: raw_frame_def)
  then show ?thesis
    using parse_raw_frame [OF assms, of m] by (subst parse_loop.simps) (simp add: see Let_def)
qed

text \<open>
  A ping between the fragments of a text message destroys the message. The first fragment
  (\<open>raw_frame 1 a\<close>), a ping (\<open>raw_frame 137 c\<close>) and the last fragment (\<open>raw_frame 128 b\<close>) are a
  legal sequence for the text \<open>a @ b\<close>. The parser keeps one message and one type for all frames, so it
  reports a ping with payload \<open>a @ c\<close> and another ping with payload \<open>b\<close>, answers both, and never
  reports the text.
\<close>

lemma ws_ping_breaks_fragments:
  assumes "length a \<le> 125" and "length c \<le> 125" and "length b \<le> 125"
  shows "\<exists>q. ws_receive m srv k [raw_frame 1 a @ raw_frame 137 c @ raw_frame 128 b] (newWsParser ub) [] =
     Some ([WsWire (ws_send srv k (a @ c) WsPong), WsCallback (a @ c) WsPing,
            WsWire (ws_send srv k b WsPong), WsCallback b WsPing], q, [])"
proof -
  let ?tail = "raw_frame 128 b" and ?ping = "\<lparr>wp_message = a @ c, wp_type = WsPing, wp_gotAll = True\<rparr>"
  have types: "frame_type (Suc 0) t = Some WsText" "frame_type 9 t = Some WsPing" "frame_type 0 t = Some t" "\<not> is_control (Suc 0)" for t
    by (simp_all add: frame_type_def is_control_def)
  have len: "length (raw_frame x a @ raw_frame y c @ raw_frame z b) < 2 ^ 64" "length (raw_frame y c @ raw_frame z b) < 2 ^ 64"
    "length (raw_frame z b @ []) < 2 ^ 64" for x y z using assms by (simp_all add: raw_frame_def)
  have first: "ws_parse m (newWsParser ub) (raw_frame 1 a @ raw_frame 137 c @ ?tail) = Some (True, ?ping, ?tail)"
    using parse_loop_raw [OF _ _ _ assms(1) len(1) [of 1 137 128], of m] parse_loop_raw [OF _ _ _ assms(2) len(2) [of 137 128], of m]
    by (simp add: ws_parse_def newWsParser_def types Let_def)
  have "ws_parse m \<lparr>wp_message = [], wp_type = WsPing, wp_gotAll = True\<rparr> ?tail
      = Some (True, \<lparr>wp_message = b, wp_type = WsPing, wp_gotAll = True\<rparr>, [])"
    using parse_loop_raw [OF _ _ _ assms(3) len(3) [of 128], of m] by (simp add: ws_parse_def types Let_def)
  then have "onNewMessage m srv k \<lparr>wp_message = [], wp_type = WsPing, wp_gotAll = True\<rparr> ?tail =
      Some (message_outs srv k b WsPing, \<lparr>wp_message = [], wp_type = WsPing, wp_gotAll = True\<rparr>, [])"
    by (subst onNewMessage.simps) (simp add: raw_frame_def onNewMessage.simps [of m srv k _ "[]"])
  with first have "onNewMessage m srv k (newWsParser ub) (raw_frame 1 a @ raw_frame 137 c @ ?tail) =
      Some (message_outs srv k (a @ c) WsPing @ message_outs srv k b WsPing, \<lparr>wp_message = [], wp_type = WsPing, wp_gotAll = True\<rparr>, [])"
    by (subst onNewMessage.simps) (simp add: raw_frame_def)
  then show ?thesis by (simp add: message_outs_def)
qed

text \<open>An unmasked binary frame that announces a payload of \<open>2 ^ 64 - 1\<close> bytes.\<close>

definition unmasked_header :: string where
  "unmasked_header = char_of (130 :: nat) # char_of (127 :: nat) # replicate 8 (char_of (255 :: nat))"

lemma receive_unmasked_header: "ws_receive m srv k [unmasked_header] (newWsParser ub) [] = None"
proof -
  let ?evil = unmasked_header
  have f: "fr_opcode ?evil = 2" "fr_fin ?evil" "\<not> fr_masked ?evil" "fr_len7 ?evil = 127" "length ?evil = 10"
    by (simp_all add: unmasked_header_def fr_opcode_def fr_fin_def fr_masked_def fr_len7_def)
  have "be_value (replicate j (char_of (255 :: nat))) + 1 = 256 ^ j" for j
    by (induction j) (simp_all add: be_value_Cons, simp add: be_value_def)
  from this [of 8] have "be_value (replicate 8 (char_of (255 :: nat))) = 2 ^ 64 - 1" by simp
  then have "frame_length 127 ?evil = Some (- 1)"
    using length_loop_8 [of "replicate 8 (char_of (255 :: nat))"] by (simp add: frame_length_def unmasked_header_def)
  moreover have "take_payload True 10 None (- 1) ?evil = FrameOverrun"
    by (simp add: take_payload_def f unsigned_minus_1_eq_mask mask_eq_exp_minus_1)
  ultimately have "parse_frame m ?evil = FrameOverrun"
    by (simp add: parse_frame_def frame_body_def Let_def f first_mask_def frame_type_def is_control_def)
  then have "ws_parse m p ?evil = None" for p
    by (simp add: ws_parse_def parse_loop.simps [of m _ ?evil] Let_def f)
  then show ?thesis using f(5) by (simp add: onNewMessage.simps [of m srv k _ ?evil]) (auto simp: unmasked_header_def)
qed

lemma take_payload_bounded:
  assumes "unat len \<le> unat m" and "start \<le> 14" and "unat m < 2 ^ 64 - 14" and "length buf < 2 ^ 64"
  shows "take_payload fin start (Some key) len buf \<noteq> FrameOverrun
    \<and> (take_payload fin start (Some key) len buf = FrameOk f d n \<longrightarrow> length d \<le> unat m)"
proof -
  have "unat (of_nat start + len) = start + unat len"
    using assms by (simp add: unat_word_ariths unat_of_nat take_bit_eq_mod)
  then have "of_nat start + len \<le> (of_nat (length buf) :: size_t) \<longleftrightarrow> start + unat len \<le> length buf"
    using assms(4) by (simp add: word_le_nat_alt unat_of_nat take_bit_eq_mod)
  with assms(1) show ?thesis by (auto simp: take_payload_def)
qed

lemma parse_masked:
  assumes "fr_masked buf" and "unat m < 2 ^ 64 - 14" and "length buf < 2 ^ 64"
  shows "parse_frame m buf \<noteq> FrameOverrun \<and> (parse_frame m buf = FrameOk fin d n \<longrightarrow> length d \<le> unat m)"
proof -
  have fm: "first_mask j + 4 \<le> 14" for j by (simp add: first_mask_def)
  have "frame_body m len buf \<noteq> FrameOverrun \<and> (frame_body m len buf = FrameOk fin d n \<longrightarrow> length d \<le> unat m)" for len
  proof (cases "len > m")
    case False
    then have "unat len \<le> unat m" by (simp add: word_less_nat_alt)
    from take_payload_bounded [OF this fm assms(2,3)] show ?thesis using assms(1) False by (simp add: frame_body_def Let_def)
  qed (use assms(1) in \<open>simp add: frame_body_def Let_def\<close>)
  then show ?thesis by (auto simp: parse_frame_def Let_def split: option.splits)
qed



end
