(* ===== verification/WsClient.thy ===== *)
theory WsClient
  imports WsSession
begin

text \<open>
  \<^verbatim>\<open>src/src/ws_client.cpp\<close>: outbound WebSocket connections. Callbacks on the client loop queue events;
  the main thread delivers them to the R hooks, which may call back into the package. A client owns its
  preserved hooks until its close event has been delivered, or until all clients are shut down.
  Drogon's client object is a parameter: whether it can be created, and what it reports.
\<close>

section \<open>State\<close>

text \<open>A hook is \<open>None\<close> once \<^verbatim>\<open>releaseClientHooks\<close> has set it to a null pointer.\<close>

record ws_client =
  wc_closing :: bool
  wc_on_message :: "sexp option"
  wc_on_open :: "sexp option"
  wc_on_close :: "sexp option"

datatype client_event =
    ClOpen uint64
  | ClMessage uint64 string bool
  | ClClose uint64 string int

record wcsys =
  g_wsClients :: "(uint64 \<times> ws_client) list"
  g_wsClientEvents :: "client_event list"
  g_nextClientId :: uint64
  g_wsClientLoop :: bool
  cx_queue :: "(uint64 \<times> string \<times> bool) list"   \<comment> \<open>sends queued on the client loop\<close>
  cx_stops :: "uint64 list"                          \<comment> \<open>\<^verbatim>\<open>client->stop()\<close>\<close>
  cx_dispatcher :: bool
  cx_preserved :: preserved
  cx_wrapped :: bool                                 \<comment> \<open>ghost: the 64 bit id counter has wrapped around\<close>

definition findClient :: "wcsys \<Rightarrow> uint64 \<Rightarrow> ws_client option" where
  "findClient s i = map_of (g_wsClients s) i"

definition enqueueClientEvent :: "client_event \<Rightarrow> wcsys \<Rightarrow> wcsys" where
  "enqueueClientEvent ev s = s\<lparr>g_wsClientEvents := g_wsClientEvents s @ [ev]\<rparr>"

definition ensureClientLoop :: "wcsys \<Rightarrow> wcsys" where
  "ensureClientLoop s = s\<lparr>g_wsClientLoop := True\<rparr>"

definition wsClientCount :: "wcsys \<Rightarrow> nat" where
  "wsClientCount s = length (g_wsClients s)"

definition eraseClient :: "uint64 \<Rightarrow> wcsys \<Rightarrow> wcsys" where
  "eraseClient i s = s\<lparr>g_wsClients := filter (\<lambda>(k, _). k \<noteq> i) (g_wsClients s)\<rparr>"

definition emplaceClient :: "ws_client \<Rightarrow> wcsys \<Rightarrow> wcsys" where
  "emplaceClient c s = s\<lparr>g_wsClients := (g_nextClientId s, c) # g_wsClients s, g_nextClientId := g_nextClientId s + 1,
     cx_wrapped := (cx_wrapped s \<or> g_nextClientId s = - 1)\<rparr>"

fun release_client_hook :: "sexp option \<Rightarrow> preserved \<Rightarrow> preserved" where
  "release_client_hook None p = p"
| "release_client_hook (Some h) p = release_hook h p"

text \<open>The client is dropped right after its hooks are released, so only the releases matter.\<close>

definition releaseClientHooks :: "ws_client \<Rightarrow> preserved \<Rightarrow> preserved" where
  "releaseClientHooks c p =
     release_client_hook (wc_on_close c) (release_client_hook (wc_on_open c) (release_client_hook (wc_on_message c) p))"

section \<open>Entry points and callbacks\<close>

datatype client_error = ClBadHost | ClBadPath | ClNoClient | ClBadId | ClBadMsg

definition newClient :: "sexp \<Rightarrow> sexp \<Rightarrow> sexp \<Rightarrow> ws_client" where
  "newClient on_message on_open on_close =
     \<lparr>wc_closing = False, wc_on_message = Some (closure_or_nil on_message), wc_on_open = Some (closure_or_nil on_open),
      wc_on_close = Some (closure_or_nil on_close)\<rparr>"

definition preserveClientHooks :: "ws_client \<Rightarrow> preserved \<Rightarrow> preserved" where
  "preserveClientHooks c p =
     (case (wc_on_message c, wc_on_open c, wc_on_close c) of
        (Some m, Some op, Some cl) \<Rightarrow> preserve_hook cl (preserve_hook op (preserve_hook m p))
      | _ \<Rightarrow> p)"

text \<open>
  \<open>creates\<close> tells for which hosts \<^verbatim>\<open>newWebSocketClient\<close> yields a client. On an error the state is still
  changed: the loop and the dispatcher run and the id is used up.
\<close>

definition drogonR_ws_connect ::
  "(string \<Rightarrow> bool) \<Rightarrow> sexp \<Rightarrow> sexp \<Rightarrow> sexp \<Rightarrow> sexp \<Rightarrow> sexp \<Rightarrow> wcsys \<Rightarrow> (client_error + uint64) \<times> wcsys" where
  "drogonR_ws_connect creates r_host r_path on_message on_open on_close s =
     (case as_one_string r_host of
        None \<Rightarrow> (Inl ClBadHost, s)
      | Some host \<Rightarrow>
          (case as_one_string r_path of
             None \<Rightarrow> (Inl ClBadPath, s)
           | Some path \<Rightarrow>
               let s1 = (ensureClientLoop s)\<lparr>cx_dispatcher := True\<rparr>;
                   i = g_nextClientId s1;
                   c = newClient on_message on_open on_close;
                   p = preserveClientHooks c (cx_preserved s1)
               in if \<not> creates host then
                    (Inl ClNoClient, s1\<lparr>g_nextClientId := i + 1, cx_wrapped := (cx_wrapped s1 \<or> i = - 1),
                       cx_preserved := releaseClientHooks c p\<rparr>)
                  else (Inr i, emplaceClient c (s1\<lparr>cx_preserved := p\<rparr>))))"

definition drogonR_ws_client_send :: "uint64 \<Rightarrow> sexp \<Rightarrow> sexp \<Rightarrow> sexp \<Rightarrow> wcsys \<Rightarrow> (client_error + bool) \<times> wcsys" where
  "drogonR_ws_client_send ub r_id r_msg r_binary s =
     (case conn_id_arg ub r_id of
        None \<Rightarrow> (Inl ClBadId, s)
      | Some i \<Rightarrow>
          (case as_one_string r_msg of
             None \<Rightarrow> (Inl ClBadMsg, s)
           | Some m \<Rightarrow>
               (case findClient s i of
                  None \<Rightarrow> (Inr False, s)
                | Some c \<Rightarrow>
                    if wc_closing c then (Inr False, s)
                    else (Inr True, s\<lparr>cx_queue := cx_queue s @ [(i, m, true_flag r_binary)]\<rparr>))))"

definition drogonR_ws_client_close :: "uint64 \<Rightarrow> sexp \<Rightarrow> wcsys \<Rightarrow> (client_error + unit) \<times> wcsys" where
  "drogonR_ws_client_close ub r_id s =
     (case conn_id_arg ub r_id of
        None \<Rightarrow> (Inl ClBadId, s)
      | Some i \<Rightarrow>
          (case findClient s i of
             None \<Rightarrow> (Inr (), s)
           | Some _ \<Rightarrow>
               (Inr (), s\<lparr>g_wsClients := map (\<lambda>(k, c). (k, if k = i then c\<lparr>wc_closing := True\<rparr> else c)) (g_wsClients s),
                          cx_stops := cx_stops s @ [i]\<rparr>)))"

text \<open>Stopping every client and joining the loop thread, then dropping everything.\<close>

definition shutdownWsClients :: "wcsys \<Rightarrow> wcsys" where
  "shutdownWsClients s =
     s\<lparr>g_wsClients := [], g_wsClientEvents := [], g_wsClientLoop := False,
       cx_stops := cx_stops s @ map fst (g_wsClients s),
       cx_preserved := fold (\<lambda>(_, c). releaseClientHooks c) (g_wsClients s) (cx_preserved s)\<rparr>"

text \<open>The callbacks on the client loop.\<close>

definition onClientMessage :: "uint64 \<Rightarrow> string \<Rightarrow> bool \<Rightarrow> wcsys \<Rightarrow> wcsys" where
  "onClientMessage i m binary s = enqueueClientEvent (ClMessage i m binary) s"

definition onClientClosed :: "uint64 \<Rightarrow> wcsys \<Rightarrow> wcsys" where
  "onClientClosed i s = enqueueClientEvent (ClClose i ''closed'' 0) s"

text \<open>\<open>r\<close> is the numeric \<^verbatim>\<open>ReqResult\<close>; 0 is \<^verbatim>\<open>Ok\<close>.\<close>

definition onConnectResult :: "uint64 \<Rightarrow> int \<Rightarrow> wcsys \<Rightarrow> wcsys" where
  "onConnectResult i r s = enqueueClientEvent (if r = 0 then ClOpen i else ClClose i ''connect_failed'' r) s"

section \<open>Delivering events\<close>

datatype client_api =
    ApiConnect sexp sexp sexp sexp sexp
  | ApiClientSend sexp sexp sexp
  | ApiClientClose sexp
  | ApiClientShutdown

fun client_api_call :: "(string \<Rightarrow> bool) \<Rightarrow> uint64 \<Rightarrow> client_api \<Rightarrow> wcsys \<Rightarrow> wcsys" where
  "client_api_call creates ub (ApiConnect h p m op cl) s = snd (drogonR_ws_connect creates h p m op cl s)"
| "client_api_call creates ub (ApiClientSend c m b) s = snd (drogonR_ws_client_send ub c m b s)"
| "client_api_call creates ub (ApiClientClose c) s = snd (drogonR_ws_client_close ub c s)"
| "client_api_call creates ub ApiClientShutdown s = shutdownWsClients s"

text \<open>The oracle for R's evaluator, as for the server's hooks; the boolean says whether a hook ran.\<close>

type_synonym 'w client_oracle = "'w \<Rightarrow> sexp \<Rightarrow> sexp list \<Rightarrow> client_api list \<times> 'w"

definition callClientHook ::
  "(string \<Rightarrow> bool) \<Rightarrow> uint64 \<Rightarrow> 'w client_oracle \<Rightarrow> sexp option \<Rightarrow> sexp list \<Rightarrow> 'w \<times> wcsys \<Rightarrow> bool \<times> 'w \<times> wcsys" where
  "callClientHook creates ub E hook args x =
     (case hook of
        None \<Rightarrow> (False, x)
      | Some h \<Rightarrow>
          if \<not> is_closure h then (False, x)
          else let (calls, w1) = E (fst x) h args in (True, w1, fold (client_api_call creates ub) calls (snd x)))"

text \<open>Hooks of a client that is no longer in the table are \<^verbatim>\<open>R_NilValue\<close>.\<close>

definition clientHook :: "(ws_client \<Rightarrow> sexp option) \<Rightarrow> wcsys \<Rightarrow> uint64 \<Rightarrow> sexp option" where
  "clientHook sel s i = (case findClient s i of None \<Rightarrow> Some NilSXP | Some c \<Rightarrow> sel c)"

definition eraseDeadClient :: "uint64 \<Rightarrow> wcsys \<Rightarrow> wcsys" where
  "eraseDeadClient i s =
     (case findClient s i of
        None \<Rightarrow> s
      | Some c \<Rightarrow> (eraseClient i s)\<lparr>cx_preserved := releaseClientHooks c (cx_preserved s)\<rparr>)"

fun deliverClientEvent ::
  "(string \<Rightarrow> bool) \<Rightarrow> uint64 \<Rightarrow> 'w client_oracle \<Rightarrow> client_event \<Rightarrow> 'w \<times> wcsys \<Rightarrow> bool \<times> 'w \<times> wcsys" where
  "deliverClientEvent creates ub E (ClOpen i) x = callClientHook creates ub E (clientHook wc_on_open (snd x) i) [] x"
| "deliverClientEvent creates ub E (ClMessage i m b) x =
     callClientHook creates ub E (clientHook wc_on_message (snd x) i)
       [STRSXP no_attr [mkChar m], LGLSXP no_attr [if b then 1 else 0]] x"
| "deliverClientEvent creates ub E (ClClose i reason cause) x =
     (case callClientHook creates ub E (clientHook wc_on_close (snd x) i)
             [STRSXP no_attr [mkChar reason], INTSXP no_attr [cause]] x of
        (called, w1, s1) \<Rightarrow> (called, w1, eraseDeadClient i s1))"

definition swapClientEvents :: "wcsys \<Rightarrow> client_event list \<times> wcsys" where
  "swapClientEvents s = (g_wsClientEvents s, s\<lparr>g_wsClientEvents := []\<rparr>)"

definition drainWsClientEvents :: "(string \<Rightarrow> bool) \<Rightarrow> uint64 \<Rightarrow> 'w client_oracle \<Rightarrow> 'w \<times> wcsys \<Rightarrow> 'w \<times> wcsys" where
  "drainWsClientEvents creates ub E x =
     (let (batch, s1) = swapClientEvents (snd x)
      in fold (\<lambda>ev y. snd (deliverClientEvent creates ub E ev y)) batch (fst x, s1))"

section \<open>Interfaces\<close>

lemma findClient_eq: "findClient s = map_of (g_wsClients s)"
  by (rule ext) (simp add: findClient_def)

interpretation ct: id_table findClient g_nextClientId emplaceClient eraseClient
  by unfold_locales (simp_all add: findClient_eq map_of_drop_key emplaceClient_def eraseClient_def)

interpretation cq: bridge_queue "\<lambda>ev s. (True, enqueueClientEvent ev s)" swapClientEvents g_wsClientEvents
  by unfold_locales (auto simp: enqueueClientEvent_def swapClientEvents_def)

section \<open>Ownership of the hooks\<close>

fun hook_held :: "sexp option \<Rightarrow> preserved" where
  "hook_held None = {#}"
| "hook_held (Some h) = (if h = NilSXP then {#} else {#h#})"

definition client_held :: "ws_client \<Rightarrow> preserved" where
  "client_held c = hook_held (wc_on_message c) + hook_held (wc_on_open c) + hook_held (wc_on_close c)"

definition held_clients :: "wcsys \<Rightarrow> preserved" where
  "held_clients s = sum_list (map (\<lambda>(_, c). client_held c) (g_wsClients s))"

lemma release_hook_held: "release_hook h p = p - hook_held (Some h)"
  by (cases h) simp_all

lemma preserve_hook_held: "preserve_hook h p = p + hook_held (Some h)"
  by (cases h) simp_all

lemma releaseClientHooks_held: "releaseClientHooks c p = p - client_held c"
  by (cases "wc_on_message c"; cases "wc_on_open c"; cases "wc_on_close c")
    (simp_all add: releaseClientHooks_def client_held_def release_hook_held diff_diff_add add.commute add.left_commute
      del: hook_held.simps(2))

lemma preserveClientHooks_held: "preserveClientHooks (newClient m op cl) p = p + client_held (newClient m op cl)"
  by (simp add: preserveClientHooks_def newClient_def client_held_def preserve_hook_held ac_simps del: hook_held.simps(2))

lemma sum_drop_key:
  fixes f :: "ws_client \<Rightarrow> preserved"
  assumes "distinct (map fst xs)" and "map_of xs i = Some c"
  shows "sum_list (map (\<lambda>(_, c). f c) xs) = f c + sum_list (map (\<lambda>(_, c). f c) (filter (\<lambda>(k, _). k \<noteq> i) xs))"
  using assms
proof (induction xs)
  case (Cons x xs)
  obtain k v where x: "x = (k, v)" by fastforce
  show ?case
  proof (cases "k = i")
    case True
    with Cons.prems x have "filter (\<lambda>(k, _). k \<noteq> i) xs = xs" by (intro filter_True) force
    with True Cons.prems x show ?thesis by simp
  next
    case False
    with Cons x show ?thesis by (simp add: ac_simps)
  qed
qed simp

lemma fold_release: "fold (\<lambda>(_, c). releaseClientHooks c) xs p = p - sum_list (map (\<lambda>(_, c). client_held c) xs)"
  by (induction xs arbitrary: p) (auto simp: releaseClientHooks_held diff_diff_add)

text \<open>
  The ownership invariant: the hooks preserved beyond \<open>p0\<close> are exactly those of the clients in the
  table, and the clients in \<open>dead\<close>, whose close has been delivered, are not in it.
\<close>

definition clients_ok :: "preserved \<Rightarrow> uint64 set \<Rightarrow> wcsys \<Rightarrow> bool" where
  "clients_ok p0 dead s \<longleftrightarrow> cx_wrapped s \<or>
     (distinct (map fst (g_wsClients s)) \<and> (\<forall>k \<in> fst ` set (g_wsClients s). k < g_nextClientId s)
      \<and> (\<forall>i \<in> dead. i < g_nextClientId s \<and> i \<notin> fst ` set (g_wsClients s))
      \<and> cx_preserved s = p0 + held_clients s)"

lemma clients_ok_frame:
  assumes "clients_ok p0 dead s" and "map (\<lambda>(k, c). (k, client_held c)) (g_wsClients t) = map (\<lambda>(k, c). (k, client_held c)) (g_wsClients s)"
    and "g_nextClientId t = g_nextClientId s" "cx_preserved t = cx_preserved s" "cx_wrapped t = cx_wrapped s"
  shows "clients_ok p0 dead t"
proof -
  have keys: "map fst (g_wsClients t) = map fst (g_wsClients s)"
    using arg_cong [OF assms(2), of "map fst"] by (simp add: comp_def case_prod_unfold)
  have "held_clients t = held_clients s"
    using arg_cong [OF assms(2), of "\<lambda>xs. sum_list (map snd xs)"] by (simp add: held_clients_def comp_def case_prod_unfold)
  moreover have "fst ` set (g_wsClients t) = fst ` set (g_wsClients s)" using keys by (metis list.set_map)
  ultimately show ?thesis using assms(1) keys by (simp add: clients_ok_def assms(3-5))
qed

lemma clients_ok_connect:
  assumes ok: "clients_ok p0 dead s"
  shows "clients_ok p0 dead (snd (drogonR_ws_connect creates h pa m op cl s))"
proof -
  let ?c = "newClient m op cl"
  have less: "\<And>j :: uint64. j < g_nextClientId s \<Longrightarrow> g_nextClientId s \<noteq> - 1 \<Longrightarrow> j < g_nextClientId s + 1"
    "g_nextClientId s \<noteq> - 1 \<Longrightarrow> g_nextClientId s < g_nextClientId s + 1" by (auto simp: word_less_inc)
  have bad: "clients_ok p0 dead (s\<lparr>g_wsClientLoop := True, cx_dispatcher := True, g_nextClientId := g_nextClientId s + 1,
      cx_wrapped := (cx_wrapped s \<or> g_nextClientId s = - 1), cx_preserved := cx_preserved s\<rparr>)"
    using ok less by (auto simp: clients_ok_def held_clients_def)
  have good: "clients_ok p0 dead (emplaceClient ?c (s\<lparr>g_wsClientLoop := True, cx_dispatcher := True,
      cx_preserved := cx_preserved s + client_held ?c\<rparr>))"
    using ok less by (auto simp: clients_ok_def held_clients_def emplaceClient_def ac_simps)
  show ?thesis
    using ok bad good
    by (auto simp: drogonR_ws_connect_def Let_def ensureClientLoop_def preserveClientHooks_held releaseClientHooks_held
        split: option.splits)
qed

lemma clients_ok_api:
  assumes ok: "clients_ok p0 dead s"
  shows "clients_ok p0 dead (client_api_call creates ub a s)"
proof (cases a)
  case (ApiClientSend c m b)
  then show ?thesis
    by (auto simp: drogonR_ws_client_send_def ok split: option.splits intro!: clients_ok_frame [OF ok])
next
  case (ApiClientClose c)
  then show ?thesis
    by (auto simp: drogonR_ws_client_close_def ok client_held_def split: option.splits intro!: clients_ok_frame [OF ok])
next
  case ApiClientShutdown
  then show ?thesis
    using ok by (auto simp: shutdownWsClients_def clients_ok_def held_clients_def fold_release)
qed (simp add: clients_ok_connect ok)

lemma clients_ok_fold: "clients_ok p0 dead s \<Longrightarrow> clients_ok p0 dead (fold (client_api_call creates ub) calls s)"
  by (induction calls arbitrary: s) (simp_all add: clients_ok_api)

lemma clients_ok_dead:
  assumes "clients_ok p0 dead s" and "i < g_nextClientId s \<or> findClient s i \<noteq> None"
  shows "clients_ok p0 (insert i dead) (eraseDeadClient i s)"
proof (cases "findClient s i")
  case None
  then have "eraseDeadClient i s = s" by (simp add: eraseDeadClient_def)
  moreover have "i \<notin> fst ` set (g_wsClients s)" "i < g_nextClientId s"
    using None assms(2) by (simp_all add: findClient_eq map_of_eq_None_iff)
  ultimately show ?thesis using assms(1) by (auto simp: clients_ok_def)
next
  case (Some c)
  then have mem: "i \<in> fst ` set (g_wsClients s)" by (force simp: findClient_eq dest: map_of_SomeD)
  have sum: "distinct (map fst (g_wsClients s)) \<Longrightarrow> held_clients s = client_held c
      + sum_list (map (\<lambda>(_, c). client_held c) (filter (\<lambda>(k, _). k \<noteq> i) (g_wsClients s)))"
    using sum_drop_key [of "g_wsClients s" i c client_held] Some by (simp add: held_clients_def findClient_eq)
  have "distinct (map fst (g_wsClients s)) \<Longrightarrow> distinct (map fst (filter (\<lambda>(k, _). k \<noteq> i) (g_wsClients s)))"
    by (rule distinct_map_filter)
  then show ?thesis
    using assms(1) Some mem sum
    by (auto simp: clients_ok_def eraseDeadClient_def eraseClient_def releaseClientHooks_held held_clients_def)
qed

section \<open>All interleavings\<close>

text \<open>
  Callbacks of the client loop, calls from R, and the two halves of the drain loop in any order. A
  callback exists only for an id that was handed out.
\<close>

datatype client_op =
    CbMessage uint64 string bool
  | CbClosed uint64
  | CbConnect uint64 int
  | MainApi client_api
  | MainSwap
  | MainDeliver

record 'w client_world =
  cw_main :: "'w \<times> wcsys"
  cw_batch :: "client_event list"
  cw_delivered :: "(client_event \<times> bool) list"

abbreviation cw_sys :: "'w client_world \<Rightarrow> wcsys" where
  "cw_sys x \<equiv> snd (cw_main x)"

definition cw_upd :: "(wcsys \<Rightarrow> wcsys) \<Rightarrow> 'w client_world \<Rightarrow> 'w client_world" where
  "cw_upd f x = x\<lparr>cw_main := (fst (cw_main x), f (cw_sys x))\<rparr>"

fun client_exec ::
  "(string \<Rightarrow> bool) \<Rightarrow> uint64 \<Rightarrow> 'w client_oracle \<Rightarrow> client_op \<Rightarrow> 'w client_world \<Rightarrow> 'w client_world" where
  "client_exec creates ub E (CbMessage i m b) x = (if i < g_nextClientId (cw_sys x) then cw_upd (onClientMessage i m b) x else x)"
| "client_exec creates ub E (CbClosed i) x = (if i < g_nextClientId (cw_sys x) then cw_upd (onClientClosed i) x else x)"
| "client_exec creates ub E (CbConnect i r) x = (if i < g_nextClientId (cw_sys x) then cw_upd (onConnectResult i r) x else x)"
| "client_exec creates ub E (MainApi a) x = cw_upd (client_api_call creates ub a) x"
| "client_exec creates ub E MainSwap x =
     (if cw_batch x \<noteq> [] then x
      else (cw_upd (\<lambda>s. snd (swapClientEvents s)) x)\<lparr>cw_batch := fst (swapClientEvents (cw_sys x))\<rparr>)"
| "client_exec creates ub E MainDeliver x =
     (case cw_batch x of
        [] \<Rightarrow> x
      | ev # rest \<Rightarrow>
          (case deliverClientEvent creates ub E ev (cw_main x) of
             (called, y) \<Rightarrow> x\<lparr>cw_main := y, cw_delivered := cw_delivered x @ [(ev, called)], cw_batch := rest\<rparr>))"

fun ev_client :: "client_event \<Rightarrow> uint64" where
  "ev_client (ClOpen i) = i" | "ev_client (ClMessage i _ _) = i" | "ev_client (ClClose i _ _) = i"

fun is_close :: "client_event \<Rightarrow> bool" where
  "is_close (ClClose _ _ _) = True" | "is_close _ = False"

definition dead_clients :: "(client_event \<times> bool) list \<Rightarrow> uint64 set" where
  "dead_clients del = {ev_client ev |ev b. (ev, b) \<in> set del \<and> is_close ev}"

text \<open>No hook ran for a client after its close event had been delivered.\<close>

fun quiet_after_close :: "(client_event \<times> bool) list \<Rightarrow> bool" where
  "quiet_after_close [] \<longleftrightarrow> True"
| "quiet_after_close ((ev, b) # del) \<longleftrightarrow>
     (is_close ev \<longrightarrow> (\<forall>(ev', b') \<in> set del. ev_client ev' = ev_client ev \<longrightarrow> \<not> b')) \<and> quiet_after_close del"

definition client_inv :: "preserved \<Rightarrow> 'w client_world \<Rightarrow> bool" where
  "client_inv p0 x \<longleftrightarrow> cx_wrapped (cw_sys x) \<or>
     (clients_ok p0 (dead_clients (cw_delivered x)) (cw_sys x) \<and> quiet_after_close (cw_delivered x)
      \<and> (\<forall>ev \<in> set (cw_batch x @ g_wsClientEvents (cw_sys x)). ev_client ev < g_nextClientId (cw_sys x)))"

lemma quiet_snoc:
  "quiet_after_close (del @ [(ev, b)]) \<longleftrightarrow> quiet_after_close del \<and> (b \<longrightarrow> ev_client ev \<notin> dead_clients del)"
proof (induction del)
  case (Cons d del)
  have "dead_clients (d # del) = (if is_close (fst d) then {ev_client (fst d)} else {}) \<union> dead_clients del"
    by (cases d) (auto simp: dead_clients_def)
  with Cons show ?case by (cases d) auto
qed (simp add: dead_clients_def)

lemma dead_snoc:
  "dead_clients (del @ [(ev, b)]) = (if is_close ev then insert (ev_client ev) (dead_clients del) else dead_clients del)"
  by (auto simp: dead_clients_def)

text \<open>Ids only grow, and a wrapped counter stays wrapped.\<close>

definition later_ids :: "wcsys \<Rightarrow> wcsys \<Rightarrow> bool" where
  "later_ids s t \<longleftrightarrow> cx_wrapped t \<or> \<not> cx_wrapped s \<and> g_nextClientId s \<le> g_nextClientId t"

lemma later_ids_trans: "later_ids s t \<Longrightarrow> later_ids t u \<Longrightarrow> later_ids s u"
  by (auto simp: later_ids_def)

lemma later_ids_api: "later_ids s (client_api_call creates ub a s)"
proof -
  have "(x :: uint64) \<noteq> - 1 \<Longrightarrow> x \<le> x + 1" for x by (simp add: word_less_inc less_imp_le)
  then show ?thesis
    by (cases a) (auto simp: later_ids_def drogonR_ws_connect_def Let_def ensureClientLoop_def emplaceClient_def
        drogonR_ws_client_send_def drogonR_ws_client_close_def shutdownWsClients_def split: option.splits)
qed

lemma later_ids_fold: "later_ids s (fold (client_api_call creates ub) calls s)"
proof (induction calls arbitrary: s)
  case Nil
  show ?case by (auto simp: later_ids_def)
next
  case (Cons a calls)
  from later_ids_trans [OF later_ids_api Cons] show ?case by simp
qed

lemma api_events:
  "set (g_wsClientEvents (client_api_call creates ub a s)) \<subseteq> set (g_wsClientEvents s)"
  by (cases a) (auto simp: drogonR_ws_connect_def Let_def ensureClientLoop_def emplaceClient_def
      drogonR_ws_client_send_def drogonR_ws_client_close_def shutdownWsClients_def split: option.splits)

lemma fold_events: "set (g_wsClientEvents (fold (client_api_call creates ub) calls s)) \<subseteq> set (g_wsClientEvents s)"
  by (induction calls arbitrary: s) (use api_events in \<open>fastforce\<close>)+

text \<open>Running a hook: its calls back into the package keep the invariant.\<close>

lemma callClientHook_effect:
  assumes "callClientHook creates ub E hook args (w, s) = (called, w1, t)"
  shows "clients_ok p0 dead s \<Longrightarrow> clients_ok p0 dead t" "later_ids s t"
    "set (g_wsClientEvents t) \<subseteq> set (g_wsClientEvents s)"
    "called \<Longrightarrow> \<exists>h. hook = Some h \<and> is_closure h"
proof -
  obtain calls where t: "t = fold (client_api_call creates ub) calls s"
    using assms by (cases hook) (auto simp: callClientHook_def Let_def split: if_splits prod.splits intro: that [of "[]"])
  show "clients_ok p0 dead s \<Longrightarrow> clients_ok p0 dead t" "later_ids s t"
    "set (g_wsClientEvents t) \<subseteq> set (g_wsClientEvents s)"
    using t by (auto simp: clients_ok_fold later_ids_fold dest: subsetD [OF fold_events])
  show "called \<Longrightarrow> \<exists>h. hook = Some h \<and> is_closure h"
    using assms by (cases hook) (auto simp: callClientHook_def split: if_splits)
qed

lemma clientHook_live: "clientHook sel s i = Some h \<Longrightarrow> is_closure h \<Longrightarrow> i \<in> fst ` set (g_wsClients s)"
  by (cases "findClient s i") (force simp: clientHook_def findClient_eq dest: map_of_SomeD)+

lemma erase_frame [simp]:
  "g_nextClientId (eraseDeadClient i s) = g_nextClientId s" "cx_wrapped (eraseDeadClient i s) = cx_wrapped s"
  "g_wsClientEvents (eraseDeadClient i s) = g_wsClientEvents s"
  by (simp_all add: eraseDeadClient_def eraseClient_def split: option.splits)

lemma deliverClientEvent_effect:
  assumes d: "deliverClientEvent creates ub E ev (w, s) = (called, w1, t)" and ok: "clients_ok p0 dead s"
    and known: "ev_client ev < g_nextClientId s"
  shows "clients_ok p0 (if is_close ev then insert (ev_client ev) dead else dead) t" "later_ids s t"
    "set (g_wsClientEvents t) \<subseteq> set (g_wsClientEvents s)"
    "called \<Longrightarrow> cx_wrapped s \<or> ev_client ev \<notin> dead"
proof -
  let ?i = "ev_client ev"
  obtain sel args u where c: "callClientHook creates ub E (clientHook sel s ?i) args (w, s) = (called, w1, u)"
    and t: "t = (if is_close ev then eraseDeadClient ?i u else u)"
    using d by (cases ev) (auto split: prod.splits)
  note e = callClientHook_effect [OF c]
  have u: "clients_ok p0 dead u" using e(1) ok .
  show "clients_ok p0 (if is_close ev then insert ?i dead else dead) t"
  proof (cases "cx_wrapped u")
    case True
    then show ?thesis using t by (simp add: clients_ok_def)
  next
    case False
    then have "?i < g_nextClientId u" using e(2) known by (auto simp: later_ids_def)
    then show ?thesis using u clients_ok_dead [OF u, of ?i] t by simp
  qed
  show "later_ids s t" "set (g_wsClientEvents t) \<subseteq> set (g_wsClientEvents s)"
    using e(2,3) t by (auto simp: later_ids_def)
  show "called \<Longrightarrow> cx_wrapped s \<or> ?i \<notin> dead"
    using e(4) clientHook_live [of sel s ?i] ok by (auto simp: clients_ok_def)
qed

lemma client_deliver_ids: "deliverClientEvent creates ub E ev (w, s) = (called, w1, t) \<Longrightarrow> later_ids s t"
  by (cases ev) (auto dest!: callClientHook_effect(2) simp: later_ids_def split: prod.splits)

lemma client_inv_upd:
  assumes "client_inv p0 x" and "clients_ok p0 (dead_clients (cw_delivered x)) (cw_sys x) \<Longrightarrow> clients_ok p0 (dead_clients (cw_delivered x)) (f (cw_sys x))"
    and "later_ids (cw_sys x) (f (cw_sys x))"
    and "\<forall>ev \<in> set (g_wsClientEvents (f (cw_sys x))). ev \<in> set (g_wsClientEvents (cw_sys x)) \<or> ev_client ev < g_nextClientId (f (cw_sys x))"
  shows "client_inv p0 (cw_upd f x)"
proof (cases "cx_wrapped (f (cw_sys x))")
  case True
  then show ?thesis by (simp add: client_inv_def cw_upd_def)
next
  case False
  with assms(3) have "\<not> cx_wrapped (cw_sys x)" and le: "g_nextClientId (cw_sys x) \<le> g_nextClientId (f (cw_sys x))"
    by (auto simp: later_ids_def)
  with assms(1) have inv: "clients_ok p0 (dead_clients (cw_delivered x)) (cw_sys x)" "quiet_after_close (cw_delivered x)"
    "\<forall>ev \<in> set (cw_batch x @ g_wsClientEvents (cw_sys x)). ev_client ev < g_nextClientId (cw_sys x)"
    by (auto simp: client_inv_def)
  then have "\<forall>ev \<in> set (cw_batch x @ g_wsClientEvents (f (cw_sys x))). ev_client ev < g_nextClientId (f (cw_sys x))"
    using assms(4) le by (auto intro: less_le_trans)
  with inv(1,2) assms(2) show ?thesis by (simp add: client_inv_def cw_upd_def)
qed

lemma client_inv_exec:
  assumes inv: "client_inv p0 x"
  shows "client_inv p0 (client_exec creates ub E op x)"
proof (cases op)
  case (CbMessage i m b)
  then show ?thesis
    using inv by (auto simp: onClientMessage_def enqueueClientEvent_def client_inv_def cw_upd_def clients_ok_def held_clients_def)
next
  case (CbClosed i)
  then show ?thesis
    using inv by (auto simp: onClientClosed_def enqueueClientEvent_def client_inv_def cw_upd_def clients_ok_def held_clients_def)
next
  case (CbConnect i r)
  then show ?thesis
    using inv by (auto simp: onConnectResult_def enqueueClientEvent_def client_inv_def cw_upd_def clients_ok_def held_clients_def)
next
  case (MainApi a)
  then show ?thesis
    using api_events [of creates ub a "cw_sys x"] clients_ok_api later_ids_api
    by (auto intro!: client_inv_upd [OF inv])
next
  case MainSwap
  then show ?thesis
    using inv by (auto simp: swapClientEvents_def client_inv_def cw_upd_def clients_ok_def held_clients_def)
next
  case MainDeliver
  show ?thesis
  proof (cases "cw_batch x")
    case Nil
    with MainDeliver inv show ?thesis by simp
  next
    case (Cons ev rest)
    obtain w s where m: "cw_main x = (w, s)" by fastforce
    obtain called w1 t where d: "deliverClientEvent creates ub E ev (w, s) = (called, w1, t)" by (metis surj_pair)
    show ?thesis
    proof (cases "cx_wrapped t")
      case True
      then show ?thesis using MainDeliver Cons m d by (simp add: client_inv_def)
    next
      case False
      have run: "client_exec creates ub E op x = x\<lparr>cw_main := (w1, t), cw_delivered := cw_delivered x @ [(ev, called)], cw_batch := rest\<rparr>"
        using MainDeliver Cons m d by simp
      have "later_ids s t" using client_deliver_ids [OF d] .
      with False have nw: "\<not> cx_wrapped s" "g_nextClientId s \<le> g_nextClientId t" by (auto simp: later_ids_def)
      with inv have ok: "clients_ok p0 (dead_clients (cw_delivered x)) s" "quiet_after_close (cw_delivered x)"
        and ids: "ev_client ev < g_nextClientId s" "\<forall>e \<in> set (rest @ g_wsClientEvents s). ev_client e < g_nextClientId s"
        by (auto simp: client_inv_def m Cons)
      note e = deliverClientEvent_effect [OF d ok(1) ids(1)]
      have "\<forall>e \<in> set (rest @ g_wsClientEvents t). ev_client e < g_nextClientId t"
        using ids(2) e(3) nw(2) by (auto intro: less_le_trans)
      then show ?thesis
        unfolding run using e(1,4) ok(2) nw(1) by (auto simp: client_inv_def quiet_snoc dead_snoc split: if_splits)
    qed
  qed
qed

definition cw_start :: "'w \<Rightarrow> wcsys \<Rightarrow> 'w client_world" where
  "cw_start w s = \<lparr>cw_main = (w, s), cw_batch = [], cw_delivered = []\<rparr>"

definition wcsys_init :: "preserved \<Rightarrow> wcsys" where
  "wcsys_init p0 = \<lparr>g_wsClients = [], g_wsClientEvents = [], g_nextClientId = 1, g_wsClientLoop = False, cx_queue = [],
     cx_stops = [], cx_dispatcher = False, cx_preserved = p0, cx_wrapped = False\<rparr>"

lemma client_inv_run:
  "client_inv p0 (fold (client_exec creates ub E) ops (cw_start w (wcsys_init p0)))"
proof (induction ops rule: rev_induct)
  case Nil
  show ?case by (simp add: cw_start_def wcsys_init_def client_inv_def clients_ok_def held_clients_def dead_clients_def)
next
  case (snoc op ops)
  then show ?case by (simp add: client_inv_exec)
qed

text \<open>
  (C26) WebSocket clients own their hooks exactly as long as they live. In every interleaving of client
  callbacks, calls from R and deliveries, with hooks that may themselves connect, send, close or shut
  everything down, the R objects preserved are those of the clients in the table, each once; no hook
  runs for a client after its close event was delivered; and shutting down releases everything.
\<close>

theorem ws_clients_own_hooks:
  assumes "x = fold (client_exec creates ub E) ops (cw_start w (wcsys_init p0))" and "\<not> cx_wrapped (cw_sys x)"
  shows "cx_preserved (cw_sys x) = p0 + held_clients (cw_sys x) \<and> quiet_after_close (cw_delivered x)
    \<and> cx_preserved (shutdownWsClients (cw_sys x)) = p0 \<and> wsClientCount (shutdownWsClients (cw_sys x)) = 0
    \<and> g_wsClientEvents (shutdownWsClients (cw_sys x)) = []"
proof -
  have "client_inv p0 x" unfolding assms(1) by (rule client_inv_run)
  then have "clients_ok p0 (dead_clients (cw_delivered x)) (cw_sys x)" "quiet_after_close (cw_delivered x)"
    using assms(2) by (auto simp: client_inv_def)
  then show ?thesis
    using assms(2) by (auto simp: clients_ok_def shutdownWsClients_def fold_release wsClientCount_def held_clients_def)
qed

lemma ws_clients_own_hooks_witness:
  "let ops = [MainApi (ApiConnect (STRSXP no_attr [Chr ''ws://h'']) (STRSXP no_attr [Chr ''/'']) (CLOSXP 1) NilSXP (CLOSXP 2)),
              CbConnect 1 0, CbMessage 1 ''hi'' False, CbClosed 1, MainSwap, MainDeliver, MainDeliver, MainDeliver];
       x = fold (client_exec (\<lambda>_. True) 0 (\<lambda>w h a. ([], w))) ops (cw_start () (wcsys_init {#CLOSXP 9#}))
   in cw_delivered x = [(ClOpen 1, False), (ClMessage 1 ''hi'' False, True), (ClClose 1 ''closed'' 0, True)]
      \<and> cx_preserved (cw_sys x) = {#CLOSXP 9#}"
proof -
  let ?ops = "[MainApi (ApiConnect (STRSXP no_attr [Chr ''ws://h'']) (STRSXP no_attr [Chr ''/'']) (CLOSXP 1) NilSXP (CLOSXP 2)),
     CbConnect 1 0, CbMessage 1 ''hi'' False, CbClosed 1, MainSwap, MainDeliver, MainDeliver, MainDeliver]"
  let ?x = "fold (client_exec (\<lambda>_. True) 0 (\<lambda>w h a. ([], w))) ?ops (cw_start () (wcsys_init {#CLOSXP 9#}))"
  note ev = cw_start_def wcsys_init_def cw_upd_def drogonR_ws_connect_def ensureClientLoop_def newClient_def closure_or_nil_def
    preserveClientHooks_def emplaceClient_def onConnectResult_def onClientMessage_def onClientClosed_def enqueueClientEvent_def
    swapClientEvents_def callClientHook_def clientHook_def findClient_def eraseDeadClient_def eraseClient_def
    releaseClientHooks_def Let_def
  have "\<not> cx_wrapped (cw_sys ?x)" "g_wsClients (cw_sys ?x) = []"
    "cw_delivered ?x = [(ClOpen 1, False), (ClMessage 1 ''hi'' False, True), (ClClose 1 ''closed'' 0, True)]"
    by (simp_all add: ev)
  with ws_clients_own_hooks [OF refl, of "\<lambda>_. True" 0 "\<lambda>w h a. ([], w)" ?ops "()" "{#CLOSXP 9#}"]
  show ?thesis unfolding Let_def by (simp only: held_clients_def list.map sum_list.Nil add_0_right simp_thms)
qed

end
