(* ===== verification/Router.thy ===== *)
theory Router
  imports HttpRequest
begin

text \<open>
  \<^verbatim>\<open>HttpControllersRouter\<close> and the part of \<^verbatim>\<open>HttpServer\<close> that takes a parsed request to its handler.  The
  regular-expression engine is a parameter \<open>rx\<close>: \<open>rx pattern path\<close> is \<open>None\<close> when \<^verbatim>\<open>std::regex_match\<close> fails and the
  list of captures otherwise, an unmatched group being \<open>None\<close>.  No advice and no middleware is registered
  by the package, so these stages pass a request on unchanged.
\<close>

section \<open>Tables\<close>

record 'h ctrl_binder =
  bd_handler :: 'h
  bd_isCORS :: bool
  bd_corsMethods :: string
  bd_parameterPlaces :: "nat list"
  bd_queryParametersPlaces :: "(string \<times> nat) list"

type_synonym 'h binders = "HttpMethod \<Rightarrow> 'h ctrl_binder option"

record 'h router_item =
  ri_pathParameterPattern :: string
  ri_pathPattern :: string
  ri_binders :: "'h binders"

record 'h router =
  simpleCtrlMap :: "(string \<times> 'h binders) list"
  ctrlMap :: "(string \<times> 'h router_item) list"
  ctrlVector :: "'h router_item list"
  wsCtrlMap :: "(string \<times> 'h binders) list"
  wsCtrlVector :: "'h router_item list"

datatype 'h RouteResult = Success "'h ctrl_binder" | MethodNotAllowed | NotFound

type_synonym regex = "string \<Rightarrow> string \<Rightarrow> string option list option"

definition empty_router :: "'h router" where
  "empty_router = \<lparr>simpleCtrlMap = [], ctrlMap = [], ctrlVector = [], wsCtrlMap = [], wsCtrlVector = []\<rparr>"

definition newBinder :: "'h \<Rightarrow> 'h ctrl_binder" where
  "newBinder h = \<lparr>bd_handler = h, bd_isCORS = False, bd_corsMethods = [], bd_parameterPlaces = [], bd_queryParametersPlaces = []\<rparr>"

definition all_methods :: "HttpMethod list" where
  "all_methods = [Get, Post, Head, Put, Delete, Options, Patch]"

section \<open>Registration\<close>

text \<open>The object behind \<^verbatim>\<open>binderPtr\<close> is shared by its methods, so they all see the final value of \<^verbatim>\<open>isCORS_\<close>.\<close>

definition addCtrlBinderToRouterItem :: "'h ctrl_binder \<Rightarrow> HttpMethod list \<Rightarrow> 'h binders \<Rightarrow> 'h binders" where
  "addCtrlBinderToRouterItem b methods bs =
     (if methods \<noteq> []
      then let b1 = b\<lparr>bd_isCORS := bd_isCORS b \<or> Options \<in> set methods\<rparr>
           in fold (\<lambda>m bs. bs(m \<mapsto> b1)) methods bs
      else fold (\<lambda>m bs. bs(m \<mapsto> b\<lparr>bd_isCORS := True\<rparr>)) all_methods bs)"

fun addToItem :: "string \<Rightarrow> string \<Rightarrow> ('h binders \<Rightarrow> 'h binders) \<Rightarrow> 'h router_item list \<Rightarrow> 'h router_item list" where
  "addToItem pathPattern pattern f [] =
     [\<lparr>ri_pathParameterPattern = pattern, ri_pathPattern = pathPattern, ri_binders = f (\<lambda>_. None)\<rparr>]"
| "addToItem pathPattern pattern f (item # items) =
     (if ri_pathParameterPattern item = pattern then item\<lparr>ri_binders := f (ri_binders item)\<rparr> # items
      else item # addToItem pathPattern pattern f items)"

definition addRegexCtrlBinder :: "'h ctrl_binder \<Rightarrow> string \<Rightarrow> string \<Rightarrow> HttpMethod list \<Rightarrow> 'h router \<Rightarrow> 'h router" where
  "addRegexCtrlBinder b pathPattern pattern methods r =
     r\<lparr>ctrlVector := addToItem pathPattern pattern (addCtrlBinderToRouterItem b methods) (ctrlVector r)\<rparr>"

definition addHttpRegex :: "string \<Rightarrow> 'h \<Rightarrow> HttpMethod list \<Rightarrow> 'h router \<Rightarrow> 'h router" where
  "addHttpRegex regExp h methods r = addRegexCtrlBinder (newBinder h) regExp regExp methods r"

text \<open>A controller that serves every method; the loop later resolves its class, or drops the entry.\<close>

definition update_key :: "'k \<Rightarrow> ('v option \<Rightarrow> 'v) \<Rightarrow> ('k \<times> 'v) list \<Rightarrow> ('k \<times> 'v) list" where
  "update_key k f xs = (k, f (map_of xs k)) # filter (\<lambda>(j, _). j \<noteq> k) xs"

definition registerWebSocketController :: "string \<Rightarrow> 'h \<Rightarrow> HttpMethod list \<Rightarrow> 'h router \<Rightarrow> 'h router" where
  "registerWebSocketController pathName h methods r =
     r\<lparr>wsCtrlMap := update_key (map tolower pathName)
         (\<lambda>bs. addCtrlBinderToRouterItem (newBinder h) methods (case bs of None \<Rightarrow> (\<lambda>_. None) | Some b \<Rightarrow> b)) (wsCtrlMap r)\<rparr>"

definition resolveController :: "bool \<Rightarrow> string \<Rightarrow> 'h router \<Rightarrow> 'h router" where
  "resolveController found pathName r =
     (if found then r else r\<lparr>wsCtrlMap := filter (\<lambda>(j, _). j \<noteq> map tolower pathName) (wsCtrlMap r)\<rparr>)"

text \<open>\<^verbatim>\<open>init\<close>: the list of methods that a preflight answer names is shared by all entries of an item.\<close>

definition cors_entry :: "'h binders \<Rightarrow> HttpMethod \<Rightarrow> string" where
  "cors_entry bs m =
     (case bs m of
        None \<Rightarrow> []
      | Some b \<Rightarrow>
          if bd_isCORS b then (if m = Get then ''GET,HEAD,'' else if m \<noteq> Options then methodString m @ '','' else []) else [])"

definition corsMethods :: "'h binders \<Rightarrow> string" where
  "corsMethods bs = butlast (''OPTIONS,'' @ concat (map (cors_entry bs) all_methods))"

definition init_binders :: "'h binders \<Rightarrow> 'h binders" where
  "init_binders bs = (\<lambda>m. map_option (\<lambda>b. b\<lparr>bd_corsMethods := corsMethods bs\<rparr>) (bs m))"

definition router_init :: "'h router \<Rightarrow> 'h router" where
  "router_init r =
     (let item = (\<lambda>i. i\<lparr>ri_binders := init_binders (ri_binders i)\<rparr>)
      in r\<lparr>simpleCtrlMap := map (apsnd init_binders) (simpleCtrlMap r), ctrlMap := map (apsnd item) (ctrlMap r),
           ctrlVector := map item (ctrlVector r), wsCtrlMap := map (apsnd init_binders) (wsCtrlMap r),
           wsCtrlVector := map item (wsCtrlVector r)\<rparr>)"

definition router_reset :: "'h router \<Rightarrow> 'h router" where
  "router_reset r = empty_router"

section \<open>Lookup\<close>

text \<open>\<^verbatim>\<open>params\<close> grows to the place written; places start at 1.\<close>

definition set_place :: "nat \<Rightarrow> string \<Rightarrow> string list \<Rightarrow> string list" where
  "set_place place v params =
     (params @ replicate (place - length params) [])[place - 1 := v]"

fun place_captures :: "nat list \<Rightarrow> nat \<Rightarrow> string option list \<Rightarrow> string list \<Rightarrow> string list" where
  "place_captures places j [] params = params"
| "place_captures places j (None # cs) params = place_captures places (Suc j) cs params"
| "place_captures places j (Some v # cs) params =
     place_captures places (Suc j) cs
       (set_place (if j \<le> length places then places ! (j - 1) else j) v params)"

definition place_queries :: "(string \<times> nat) list \<Rightarrow> request \<Rightarrow> string list \<Rightarrow> string list" where
  "place_queries qs req params =
     fold (\<lambda>(name, place). set_place place
             (case map_of (rq_parameters (rq_parametersOnce req)) name of None \<Rightarrow> [] | Some v \<Rightarrow> v)) qs params"

text \<open>The linear search skips items without an entry for the method.\<close>

fun searchRegex :: "regex \<Rightarrow> HttpMethod \<Rightarrow> string \<Rightarrow> 'h router_item list \<Rightarrow> ('h router_item \<times> string option list) option" where
  "searchRegex rx m path [] = None"
| "searchRegex rx m path (item # items) =
     (if ri_binders item m \<noteq> None
      then (case rx (ri_pathParameterPattern item) path of
              Some caps \<Rightarrow> Some (item, caps)
            | None \<Rightarrow> searchRegex rx m path items)
      else searchRegex rx m path items)"

definition route_item :: "'h router_item \<Rightarrow> string option list \<Rightarrow> request \<Rightarrow> 'h RouteResult \<times> request" where
  "route_item item caps req =
     (case ri_binders item (rq_method req) of
        None \<Rightarrow> (MethodNotAllowed, req)
      | Some b \<Rightarrow>
          let params = place_captures (bd_parameterPlaces b) 1 caps [];
              req1 = (if bd_queryParametersPlaces b = [] then req else rq_parametersOnce req)
          in (Success b, req1\<lparr>rq_routingParams := place_queries (bd_queryParametersPlaces b) req params\<rparr>))"

definition router_route :: "regex \<Rightarrow> 'h router \<Rightarrow> request \<Rightarrow> 'h RouteResult \<times> request" where
  "router_route rx r req =
     (let loweredPath = map tolower (rq_path req)
      in case map_of (simpleCtrlMap r) loweredPath of
           Some bs \<Rightarrow> (case bs (rq_method req) of None \<Rightarrow> (MethodNotAllowed, req) | Some b \<Rightarrow> (Success b, req))
         | None \<Rightarrow>
             (case map_of (ctrlMap r) loweredPath of
                Some item \<Rightarrow> route_item item [] req
              | None \<Rightarrow>
                  (case searchRegex rx (rq_method req) (rq_path req) (ctrlVector r) of
                     None \<Rightarrow> (NotFound, req)
                   | Some (item, caps) \<Rightarrow> route_item item caps req)))"

fun searchWs :: "regex \<Rightarrow> string \<Rightarrow> 'h router_item list \<Rightarrow> 'h router_item option" where
  "searchWs rx path [] = None"
| "searchWs rx path (item # items) =
     (if rx (ri_pathPattern item) path \<noteq> None then Some item else searchWs rx path items)"

definition binder_result :: "'h binders \<Rightarrow> HttpMethod \<Rightarrow> 'h RouteResult" where
  "binder_result bs m = (case bs m of None \<Rightarrow> MethodNotAllowed | Some b \<Rightarrow> Success b)"

definition routeWs :: "regex \<Rightarrow> 'h router \<Rightarrow> request \<Rightarrow> 'h RouteResult" where
  "routeWs rx r req =
     (if rq_getHeaderBy ''sec-websocket-key'' req = [] then NotFound
      else case map_of (wsCtrlMap r) (map tolower (rq_path req)) of
             Some bs \<Rightarrow> binder_result bs (rq_method req)
           | None \<Rightarrow>
               (case searchWs rx (rq_path req) (wsCtrlVector r) of
                  None \<Rightarrow> NotFound
                | Some item \<Rightarrow> binder_result (ri_binders item) (rq_method req)))"

section \<open>From the parser to the handler\<close>

text \<open>
  What happens to a request: it is answered at once, handed to a handler, or left to the static file
  router.  \<^verbatim>\<open>onRequests\<close> turns \<^verbatim>\<open>HEAD\<close> into \<^verbatim>\<open>GET\<close> before anything else.
\<close>

datatype 'h routed = Answered response | Handled 'h request | StaticFallback request

definition headToGet :: "request \<Rightarrow> request" where
  "headToGet req = (if rq_method req = Head then rq_setMethod Get req else req)"

definition defaultErrorHandler :: "int \<Rightarrow> response" where
  "defaultErrorHandler status = HttpResponseImpl_with status CT_TEXT_HTML"

definition handleInvalidHttpMethod :: "request \<Rightarrow> response" where
  "handleInvalidHttpMethod req = defaultErrorHandler (if rq_method req \<noteq> Options then 405 else 403)"

definition handleHttpOptions :: "request \<Rightarrow> string \<Rightarrow> response" where
  "handleHttpOptions req allowMethods =
     (let orig = rq_getHeaderBy ''origin'' req;
          hs = rq_getHeaderBy ''access-control-request-headers'' req;
          r1 = addHeader ''Allow'' allowMethods (setContentTypeCode CT_TEXT_PLAIN newHttpResponse);
          r2 = addHeader ''Access-Control-Allow-Origin'' (if orig = [] then ''*'' else orig) r1;
          r3 = addHeader ''Access-Control-Allow-Methods'' allowMethods r2
      in if hs = [] then r3 else addHeader ''Access-Control-Allow-Headers'' hs r3)"

definition requestPreHandling :: "'h ctrl_binder \<Rightarrow> request \<Rightarrow> 'h routed" where
  "requestPreHandling b req =
     (if rq_method req = Options then Answered (handleHttpOptions req (bd_corsMethods b))
      else Handled (bd_handler b) req)"

definition httpRequestRouting :: "regex \<Rightarrow> string \<Rightarrow> 'h router \<Rightarrow> request \<Rightarrow> 'h routed" where
  "httpRequestRouting rx homePage r req =
     (case router_route rx r req of
        (Success b, req1) \<Rightarrow> requestPreHandling b req1
      | (MethodNotAllowed, req1) \<Rightarrow> Answered (handleInvalidHttpMethod req1)
      | (NotFound, req1) \<Rightarrow>
          StaticFallback (if rq_path req1 = ''/'' \<and> homePage \<noteq> [] then req1\<lparr>rq_path := ''/'' @ homePage\<rparr> else req1))"

definition onHttpRequest :: "regex \<Rightarrow> string \<Rightarrow> 'h router \<Rightarrow> request \<Rightarrow> 'h routed" where
  "onHttpRequest rx homePage r req =
     (if rq_method req = Options \<and> (rq_path req = ''*'' \<or> rq_path req = ''/*'')
      then Answered (addHeader ''Allow'' ''GET,HEAD,POST,PUT,DELETE,OPTIONS,PATCH'' (setContentTypeCode CT_TEXT_PLAIN newHttpResponse))
      else httpRequestRouting rx homePage r req)"

section \<open>Which handler serves a request\<close>

text \<open>A table of registrations, and what it means: patterns in order of first use, the last handler of each.\<close>

type_synonym 'h registration = "string \<times> HttpMethod list \<times> 'h"

definition registerAll :: "'h registration list \<Rightarrow> 'h router" where
  "registerAll regs = router_init (fold (\<lambda>(p, ms, h). addHttpRegex p h ms) regs empty_router)"

definition serves :: "HttpMethod list \<Rightarrow> HttpMethod \<Rightarrow> bool" where
  "serves ms m \<longleftrightarrow> m \<in> set (if ms = [] then all_methods else ms)"

definition handler_for :: "'h registration list \<Rightarrow> string \<Rightarrow> HttpMethod \<Rightarrow> 'h option" where
  "handler_for regs p m = map_option (\<lambda>(_, _, h). h) (find (\<lambda>(q, ms, _). q = p \<and> serves ms m) (rev regs))"

definition firsts :: "'a list \<Rightarrow> 'a list" where
  "firsts xs = rev (remdups (rev xs))"

fun find_route :: "regex \<Rightarrow> ('p \<Rightarrow> string) \<Rightarrow> ('p \<Rightarrow> 'h option) \<Rightarrow> string \<Rightarrow> 'p list \<Rightarrow> ('h \<times> string option list) option" where
  "find_route rx pat hf path [] = None"
| "find_route rx pat hf path (p # ps) =
     (case (hf p, rx (pat p) path) of
        (Some h, Some caps) \<Rightarrow> Some (h, caps)
      | _ \<Rightarrow> find_route rx pat hf path ps)"

lemma firsts_snoc: "firsts (xs @ [x]) = (if x \<in> set xs then firsts xs else firsts xs @ [x])"
  by (auto simp: firsts_def)

lemma handler_for_snoc:
  "handler_for (regs @ [(p, ms, h)]) q m = (if q = p \<and> serves ms m then Some h else handler_for regs q m)"
  by (auto simp: handler_for_def)

lemma fold_assign: "fold (\<lambda>m bs. bs(m \<mapsto> b)) ms bs m' = (if m' \<in> set ms then Some b else bs m')"
  by (induction ms arbitrary: bs) auto

lemma addCtrl_handler:
  "map_option bd_handler (addCtrlBinderToRouterItem (newBinder h) ms bs m) =
     (if serves ms m then Some h else map_option bd_handler (bs m))"
  by (auto simp: addCtrlBinderToRouterItem_def Let_def fold_assign serves_def newBinder_def)

lemma addCtrl_places:
  assumes "\<And>b. bs m = Some b \<Longrightarrow> bd_parameterPlaces b = [] \<and> bd_queryParametersPlaces b = []"
    and "addCtrlBinderToRouterItem (newBinder h) ms bs m = Some b"
  shows "bd_parameterPlaces b = [] \<and> bd_queryParametersPlaces b = []"
  using assms by (auto simp: addCtrlBinderToRouterItem_def Let_def fold_assign newBinder_def split: if_splits)

text \<open>The table after a sequence of registrations, item by item.\<close>

definition table_ok :: "'h registration list \<Rightarrow> 'h router_item list \<Rightarrow> bool" where
  "table_ok regs items \<longleftrightarrow>
     map ri_pathParameterPattern items = firsts (map fst regs)
     \<and> (\<forall>i\<in>set items. \<forall>m. map_option bd_handler (ri_binders i m) = handler_for regs (ri_pathParameterPattern i) m
          \<and> (\<forall>b. ri_binders i m = Some b \<longrightarrow> bd_parameterPlaces b = [] \<and> bd_queryParametersPlaces b = []))"

lemma addToItem_patterns:
  "map ri_pathParameterPattern (addToItem pp p f items) =
     (if p \<in> ri_pathParameterPattern ` set items then map ri_pathParameterPattern items
      else map ri_pathParameterPattern items @ [p])"
  by (induction items) auto

lemma addToItem_set:
  "i \<in> set (addToItem pp p f items) \<Longrightarrow> distinct (map ri_pathParameterPattern items) \<Longrightarrow>
     (ri_pathParameterPattern i \<noteq> p \<and> i \<in> set items)
     \<or> (ri_pathParameterPattern i = p \<and> (\<exists>j\<in>set items. ri_pathParameterPattern j = p \<and> ri_binders i = f (ri_binders j)))
     \<or> (ri_pathParameterPattern i = p \<and> p \<notin> ri_pathParameterPattern ` set items \<and> ri_binders i = f (\<lambda>_. None))"
  by (induction items) (auto split: if_splits, metis image_eqI)

lemma firsts_set [simp]: "set (firsts xs) = set xs"
  by (simp add: firsts_def)

lemma firsts_distinct [simp]: "distinct (firsts xs)"
  by (simp add: firsts_def)

lemma handler_for_none: "p \<notin> fst ` set regs \<Longrightarrow> handler_for regs p m = None"
  by (auto simp: handler_for_def find_None_iff image_iff)

lemma table_ok_add:
  assumes "table_ok regs items"
  shows "table_ok (regs @ [(p, ms, h)]) (addToItem pp p (addCtrlBinderToRouterItem (newBinder h) ms) items)"
proof -
  have pats: "ri_pathParameterPattern ` set items = fst ` set regs"
    using assms unfolding table_ok_def by (metis firsts_set list.set_map)
  have d: "distinct (map ri_pathParameterPattern items)" using assms by (simp add: table_ok_def)
  have item: "map_option bd_handler (ri_binders i m) = handler_for regs (ri_pathParameterPattern i) m"
    "ri_binders i m = Some b \<Longrightarrow> bd_parameterPlaces b = [] \<and> bd_queryParametersPlaces b = []"
    if "i \<in> set items" for i m b using assms that by (auto simp: table_ok_def)
  have "map_option bd_handler (ri_binders i m) = handler_for (regs @ [(p, ms, h)]) (ri_pathParameterPattern i) m
      \<and> (\<forall>b. ri_binders i m = Some b \<longrightarrow> bd_parameterPlaces b = [] \<and> bd_queryParametersPlaces b = [])"
    if "i \<in> set (addToItem pp p (addCtrlBinderToRouterItem (newBinder h) ms) items)" for i m
    using addToItem_set [OF that d]
  proof (elim disjE conjE bexE)
    assume "ri_pathParameterPattern i \<noteq> p" "i \<in> set items"
    then show ?thesis using item by (auto simp: handler_for_snoc)
  next
    fix j assume a: "ri_pathParameterPattern i = p" "j \<in> set items" "ri_pathParameterPattern j = p"
      "ri_binders i = addCtrlBinderToRouterItem (newBinder h) ms (ri_binders j)"
    show ?thesis
      using a(1) item(1) [OF a(2)] addCtrl_places [of "ri_binders j", OF item(2) [OF a(2)]]
      by (auto simp: handler_for_snoc a(3,4) addCtrl_handler)
  next
    assume a: "ri_pathParameterPattern i = p" "p \<notin> ri_pathParameterPattern ` set items"
      "ri_binders i = addCtrlBinderToRouterItem (newBinder h) ms (\<lambda>_. None)"
    have "bd_parameterPlaces b = [] \<and> bd_queryParametersPlaces b = []" if "ri_binders i m = Some b" for b
      using addCtrl_places [of "\<lambda>_. None" m] that by (simp add: a(3))
    then show ?thesis
      using a(1,2) by (auto simp: handler_for_snoc a(3) addCtrl_handler handler_for_none pats)
  qed
  then show ?thesis
    using assms pats by (auto simp: table_ok_def addToItem_patterns firsts_snoc)
qed

lemma table_ok_fold:
  "table_ok regs (ctrlVector (fold (\<lambda>(p, ms, h). addHttpRegex p h ms) regs empty_router))"
proof (induction regs rule: rev_induct)
  case Nil
  show ?case by (simp add: table_ok_def empty_router_def firsts_def)
next
  case (snoc x regs)
  then show ?case by (cases x) (simp add: addHttpRegex_def addRegexCtrlBinder_def table_ok_add)
qed

lemma fold_other_maps:
  "simpleCtrlMap (fold (\<lambda>(p, ms, h). addHttpRegex p h ms) regs r) = simpleCtrlMap r"
  "ctrlMap (fold (\<lambda>(p, ms, h). addHttpRegex p h ms) regs r) = ctrlMap r"
  by (induction regs arbitrary: r) (auto simp: addHttpRegex_def addRegexCtrlBinder_def)

lemma init_binders_handler [simp]: "map_option bd_handler (init_binders bs m) = map_option bd_handler (bs m)"
  by (cases "bs m") (simp_all add: init_binders_def)

lemma table_ok_init:
  "table_ok regs items \<Longrightarrow> table_ok regs (map (\<lambda>i. i\<lparr>ri_binders := init_binders (ri_binders i)\<rparr>) items)"
  by (auto simp: table_ok_def comp_def) (auto simp: init_binders_def)+

lemma table_ok_registerAll: "table_ok regs (ctrlVector (registerAll regs))"
  using table_ok_init [OF table_ok_fold [of regs]] by (simp add: registerAll_def router_init_def Let_def)

lemma registerAll_maps [simp]: "simpleCtrlMap (registerAll regs) = []" "ctrlMap (registerAll regs) = []"
  by (simp_all add: registerAll_def router_init_def Let_def fold_other_maps empty_router_def)

text \<open>The search over the items is the search over their patterns.\<close>

lemma searchRegex_find:
  assumes "\<And>i. i \<in> set items \<Longrightarrow> map_option bd_handler (ri_binders i m) = hf (ri_pathParameterPattern i)"
  shows "find_route rx (\<lambda>p. p) hf path (map ri_pathParameterPattern items) =
    map_option (\<lambda>(i, caps). (bd_handler (the (ri_binders i m)), caps)) (searchRegex rx m path items)"
  using assms
proof (induction items)
  case (Cons i items)
  then show ?case
    using Cons.prems [of i] by (cases "ri_binders i m") (auto split: option.splits)
qed simp

lemma searchRegex_some:
  "searchRegex rx m path items = Some (i, caps) \<Longrightarrow> i \<in> set items \<and> ri_binders i m \<noteq> None"
  by (induction items) (auto split: if_splits option.splits)

lemma set_place_end: "length params = j - 1 \<Longrightarrow> 0 < j \<Longrightarrow> set_place j v params = params @ [v]"
  by (simp add: set_place_def list_update_append)

lemma place_all: "length params = j - 1 \<Longrightarrow> 0 < j \<Longrightarrow> place_captures [] j (map Some vs) params = params @ vs"
  by (induction vs arbitrary: j params) (simp_all add: set_place_end)

text \<open>(C16) The router finds the documented handler.  After any sequence of registrations, a request is
  served by the first pattern, in the order in which patterns were first registered, that has a handler for its
  method and matches its path; among the handlers registered for that pattern and method the last one
  counts.  The captures become the routing parameters, in order.  If no pattern fits, the request goes on
  to the static files; \<^verbatim>\<open>405\<close> is never answered.\<close>

theorem router_exact:
  "case find_route rx (\<lambda>p. p) (\<lambda>p. handler_for regs p (rq_method req)) (rq_path req) (firsts (map fst regs)) of
     None \<Rightarrow> router_route rx (registerAll regs) req = (NotFound, req)
   | Some (h, caps) \<Rightarrow> \<exists>b. bd_handler b = h
        \<and> router_route rx (registerAll regs) req = (Success b, req\<lparr>rq_routingParams := place_captures [] 1 caps []\<rparr>)
        \<and> (\<forall>vs. caps = map Some vs \<longrightarrow> place_captures [] 1 caps [] = vs)"
proof -
  let ?items = "ctrlVector (registerAll regs)" and ?m = "rq_method req"
  have ok: "table_ok regs ?items" by (rule table_ok_registerAll)
  have f: "find_route rx (\<lambda>p. p) (\<lambda>p. handler_for regs p ?m) (rq_path req) (firsts (map fst regs)) =
      map_option (\<lambda>(i, caps). (bd_handler (the (ri_binders i ?m)), caps)) (searchRegex rx ?m (rq_path req) ?items)"
    using searchRegex_find [of ?items ?m "\<lambda>p. handler_for regs p ?m" rx "rq_path req"] ok by (simp add: table_ok_def)
  show ?thesis
  proof (cases "searchRegex rx ?m (rq_path req) ?items")
    case None
    then show ?thesis by (simp add: f router_route_def)
  next
    case (Some x)
    obtain i caps where x: "x = (i, caps)" by fastforce
    from searchRegex_some [OF Some [unfolded x]] obtain b where i: "i \<in> set ?items" and b: "ri_binders i ?m = Some b" by auto
    have "bd_parameterPlaces b = []" "bd_queryParametersPlaces b = []" using ok i b by (auto simp: table_ok_def)
    then have "router_route rx (registerAll regs) req = (Success b, req\<lparr>rq_routingParams := place_captures [] 1 caps []\<rparr>)"
      using Some b by (simp add: x router_route_def route_item_def place_queries_def)
    moreover have "\<forall>vs. caps = map Some vs \<longrightarrow> place_captures [] 1 caps [] = vs" using place_all [of "[]" 1] by simp
    ultimately show ?thesis using Some b by (simp add: f x)
  qed
qed

lemma router_exact_witness:
  "let rx = (\<lambda>p s. if p = s then Some [] else if p = ''/u/(.*)'' then Some [Some (drop 3 s)] else None);
       regs = [(''/u/(.*)'', [Get], 1 :: nat), (''/u/me'', [Get], 2), (''/u/(.*)'', [Get], 3), (''/u/(.*)'', [Post], 4)];
       req = HttpRequestImpl\<lparr>rq_method := Get, rq_path := ''/u/me''\<rparr>
   in \<exists>b. bd_handler b = 3 \<and> router_route rx (registerAll regs) req = (Success b, req\<lparr>rq_routingParams := [''me'']\<rparr>)"
proof -
  let ?rx = "\<lambda>p s. if p = s then Some [] else if p = ''/u/(.*)'' then Some [Some (drop 3 s)] else None"
  let ?regs = "[(''/u/(.*)'', [Get], 1 :: nat), (''/u/me'', [Get], 2), (''/u/(.*)'', [Get], 3), (''/u/(.*)'', [Post], 4)]"
  let ?req = "HttpRequestImpl\<lparr>rq_method := Get, rq_path := ''/u/me''\<rparr>"
  have "find_route ?rx (\<lambda>p. p) (\<lambda>p. handler_for ?regs p (rq_method ?req)) (rq_path ?req) (firsts (map fst ?regs))
      = Some (3, [Some ''me''])"
    by (simp add: firsts_def handler_for_def serves_def)
  then show ?thesis
    using router_exact [of ?rx ?regs ?req] unfolding Let_def by (auto simp: set_place_def)
qed

lemma handler_for_registered: "handler_for regs p m = Some h \<Longrightarrow> \<exists>p ms. (p, ms, h) \<in> set regs \<and> serves ms m"
proof (induction regs rule: rev_induct)
  case (snoc x regs)
  obtain q ms h' where x: "x = (q, ms, h')" by (cases x)
  show ?case using snoc by (cases "p = q \<and> serves ms m") (auto simp: x handler_for_snoc)
qed (simp add: handler_for_def)

lemma routed_handler:
  assumes "router_route rx (registerAll regs) req = (Success b, req1)"
  shows "\<exists>p ms. (p, ms, bd_handler b) \<in> set regs \<and> serves ms (rq_method req)" and "rq_method req1 = rq_method req"
proof -
  let ?items = "ctrlVector (registerAll regs)"
  obtain i caps where s: "searchRegex rx (rq_method req) (rq_path req) ?items = Some (i, caps)"
    and r: "route_item i caps req = (Success b, req1)"
    using assms by (auto simp: router_route_def split: option.splits)
  have b: "ri_binders i (rq_method req) = Some b" using r by (auto simp: route_item_def Let_def split: option.splits)
  have item: "map_option bd_handler (ri_binders i (rq_method req)) = handler_for regs (ri_pathParameterPattern i) (rq_method req)"
    "\<And>b. ri_binders i (rq_method req) = Some b \<Longrightarrow> bd_queryParametersPlaces b = []"
    using table_ok_registerAll [of regs] searchRegex_some [OF s] unfolding table_ok_def by blast+
  then have "handler_for regs (ri_pathParameterPattern i) (rq_method req) = Some (bd_handler b)" using b by simp
  then show "\<exists>p ms. (p, ms, bd_handler b) \<in> set regs \<and> serves ms (rq_method req)"
    by (rule handler_for_registered)
  have "bd_queryParametersPlaces b = []" by (rule item(2) [OF b])
  then show "rq_method req1 = rq_method req" using r b by (auto simp: route_item_def Let_def)
qed

lemma handled_routed:
  assumes "onHttpRequest rx homePage r req = Handled h req1"
  shows "\<exists>b. router_route rx r req = (Success b, req1) \<and> h = bd_handler b \<and> rq_method req1 \<noteq> Options"
proof -
  obtain res req2 where e: "router_route rx r req = (res, req2)" by fastforce
  show ?thesis using assms
    by (cases res) (simp_all add: e onHttpRequest_def httpRequestRouting_def requestPreHandling_def split: if_split_asm)
qed

text \<open>Handlers for \<^verbatim>\<open>HEAD\<close> and \<^verbatim>\<open>OPTIONS\<close> are never called.  A request that reaches a handler was
  registered for its method, but the method is neither \<^verbatim>\<open>HEAD\<close>, which \<^verbatim>\<open>onRequests\<close> has turned into \<^verbatim>\<open>GET\<close>, nor
  \<^verbatim>\<open>OPTIONS\<close>, which is answered as a preflight request: a handler registered for these two methods only can
  never run.\<close>

lemma head_options_handlers_dead:
  assumes "onHttpRequest rx homePage (registerAll regs) (headToGet req) = Handled h req1"
  shows "(\<exists>p ms. (p, ms, h) \<in> set regs \<and> serves ms (rq_method req1)) \<and> rq_method req1 = rq_method (headToGet req)
    \<and> rq_method req1 \<noteq> Head \<and> rq_method req1 \<noteq> Options
    \<and> \<not> (\<forall>(p, ms, h') \<in> set regs. h' = h \<longrightarrow> ms \<noteq> [] \<and> set ms \<subseteq> {Head, Options})"
proof -
  from handled_routed [OF assms]
  obtain b where r: "router_route rx (registerAll regs) (headToGet req) = (Success b, req1)"
    and h: "h = bd_handler b" and opt: "rq_method req1 \<noteq> Options" by blast
  have m: "rq_method req1 = rq_method (headToGet req)" by (rule routed_handler(2) [OF r])
  have hd: "rq_method req1 \<noteq> Head" unfolding m by (simp add: headToGet_def rq_setMethod_def)
  obtain p ms where reg: "(p, ms, h) \<in> set regs" and sv: "serves ms (rq_method req1)"
    using routed_handler(1) [OF r] unfolding m h by blast
  have "\<not> (ms \<noteq> [] \<and> set ms \<subseteq> {Head, Options})" using sv hd opt by (auto simp: serves_def)
  then have "\<not> (\<forall>(p, ms, h') \<in> set regs. h' = h \<longrightarrow> ms \<noteq> [] \<and> set ms \<subseteq> {Head, Options})" using reg by blast
  then show ?thesis using reg sv m hd opt by blast
qed

end
