(* ===== verification/RangeParser.thy ===== *)
theory RangeParser
  imports Prelude
begin

text \<open>
  \<^verbatim>\<open>src/src/drogon/lib/src/RangeParser.cc\<close>: the parser of the \<^verbatim>\<open>Range\<close> request header.  Sizes are 64 bit words;
  the parser walks over the C string of the header, whose terminating NUL is what \<open>cur\<close> reads at its end.
\<close>

section \<open>The parser\<close>

record FileRange =
  range_start :: size_t
  range_end :: size_t

datatype FileRangeParseResult = InvalidRange | NotSatisfiable | SinglePart | MultiPart

abbreviation MAX_SIZE :: size_t where "MAX_SIZE \<equiv> - 1"

definition MAX_TEN :: size_t where
  "MAX_TEN = 1844674407370955161"

definition MAX_DIGIT :: size_t where
  "MAX_DIGIT = 5"

fun cur :: "string \<Rightarrow> char" where
  "cur [] = NUL"
| "cur (c # _) = c"

fun skip_whitespace :: "string \<Rightarrow> string" where
  "skip_whitespace [] = []"
| "skip_whitespace (c # cs) = (if c = CHR '' '' then skip_whitespace cs else c # cs)"

definition digit_value :: "char \<Rightarrow> size_t" where
  "digit_value c = of_nat (of_char c - 48)"

definition would_overflow :: "size_t \<Rightarrow> char \<Rightarrow> bool" where
  "would_overflow v c \<longleftrightarrow> v > MAX_TEN \<or> (v \<ge> MAX_TEN \<and> digit_value c > MAX_DIGIT)"

text \<open>The digit loops; \<open>None\<close> is the early return for a number that does not fit.\<close>

fun scan_size :: "size_t \<Rightarrow> string \<Rightarrow> (size_t \<times> string) option" where
  "scan_size v [] = Some (v, [])"
| "scan_size v (c # cs) =
     (if \<not> is_digit c then Some (v, c # cs)
      else if would_overflow v c then None
      else scan_size (v * 10 + digit_value c) cs)"

text \<open>
  What one turn of the loop reads: whether the range is open (\<^verbatim>\<open>start-\<close>), its bounds, and the rest of
  the header, which starts with a comma or is at its end.
\<close>

type_synonym range_item = "bool \<times> size_t \<times> size_t \<times> string"

definition parse_range_end :: "size_t \<Rightarrow> bool \<Rightarrow> size_t \<Rightarrow> string \<Rightarrow> FileRangeParseResult + range_item" where
  "parse_range_end contentLength isSuffix start s =
     (if \<not> is_digit (cur s) then Inl InvalidRange
      else case scan_size 0 s of
             None \<Rightarrow> Inl NotSatisfiable
           | Some (e, s1) \<Rightarrow>
               let s2 = skip_whitespace s1
               in if cur s2 \<noteq> CHR '','' \<and> cur s2 \<noteq> NUL then Inl InvalidRange
                  else let start1 = (if isSuffix then if e < contentLength then contentLength - e else 0 else start);
                           e1 = (if isSuffix then contentLength - 1 else e)
                       in Inr (False, start1, if e1 \<ge> contentLength then contentLength else e1 + 1, s2))"

definition parse_range_item :: "size_t \<Rightarrow> string \<Rightarrow> FileRangeParseResult + range_item" where
  "parse_range_item contentLength s =
     (let s0 = skip_whitespace s
      in if cur s0 = CHR ''-'' then parse_range_end contentLength True 0 (tl s0)
         else if \<not> is_digit (cur s0) then Inl InvalidRange
         else case scan_size 0 s0 of
                None \<Rightarrow> Inl NotSatisfiable
              | Some (start, s1) \<Rightarrow>
                  let s2 = skip_whitespace s1
                  in if cur s2 \<noteq> CHR ''-'' then Inl InvalidRange
                     else let s3 = skip_whitespace (tl s2)
                          in if cur s3 = CHR '','' \<or> cur s3 = NUL then Inr (True, start, contentLength, s3)
                             else parse_range_end contentLength False start s3)"

text \<open>Recording a range; only bounded ranges are counted against the limit of 100.\<close>

definition push_range ::
  "bool \<Rightarrow> size_t \<Rightarrow> size_t \<Rightarrow> size_t \<times> FileRange list \<Rightarrow> FileRangeParseResult + (size_t \<times> FileRange list)" where
  "push_range open_range start e acc =
     (case acc of (totalSize, ranges) \<Rightarrow>
        if \<not> start < e then Inr (totalSize, ranges)
        else if totalSize > MAX_SIZE - (e - start) then Inl NotSatisfiable
        else let ranges1 = ranges @ [\<lparr>range_start = start, range_end = e\<rparr>]
             in if \<not> open_range \<and> length ranges1 > 100 then Inl InvalidRange
                else Inr (totalSize + (e - start), ranges1))"

lemma skip_whitespace_length: "length (skip_whitespace s) \<le> length s"
  by (induction s) auto

lemma scan_size_length: "scan_size v s = Some (w, r) \<Longrightarrow> length r \<le> length s"
  by (induction v s rule: scan_size.induct) (auto split: if_splits)

lemma parse_range_end_length:
  "parse_range_end L f st s = Inr (o1, a, b, r) \<Longrightarrow> length r \<le> length s"
  using skip_whitespace_length
  by (auto simp: parse_range_end_def Let_def dest!: scan_size_length split: if_splits option.splits)
     (meson le_trans)+

lemma parse_range_item_length:
  assumes "parse_range_item L s = Inr (o1, a, b, r)"
  shows "length r \<le> length s"
proof -
  have sw: "length (skip_whitespace x) \<le> length x" for x by (rule skip_whitespace_length)
  consider "parse_range_end L True 0 (tl (skip_whitespace s)) = Inr (o1, a, b, r)"
    | st s1 where "scan_size 0 (skip_whitespace s) = Some (st, s1)"
        "r = skip_whitespace (tl (skip_whitespace s1)) \<or>
         parse_range_end L False st (skip_whitespace (tl (skip_whitespace s1))) = Inr (o1, a, b, r)"
    using assms by (auto simp: parse_range_item_def Let_def split: if_splits option.splits)
  then show ?thesis
  proof cases
    case 1
    then show ?thesis using parse_range_end_length [OF 1] sw [of s] by (simp add: le_diff_conv)
  next
    case 2
    have "length r \<le> length (skip_whitespace (tl (skip_whitespace s1)))"
      using 2(2) parse_range_end_length by blast
    also have "\<dots> \<le> length s"
      using sw [of "tl (skip_whitespace s1)"] sw [of s1] sw [of s] scan_size_length [OF 2(1)] by simp
    finally show ?thesis .
  qed
qed

text \<open>
  The loop.  A range is followed by a comma, which is skipped, or it is the last one.  The vector
  \<^verbatim>\<open>ranges\<close> is only read after a success.
\<close>

function range_loop :: "size_t \<Rightarrow> string \<Rightarrow> size_t \<times> FileRange list \<Rightarrow> FileRangeParseResult + (size_t \<times> FileRange list)" where
  "range_loop contentLength s acc =
     (case parse_range_item contentLength s of
        Inl r \<Rightarrow> Inl r
      | Inr (open_range, start, e, rest) \<Rightarrow>
          (case push_range open_range start e acc of
             Inl r \<Rightarrow> Inl r
           | Inr acc1 \<Rightarrow>
               (case rest of
                  [] \<Rightarrow> Inr acc1
                | c # cs \<Rightarrow> if c = CHR '','' then range_loop contentLength cs acc1 else Inr acc1)))"
  by auto
termination
  by (relation "measure (\<lambda>(L, s, acc). length s)") (auto dest!: parse_range_item_length)

declare range_loop.simps [simp del]

definition parseRangeHeader :: "string \<Rightarrow> size_t \<Rightarrow> FileRangeParseResult \<times> FileRange list" where
  "parseRangeHeader rangeStr contentLength =
     (if length rangeStr < 7 \<or> take 6 rangeStr \<noteq> ''bytes='' then (InvalidRange, [])
      else case range_loop contentLength (drop 6 rangeStr) (0, []) of
             Inl r \<Rightarrow> (r, [])
           | Inr (totalSize, ranges) \<Rightarrow>
               if ranges = [] \<or> totalSize > contentLength then (NotSatisfiable, [])
               else (if length ranges = 1 then SinglePart else MultiPart, ranges))"


section \<open>Numbers\<close>

lemma cur_not_digit [simp]: "is_digit NUL = False" "is_digit (CHR '','') = False" "is_digit (CHR ''-'') = False"
  "is_digit (CHR '' '') = False"
  by (simp_all add: is_digit_def less_eq_char_def)

lemma digit_bound: "is_digit c \<Longrightarrow> (of_char c :: nat) - 48 < 10"
  by (auto simp: is_digit_def less_eq_char_def)

lemma unat_digit_value: "is_digit c \<Longrightarrow> unat (digit_value c) = of_char c - 48"
  using digit_bound [of c] by (simp add: digit_value_def unat_of_nat take_bit_nat_eq_self)

lemma size_bound: "unat (n :: size_t) < 2 ^ 64"
  by (rule order_less_le_trans [OF unsigned_less]) simp

lemma would_overflow_iff:
  assumes "is_digit c"
  shows "would_overflow v c \<longleftrightarrow> 2 ^ 64 \<le> 10 * unat v + (of_char c - 48)"
proof -
  have "unat MAX_TEN = 1844674407370955161" "unat MAX_DIGIT = 5" by (simp_all add: MAX_TEN_def MAX_DIGIT_def)
  then show ?thesis
    using digit_bound [OF assms]
    by (auto simp: would_overflow_def word_less_nat_alt word_le_nat_alt unat_digit_value [OF assms])
qed

lemma unat_step:
  assumes "is_digit c" and "\<not> would_overflow v c"
  shows "unat (v * 10 + digit_value c) = 10 * unat v + (of_char c - 48)"
proof -
  have l: "10 * unat v + (of_char c - 48) < 2 ^ 64" using assms by (simp add: would_overflow_iff)
  have "v * 10 + digit_value c = of_nat (10 * unat v + (of_char c - 48))"
    by (simp add: digit_value_def mult.commute)
  then show ?thesis using l by (simp only: unat_of_nat) (simp add: take_bit_nat_eq_self)
qed

definition dec_from :: "nat \<Rightarrow> string \<Rightarrow> nat" where
  "dec_from v ds = foldl (\<lambda>v c. 10 * v + (of_char c - 48)) v ds"

lemma dec_from_mono: "v \<le> dec_from v ds"
proof (induction ds arbitrary: v)
  case (Cons c ds)
  have "v \<le> 10 * v + (of_char c - 48)" by simp
  also have "\<dots> \<le> dec_from (10 * v + (of_char c - 48)) ds" by (rule Cons.IH)
  finally show ?case by (simp add: dec_from_def)
qed (simp add: dec_from_def)

text \<open>The digit loop reads a number exactly, or reports that it does not fit.\<close>

lemma scan_size_exact:
  assumes "\<forall>c\<in>set ds. is_digit c" and "\<not> is_digit (cur r)"
  shows "scan_size v (ds @ r) = (if dec_from (unat v) ds < 2 ^ 64 then Some (of_nat (dec_from (unat v) ds), r) else None)"
  using assms(1)
proof (induction ds arbitrary: v)
  case Nil
  have "unat v < 2 ^ 64" by (rule size_bound)
  then show ?case using assms(2) by (cases r) (simp_all add: dec_from_def)
next
  case (Cons c ds)
  have eq: "dec_from (unat v) (c # ds) = dec_from (10 * unat v + (of_char c - 48)) ds" by (simp add: dec_from_def)
  show ?case
  proof (cases "would_overflow v c")
    case True
    have "2 ^ 64 \<le> dec_from (unat v) (c # ds)"
      using True Cons.prems dec_from_mono [of "10 * unat v + (of_char c - 48)" ds]
      by (simp only: eq) (simp add: would_overflow_iff)
    then show ?thesis using True Cons.prems by simp
  next
    case False
    then show ?thesis using Cons unat_step [of c v] by (simp add: eq)
  qed
qed

lemma scan_dec:
  assumes "\<not> is_digit (cur r)"
  shows "scan_size 0 (nat_to_dec n @ r) = (if n < 2 ^ 64 then Some (of_nat n, r) else None)"
  using scan_size_exact [of "nat_to_dec n" r 0] assms nat_to_dec_digits [of _ n] dec_value_nat_to_dec [of n]
  by (simp add: dec_from_def dec_value_def)

section \<open>Every accepted range lies in the file\<close>

abbreviation range_size :: "FileRange \<Rightarrow> nat" where
  "range_size r \<equiv> unat (range_end r) - unat (range_start r)"

definition ranges_ok :: "size_t \<Rightarrow> size_t \<times> FileRange list \<Rightarrow> bool" where
  "ranges_ok L acc \<longleftrightarrow> (\<forall>r\<in>set (snd acc). range_start r < range_end r \<and> range_end r \<le> L)
     \<and> unat (fst acc) = (\<Sum>r\<leftarrow>snd acc. range_size r)"

lemma parse_range_item_end:
  assumes "parse_range_item L s = Inr (o1, a, b, r)"
  shows "b \<le> L"
proof -
  have e: "parse_range_end L f st x = Inr (o1, a, b, r) \<Longrightarrow> b \<le> L" for f st x
    by (auto simp: parse_range_end_def Let_def inc_le not_le split: if_splits option.splits)
  show ?thesis
    using assms e by (auto simp: parse_range_item_def Let_def split: if_splits option.splits)
qed

lemma unat_total_add:
  assumes "\<not> t > MAX_SIZE - d"
  shows "unat (t + d) = unat t + unat (d :: size_t)"
proof -
  have "t \<le> MAX_SIZE - d" using assms by simp
  moreover have "unat (MAX_SIZE - d) = 2 ^ 64 - 1 - unat d"
    by (simp add: unat_sub word_order.extremum unsigned_minus_1_eq_mask mask_eq_exp_minus_1)
  ultimately have "unat t \<le> 2 ^ 64 - 1 - unat d" by (simp add: word_le_nat_alt)
  then have "unat t + unat d < 2 ^ 64" using size_bound [of d] by simp
  then show ?thesis by (simp add: unat_word_ariths)
qed

lemma push_range_ok:
  assumes "ranges_ok L acc" and "e \<le> L" and "push_range p a e acc = Inr acc1"
  shows "ranges_ok L acc1"
proof (cases "a < e")
  case True
  obtain t rs where acc: "acc = (t, rs)" by fastforce
  have a1: "acc1 = (t + (e - a), rs @ [\<lparr>range_start = a, range_end = e\<rparr>])" and n: "\<not> t > MAX_SIZE - (e - a)"
    using assms(3) True by (auto simp: acc push_range_def Let_def split: if_splits)
  have "unat (t + (e - a)) = unat t + (unat e - unat a)"
    using unat_total_add [OF n] unat_sub [of a e] True by simp
  then show ?thesis
    using assms(1,2) True by (auto simp: ranges_ok_def acc a1)
qed (use assms in \<open>auto simp: push_range_def split: prod.splits\<close>)

lemma range_loop_ok:
  "ranges_ok L acc \<Longrightarrow> range_loop L s acc = Inr acc1 \<Longrightarrow> ranges_ok L acc1"
proof (induction L s acc rule: range_loop.induct)
  case (1 L s acc)
  obtain p a e rest where it: "parse_range_item L s = Inr (p, a, e, rest)"
    using 1(3) by (subst (asm) range_loop.simps) (auto split: sum.splits)
  obtain acc2 where ps: "push_range p a e acc = Inr acc2"
    using 1(3) by (subst (asm) range_loop.simps) (auto simp: it split: sum.splits)
  have ok: "ranges_ok L acc2" by (rule push_range_ok [OF 1(2) parse_range_item_end [OF it] ps])
  have "acc1 = acc2 \<or> (\<exists>cs. rest = CHR '','' # cs \<and> range_loop L cs acc2 = Inr acc1)"
    using 1(3) by (subst (asm) range_loop.simps) (auto simp: it ps split: list.splits if_splits)
  then show ?case using ok 1(1) [OF it refl refl refl ps] by auto
qed

section \<open>What a header asks for\<close>

text \<open>A reference definition over the natural numbers: the three forms of RFC 7233, as slices \<open>[a, e)\<close>.\<close>

datatype range_spec = From nat | Between nat nat | Suffix nat

fun spec_text :: "range_spec \<Rightarrow> string" where
  "spec_text (From a) = nat_to_dec a @ ''-''"
| "spec_text (Between a b) = nat_to_dec a @ ''-'' @ nat_to_dec b"
| "spec_text (Suffix n) = ''-'' @ nat_to_dec n"

fun spec_fits :: "range_spec \<Rightarrow> bool" where
  "spec_fits (From a) \<longleftrightarrow> a < 2 ^ 64"
| "spec_fits (Between a b) \<longleftrightarrow> a < 2 ^ 64 \<and> b < 2 ^ 64"
| "spec_fits (Suffix n) \<longleftrightarrow> n < 2 ^ 64"

fun spec_bounds :: "nat \<Rightarrow> range_spec \<Rightarrow> nat \<times> nat" where
  "spec_bounds N (From a) = (a, N)"
| "spec_bounds N (Between a b) = (a, min (b + 1) N)"
| "spec_bounds N (Suffix n) = (N - n, N)"

definition spec_slice :: "nat \<Rightarrow> range_spec \<Rightarrow> (nat \<times> nat) list" where
  "spec_slice N x = (let (a, e) = spec_bounds N x in if a < e then [(a, e)] else [])"

definition slices_size :: "(nat \<times> nat) list \<Rightarrow> nat" where
  "slices_size xs = (\<Sum>(a, e)\<leftarrow>xs. e - a)"

fun is_open :: "range_spec \<Rightarrow> bool" where
  "is_open (From _) = True" | "is_open _ = False"

definition mk_range :: "nat \<times> nat \<Rightarrow> FileRange" where
  "mk_range x = \<lparr>range_start = of_nat (fst x), range_end = of_nat (snd x)\<rparr>"

text \<open>Ranges are separated by commas, each after any number of blanks.\<close>

fun ranges_text :: "(nat \<times> range_spec) list \<Rightarrow> string" where
  "ranges_text [] = []"
| "ranges_text [(k, x)] = replicate k CHR '' '' @ spec_text x"
| "ranges_text ((k, x) # y # zs) = replicate k CHR '' '' @ spec_text x @ CHR '','' # ranges_text (y # zs)"

lemma skip_blanks: "skip_whitespace (replicate k CHR '' '' @ s) = skip_whitespace s"
  by (induction k) auto

lemma skip_none: "cur s \<noteq> CHR '' '' \<Longrightarrow> skip_whitespace s = s"
  by (cases s) auto

lemma cur_dec [simp]: "is_digit (cur (nat_to_dec n @ r))"
  using nat_to_dec_digits [of "hd (nat_to_dec n)" n] by (cases "nat_to_dec n") auto

lemma skip_dec [simp]: "skip_whitespace (nat_to_dec n @ r) = nat_to_dec n @ r"
  using cur_dec [of n r] by (intro skip_none) (auto simp del: cur_dec)

lemma cur_dec_neq [simp]: "cur (nat_to_dec n @ r) \<noteq> CHR ''-''" "cur (nat_to_dec n @ r) \<noteq> CHR '',''"
  "cur (nat_to_dec n @ r) \<noteq> NUL"
  using cur_dec [of n r] by (auto simp del: cur_dec)

definition item_end :: "string \<Rightarrow> bool" where
  "item_end r \<longleftrightarrow> cur r = CHR '','' \<or> cur r = NUL"

lemma item_endD [simp]: "item_end r \<Longrightarrow> skip_whitespace r = r" "item_end r \<Longrightarrow> \<not> is_digit (cur r)"
  by (auto simp: item_end_def intro!: skip_none)

lemma parse_end_text:
  assumes "item_end r" and "b < 2 ^ 64"
  shows "parse_range_end L f st (nat_to_dec b @ r) =
    Inr (False, if f then if of_nat b < L then L - of_nat b else 0 else st,
         if (if f then L - 1 else of_nat b) \<ge> L then L else (if f then L - 1 else of_nat b) + 1, r)"
  using assms scan_dec [of r b] by (simp add: parse_range_end_def Let_def item_end_def)

lemma of_nat_size: "n < 2 ^ 64 \<Longrightarrow> unat (of_nat n :: size_t) = n"
  by (simp add: unat_of_nat take_bit_nat_eq_self)

lemma parse_item_text:
  assumes "item_end r" and "spec_fits x"
  shows "parse_range_item L (replicate k CHR '' '' @ spec_text x @ r) =
    Inr (is_open x, of_nat (fst (spec_bounds (unat L) x)), of_nat (snd (spec_bounds (unat L) x)), r)"
proof (cases x)
  case (From a)
  then show ?thesis
    using assms scan_dec [of "CHR ''-'' # r" a] by (simp add: parse_range_item_def Let_def skip_blanks item_end_def)
next
  case (Between a b)
  have "(if L \<le> of_nat b then L else of_nat b + 1) = (of_nat (min (b + 1) (unat L)) :: size_t)"
    using assms of_nat_size [of b] by (auto simp: Between word_le_nat_alt min_def)
  then show ?thesis
    using assms scan_dec [of "CHR ''-'' # nat_to_dec b @ r" a] parse_end_text [OF assms(1), of b L False "of_nat a"]
    by (simp add: Between parse_range_item_def Let_def skip_blanks split: if_splits)
next
  case (Suffix n)
  have st: "(if of_nat n < L then L - of_nat n else 0) = (of_nat (unat L - n) :: size_t)"
    using assms of_nat_size [of n] by (auto simp: Suffix word_less_nat_alt not_less)
  have "(if L - 1 \<ge> L then L else L - 1 + 1) = L" by simp
  with st show ?thesis
    using assms parse_end_text [OF assms(1), of n L True 0]
    by (simp add: Suffix parse_range_item_def Let_def skip_blanks skip_none)
qed


lemma slice_bounds: "(a, e) \<in> set (spec_slice N x) \<Longrightarrow> a < e \<and> e \<le> N"
  by (cases x) (auto simp: spec_slice_def Let_def split: if_splits)

lemma slices_size_append [simp]: "slices_size (xs @ ys) = slices_size xs + slices_size ys"
  by (simp add: slices_size_def)

lemma room_left: "d < m \<Longrightarrow> m - 1 - d < t \<longleftrightarrow> \<not> t + d < m" for d :: nat
  by arith

text \<open>One turn of the loop adds the slice of its range, unless the sizes no longer fit a word.\<close>

lemma push_spec:
  fixes L :: size_t
  assumes fits: "spec_fits x" and size: "slices_size xs < 2 ^ 64" and few: "length (xs @ spec_slice (unat L) x) \<le> 100"
  shows "push_range (is_open x) (of_nat (fst (spec_bounds (unat L) x))) (of_nat (snd (spec_bounds (unat L) x)))
           (of_nat (slices_size xs), map mk_range xs) =
         (let ys = xs @ spec_slice (unat L) x
          in if slices_size ys < 2 ^ 64 then Inr (of_nat (slices_size ys), map mk_range ys) else Inl NotSatisfiable)"
proof -
  obtain a e where ae: "spec_bounds (unat L) x = (a, e)" by fastforce
  have L: "unat L < 2 ^ 64" by (rule size_bound)
  have lt: "a < 2 ^ 64" "e < 2 ^ 64" using ae fits L by (cases x; auto)+
  show ?thesis
  proof (cases "a < e")
    case False
    then show ?thesis
      using lt size by (simp add: push_range_def ae spec_slice_def word_less_nat_alt of_nat_size Let_def)
  next
    case True
    let ?d = "of_nat e - of_nat a :: size_t"
    have ud: "?d = of_nat (e - a)" using True by (simp add: of_nat_diff)
    have sz: "slices_size (xs @ spec_slice (unat L) x) = slices_size xs + (e - a)"
      using True by (simp add: spec_slice_def ae slices_size_def)
    have "e - a < 2 ^ 64" using lt by simp
    have m: "unat (MAX_SIZE - ?d) = 2 ^ 64 - 1 - (e - a)"
      using lt by (simp add: ud unat_sub word_order.extremum unsigned_minus_1_eq_mask mask_eq_exp_minus_1 of_nat_size)
    have over: "of_nat (slices_size xs) > MAX_SIZE - ?d \<longleftrightarrow> \<not> slices_size xs + (e - a) < 2 ^ 64"
      unfolding word_less_nat_alt m of_nat_size [OF size] using \<open>e - a < 2 ^ 64\<close> by (rule room_left)
    have pos: "(of_nat a :: size_t) < of_nat e" using True lt by (simp add: word_less_nat_alt of_nat_size)
    have few1: "length (map mk_range xs @ [mk_range (a, e)]) \<le> 100" using few True by (simp add: spec_slice_def ae)
    have "spec_slice (unat L) x = [(a, e)]" using True by (simp add: spec_slice_def ae)
    then show ?thesis
      unfolding Let_def sz using pos few1 over ud by (simp add: push_range_def ae Let_def mk_range_def slices_size_def)
  qed
qed

definition all_slices :: "nat \<Rightarrow> (nat \<times> range_spec) list \<Rightarrow> (nat \<times> nat) list" where
  "all_slices N specs = concat (map (spec_slice N \<circ> snd) specs)"

lemma range_loop_text:
  assumes "specs \<noteq> []" and "\<forall>(k, x)\<in>set specs. spec_fits x" and "slices_size xs < 2 ^ 64"
    and "length (xs @ all_slices (unat L) specs) \<le> 100"
  shows "range_loop L (ranges_text specs) (of_nat (slices_size xs), map mk_range xs) =
    (let ys = xs @ all_slices (unat L) specs
     in if slices_size ys < 2 ^ 64 then Inr (of_nat (slices_size ys), map mk_range ys) else Inl NotSatisfiable)"
  using assms
proof (induction specs arbitrary: xs rule: ranges_text.induct)
  case (2 k x)
  then show ?case
    using parse_item_text [of "[]" x L k] push_spec [of x xs L]
    by (subst range_loop.simps) (simp add: item_end_def all_slices_def Let_def split: if_splits)
next
  case (3 k x y zs)
  let ?ys = "xs @ spec_slice (unat L) x"
  have it: "parse_range_item L (ranges_text ((k, x) # y # zs)) =
      Inr (is_open x, of_nat (fst (spec_bounds (unat L) x)), of_nat (snd (spec_bounds (unat L) x)),
           CHR '','' # ranges_text (y # zs))"
    using 3(3) parse_item_text [of "CHR '','' # ranges_text (y # zs)" x L k] by (simp add: item_end_def)
  have ps: "push_range (is_open x) (of_nat (fst (spec_bounds (unat L) x))) (of_nat (snd (spec_bounds (unat L) x)))
           (of_nat (slices_size xs), map mk_range xs) =
         (if slices_size ?ys < 2 ^ 64 then Inr (of_nat (slices_size ?ys), map mk_range ?ys) else Inl NotSatisfiable)"
    using 3(3-5) push_spec [of x xs L] by (simp add: all_slices_def Let_def)
  have all: "all_slices (unat L) ((k, x) # y # zs) = spec_slice (unat L) x @ all_slices (unat L) (y # zs)"
    by (simp add: all_slices_def)
  show ?case
    using 3(1) [of ?ys] 3(3,5) unfolding range_loop.simps [of L "ranges_text ((k, x) # y # zs)"] it all
    by (auto simp: ps Let_def simp del: ranges_text.simps)
qed simp


lemma parse_success:
  assumes "parseRangeHeader h L = (r, ranges)" and "ranges \<noteq> []"
  shows "\<exists>t. range_loop L (drop 6 h) (0, []) = Inr (t, ranges) \<and> \<not> t > L"
proof (cases "range_loop L (drop 6 h) (0, [])")
  case (Inr x)
  then show ?thesis
    using assms by (cases x) (simp add: parseRangeHeader_def split: if_split_asm)
qed (use assms in \<open>simp add: parseRangeHeader_def split: if_split_asm\<close>)

lemma parsed_ranges_inside:
  assumes "parseRangeHeader h L = (r, ranges)" and "ranges \<noteq> []"
  shows "(\<forall>x\<in>set ranges. range_start x < range_end x \<and> range_end x \<le> L) \<and> (\<Sum>x\<leftarrow>ranges. range_size x) \<le> unat L"
proof -
  from parse_success [OF assms]
  obtain t where l: "range_loop L (drop 6 h) (0, []) = Inr (t, ranges)" and t: "t \<le> L" by (auto simp: not_less)
  have "ranges_ok L (t, ranges)" by (rule range_loop_ok [OF _ l]) (simp add: ranges_ok_def)
  then show ?thesis using t by (simp add: ranges_ok_def word_le_nat_alt)
qed

lemma ranges_text_nonempty: "specs \<noteq> [] \<Longrightarrow> ranges_text specs \<noteq> []"
proof (cases specs rule: ranges_text.cases)
  case (2 k x)
  then show ?thesis by (cases x) simp_all
qed auto

lemma parse_ranges_text:
  "specs \<noteq> [] \<and> (\<forall>(k, x)\<in>set specs. spec_fits x) \<and> length (all_slices (unat L) specs) \<le> 100 \<longrightarrow>
      parseRangeHeader (''bytes='' @ ranges_text specs) L =
        (let ys = all_slices (unat L) specs
         in if ys = [] \<or> slices_size ys > unat L then (NotSatisfiable, [])
            else (if length ys = 1 then SinglePart else MultiPart, map mk_range ys))"
proof
  assume s: "specs \<noteq> [] \<and> (\<forall>(k, x)\<in>set specs. spec_fits x) \<and> length (all_slices (unat L) specs) \<le> 100"
  define ys where "ys = all_slices (unat L) specs"
  have l: "range_loop L (ranges_text specs) (0, []) =
      (if slices_size ys < 2 ^ 64 then Inr (of_nat (slices_size ys), map mk_range ys) else Inl NotSatisfiable)"
    using range_loop_text [of specs "[]" L] s by (simp add: slices_size_def Let_def ys_def)
  have "\<not> length (''bytes='' @ ranges_text specs) < 7"
    using s ranges_text_nonempty [of specs] by (cases "ranges_text specs") simp_all
  then have p: "parseRangeHeader (''bytes='' @ ranges_text specs) L =
      (case range_loop L (ranges_text specs) (0, []) of
             Inl r \<Rightarrow> (r, [])
           | Inr (totalSize, ranges) \<Rightarrow>
               if ranges = [] \<or> totalSize > L then (NotSatisfiable, [])
               else (if length ranges = 1 then SinglePart else MultiPart, ranges))"
    by (simp add: parseRangeHeader_def)
  have big: "\<not> slices_size ys < 2 ^ 64 \<Longrightarrow> slices_size ys > unat L" using size_bound [of L] by linarith
  have small: "slices_size ys < 2 ^ 64 \<Longrightarrow> of_nat (slices_size ys) > L \<longleftrightarrow> slices_size ys > unat L"
    by (simp only: word_less_nat_alt of_nat_size)
  show "parseRangeHeader (''bytes='' @ ranges_text specs) L =
        (let ys = all_slices (unat L) specs
         in if ys = [] \<or> slices_size ys > unat L then (NotSatisfiable, [])
            else (if length ys = 1 then SinglePart else MultiPart, map mk_range ys))"
    unfolding p l Let_def ys_def [symmetric]
    by (cases "slices_size ys < 2 ^ 64") (simp_all only: if_True if_False sum.case prod.case small big map_is_Nil_conv length_map simp_thms)
qed

text \<open>(C22) The \<^verbatim>\<open>Range\<close> header is read exactly.  Whatever the header, every range of a success is
  a nonempty slice of the file and their sizes add up to at most its length.  For a header that lists up to 100
  ranges in the forms \<^verbatim>\<open>a-\<close>, \<^verbatim>\<open>a-b\<close> and \<^verbatim>\<open>-n\<close> with 64 bit numbers, the parser returns exactly the
  slices these denote over the natural numbers, clipped to the file, and refuses the header just when there is
  none or they ask for more than the file holds; no intermediate computation wraps around.\<close>

theorem range_header_exact:
  "(\<forall>r ranges. parseRangeHeader h L = (r, ranges) \<and> ranges \<noteq> [] \<longrightarrow>
      (\<forall>x\<in>set ranges. range_start x < range_end x \<and> range_end x \<le> L) \<and> (\<Sum>x\<leftarrow>ranges. range_size x) \<le> unat L)
   \<and> (specs \<noteq> [] \<and> (\<forall>(k, x)\<in>set specs. spec_fits x) \<and> length (all_slices (unat L) specs) \<le> 100 \<longrightarrow>
      parseRangeHeader (''bytes='' @ ranges_text specs) L =
        (let ys = all_slices (unat L) specs
         in if ys = [] \<or> slices_size ys > unat L then (NotSatisfiable, [])
            else (if length ys = 1 then SinglePart else MultiPart, map mk_range ys)))"
proof (rule conjI)
  show "\<forall>r ranges. parseRangeHeader h L = (r, ranges) \<and> ranges \<noteq> [] \<longrightarrow>
      (\<forall>x\<in>set ranges. range_start x < range_end x \<and> range_end x \<le> L) \<and> (\<Sum>x\<leftarrow>ranges. range_size x) \<le> unat L"
    by (intro allI impI) (elim conjE, rule parsed_ranges_inside)
qed (rule parse_ranges_text)

lemma range_header_exact_witness:
  "parseRangeHeader ''bytes=0-3, 10-,-2'' 20 =
     (MultiPart, [\<lparr>range_start = 0, range_end = 4\<rparr>, \<lparr>range_start = 10, range_end = 20\<rparr>, \<lparr>range_start = 18, range_end = 20\<rparr>])"
proof -
  let ?specs = "[(0, Between 0 3), (1, From 10), (0, Suffix 2)]"
  have "''bytes='' @ ranges_text ?specs = ''bytes=0-3, 10-,-2''" by (simp add: nat_to_dec.simps)
  moreover have "all_slices (unat (20 :: size_t)) ?specs = [(0, 4), (10, 20), (18, 20)]"
    by (simp add: all_slices_def spec_slice_def)
  ultimately show ?thesis
    using conjunct2 [OF range_header_exact [of "[]" 20 ?specs]] by (simp add: slices_size_def mk_range_def)
qed

end
