(* ===== verification/StaticRouter.thy ===== *)
theory StaticRouter
  imports Router RangeParser FsPath
begin

text \<open>
  \<^verbatim>\<open>src/src/drogon/lib/src/StaticFileRouter.cc\<close>: what happens to a request that no route matches.  The file
  system is a parameter; the operating system reads a path up to its first NUL byte.  The package leaves
  the settings at their defaults, so the document root is the working directory of the R process.
\<close>

section \<open>The file system and the settings\<close>

text \<open>A regular file has a content and the text of its modification time.\<close>

datatype fs_node = FsDirectory | FsRegular string string | FsSpecial

type_synonym fsys = "string \<Rightarrow> fs_node option"

definition fs_at :: "fsys \<Rightarrow> string \<Rightarrow> fs_node option" where
  "fs_at fs p = fs (c_str p)"

definition getFileStat :: "fsys \<Rightarrow> string \<Rightarrow> (string \<times> string) option" where
  "getFileStat fs p = (case fs_at fs p of Some (FsRegular content mtime) \<Rightarrow> Some (content, mtime) | _ \<Rightarrow> None)"

definition is_regular :: "fsys \<Rightarrow> string \<Rightarrow> bool" where
  "is_regular fs p \<longleftrightarrow> getFileStat fs p \<noteq> None"

record location =
  lc_uriPrefix :: string
  lc_defaultContentType :: string
  lc_alias :: string
  lc_realLocation :: string
  lc_isCaseSensitive :: bool
  lc_allowAll :: bool
  lc_isRecursive :: bool

definition newLocation :: "string \<Rightarrow> string \<Rightarrow> string \<Rightarrow> bool \<Rightarrow> bool \<Rightarrow> bool \<Rightarrow> location" where
  "newLocation uriPrefix ct alias isCaseSensitive allowAll isRecursive =
     \<lparr>lc_uriPrefix = uriPrefix, lc_defaultContentType = (if ct = [] then [] else ''content-type: '' @ ct @ CRLF),
      lc_alias = alias, lc_realLocation = [], lc_isCaseSensitive = isCaseSensitive, lc_allowAll = allowAll,
      lc_isRecursive = isRecursive\<rparr>"

text \<open>The settings, and the response cache of the calling thread.\<close>

record static_router =
  sr_documentRoot :: string
  sr_locations :: "location list"
  sr_fileTypeSet :: "string list"
  sr_cacheTime :: int
  sr_enableLastModify :: bool
  sr_enableRange :: bool
  sr_gzipStatic :: bool
  sr_brStatic :: bool
  sr_headers :: "(string \<times> string) list"
  sr_implicitPageEnable :: bool
  sr_implicitPage :: string
  sr_cache :: "(string \<times> response) list"

definition default_static_router :: static_router where
  "default_static_router =
     \<lparr>sr_documentRoot = ''./'', sr_locations = [],
      sr_fileTypeSet = [''html'', ''js'', ''css'', ''xml'', ''xsl'', ''txt'', ''svg'', ''ttf'', ''otf'', ''woff2'', ''woff'',
        ''eot'', ''png'', ''jpg'', ''jpeg'', ''gif'', ''bmp'', ''ico'', ''icns''],
      sr_cacheTime = 5, sr_enableLastModify = True, sr_enableRange = True, sr_gzipStatic = True, sr_brStatic = True,
      sr_headers = [], sr_implicitPageEnable = True, sr_implicitPage = ''index.html'', sr_cache = []\<rparr>"

text \<open>\<^verbatim>\<open>find(sub) != npos\<close>.\<close>

fun contains :: "string \<Rightarrow> string \<Rightarrow> bool" where
  "contains sub [] \<longleftrightarrow> sub = []"
| "contains sub (c # cs) \<longleftrightarrow> has_prefix sub (c # cs) \<or> contains sub cs"

section \<open>Answering with a file\<close>

definition notModified :: response where
  "notModified = setContentTypeCode CT_NONE (setStatusCode 304 HttpResponseImpl)"

definition addModified :: "string \<Rightarrow> response \<Rightarrow> response" where
  "addModified mtime r =
     (if mtime = [] then r
      else addHeader ''Expires'' ''Thu, 01 Jan 1970 00:00:00 GMT'' (addHeader ''Last-Modified'' mtime r))"

text \<open>No media types are registered by the package.\<close>

definition fileResponse :: "response \<Rightarrow> bool \<Rightarrow> fsys \<Rightarrow> string \<Rightarrow> string \<Rightarrow> size_t \<Rightarrow> size_t \<Rightarrow> bool \<Rightarrow> response" where
  "fileResponse nf sendfile fs served named offset len setContentRange =
     (case fileNameToContentTypeAndMime (\<lambda>_. None) named of (ct, mime) \<Rightarrow>
        newFileResponse nf sendfile (map_option fst (getFileStat fs served)) served offset len setContentRange [] ct mime)"

text \<open>The answer to a \<^verbatim>\<open>Range\<close> header; \<open>None\<close>: the header is ignored. Only the first range is served.\<close>

definition rangeResponse :: "response \<Rightarrow> bool \<Rightarrow> fsys \<Rightarrow> string \<Rightarrow> string \<times> string \<Rightarrow> request \<Rightarrow> response option" where
  "rangeResponse nf sendfile fs filePath st req =
     (case st of (content, mtime) \<Rightarrow>
        let ifRange = rq_getHeaderBy ''if-range'' req; N = of_nat (length content) :: size_t
        in if ifRange \<noteq> [] \<and> ifRange \<noteq> mtime then None
           else case parseRangeHeader (rq_getHeaderBy ''range'' req) N of
                  (InvalidRange, _) \<Rightarrow> None
                | (NotSatisfiable, _) \<Rightarrow>
                    Some (addHeader ''Content-Range'' (''bytes */'' @ nat_to_dec (unat N)) (setStatusCode 416 newHttpResponse))
                | (_, ranges) \<Rightarrow>
                    let r = hd ranges
                    in Some (addModified mtime
                         (fileResponse nf sendfile fs filePath filePath (range_start r) (range_end r - range_start r) True)))"

definition wholeFile :: "response \<Rightarrow> bool \<Rightarrow> fsys \<Rightarrow> string \<Rightarrow> request \<Rightarrow> static_router \<Rightarrow> response" where
  "wholeFile nf sendfile fs filePath req sr =
     (let enc = rq_getHeaderBy ''accept-encoding'' req
      in if sr_brStatic sr \<and> contains ''br'' enc \<and> is_regular fs (filePath @ ''.br'')
         then addHeader ''Content-Encoding'' ''br'' (fileResponse nf sendfile fs (filePath @ ''.br'') filePath 0 0 False)
         else if sr_gzipStatic sr \<and> contains ''gzip'' enc \<and> is_regular fs (filePath @ ''.gz'')
         then addHeader ''Content-Encoding'' ''gzip'' (fileResponse nf sendfile fs (filePath @ ''.gz'') filePath 0 0 False)
         else fileResponse nf sendfile fs filePath filePath 0 0 False)"

definition finishFile :: "string \<Rightarrow> string \<Rightarrow> string \<Rightarrow> response \<Rightarrow> static_router \<Rightarrow> response \<times> static_router" where
  "finishFile filePath mtime defaultContentType resp sr =
     (if statusCode resp = 404 then (resp, sr)
      else
        let r1 = (if contentType resp = CT_APPLICATION_OCTET_STREAM \<and> defaultContentType \<noteq> []
                  then setContentTypeCodeAndCustomString CT_CUSTOM defaultContentType resp else resp);
            r2 = addModified mtime r1;
            r3 = (if sr_enableRange sr then addHeader ''accept-range'' ''bytes'' r2 else r2);
            r4 = fold (\<lambda>(k, v). addHeader k v) (sr_headers sr) r3
        in (r4, if sr_cacheTime sr \<ge> 0 then sr\<lparr>sr_cache := (filePath, r4) # sr_cache sr\<rparr> else sr))"

text \<open>The entry of a file leaves the cache when its time is over.\<close>

definition eraseCached :: "string \<Rightarrow> static_router \<Rightarrow> static_router" where
  "eraseCached filePath sr = sr\<lparr>sr_cache := filter (\<lambda>(p, _). p \<noteq> filePath) (sr_cache sr)\<rparr>"

text \<open>After the \<^verbatim>\<open>Range\<close> header; \<open>st\<close> is the status of the file if it has been read.\<close>

definition sendWhole ::
  "response \<Rightarrow> bool \<Rightarrow> fsys \<Rightarrow> string \<Rightarrow> (string \<times> string) option \<Rightarrow> request \<Rightarrow> string \<Rightarrow> static_router \<Rightarrow> response \<times> static_router" where
  "sendWhole nf sendfile fs filePath st req defaultContentType sr =
     (let since = rq_getHeaderBy ''if-modified-since'' req
      in case map_of (sr_cache sr) filePath of
           Some cached \<Rightarrow>
             if sr_enableLastModify sr \<and> getHeader ''last-modified'' cached = since then (notModified, sr) else (cached, sr)
         | None \<Rightarrow>
             let st1 = (if st \<noteq> None then st else if sr_enableLastModify sr then getFileStat fs filePath else None);
                 mtime = (case st1 of None \<Rightarrow> [] | Some (_, t) \<Rightarrow> t)
             in if sr_enableLastModify sr \<and> st1 = None then (nf, sr)
                else if sr_enableLastModify sr \<and> since = mtime then (notModified, sr)
                else if st1 = None \<and> \<not> is_regular fs filePath then (nf, sr)
                else finishFile filePath mtime defaultContentType (wholeFile nf sendfile fs filePath req sr) sr)"

definition sendStaticFileResponse ::
  "response \<Rightarrow> bool \<Rightarrow> fsys \<Rightarrow> string \<Rightarrow> request \<Rightarrow> string \<Rightarrow> static_router \<Rightarrow> response \<times> static_router" where
  "sendStaticFileResponse nf sendfile fs filePath req defaultContentType sr =
     (if rq_method req \<noteq> Get then (defaultErrorHandler 405, sr)
      else if sr_enableRange sr \<and> rq_getHeaderBy ''range'' req \<noteq> []
      then (case getFileStat fs filePath of
              None \<Rightarrow> (nf, sr)
            | Some st \<Rightarrow>
                if sr_enableLastModify sr \<and> rq_getHeaderBy ''if-modified-since'' req = snd st then (notModified, sr)
                else case rangeResponse nf sendfile fs filePath st req of
                       Some r \<Rightarrow> (r, sr)
                     | None \<Rightarrow> sendWhole nf sendfile fs filePath (Some st) req defaultContentType sr)
      else sendWhole nf sendfile fs filePath None req defaultContentType sr)"

section \<open>Finding the file\<close>

fun climbs_out :: "int \<Rightarrow> string list \<Rightarrow> bool" where
  "climbs_out depth [] = False"
| "climbs_out depth (d # ds) =
     (let depth1 = (if d = ''..'' then depth - 1 else if d \<noteq> ''.'' then depth + 1 else depth)
      in depth1 < 0 \<or> climbs_out depth1 ds)"

definition prepareLocation :: "string \<Rightarrow> location \<Rightarrow> location" where
  "prepareLocation documentRoot l =
     (if lc_realLocation l \<noteq> [] then l
      else
        let real = (if lc_alias l \<noteq> [] then if hd (lc_alias l) = CHR ''/'' then lc_alias l else documentRoot @ lc_alias l
                    else documentRoot @ lc_uriPrefix l)
        in l\<lparr>lc_realLocation := (if last real \<noteq> CHR ''/'' then real @ ''/'' else real),
             lc_uriPrefix := (if lc_isCaseSensitive l then lc_uriPrefix l else map tolower (lc_uriPrefix l))\<rparr>)"

text \<open>The file a matching location denotes, or the status of the refusal (0: not found).\<close>

definition locationFile :: "fsys \<Rightarrow> string \<Rightarrow> static_router \<Rightarrow> location \<Rightarrow> int + string" where
  "locationFile fs path sr l =
     (let rest = drop (length (lc_uriPrefix l)) path; filePath = lc_realLocation l @ rest
      in if CHR ''/'' \<in> set (drop 1 rest) \<and> \<not> lc_isRecursive l then Inl 403
         else case fs_at fs filePath of
                None \<Rightarrow> Inl 0
              | Some FsDirectory \<Rightarrow>
                  if sr_implicitPageEnable sr then Inr (filePath @ ''/'' @ sr_implicitPage sr) else Inl 403
              | Some _ \<Rightarrow>
                  if lc_allowAll l then Inr filePath
                  else if CHR ''.'' \<notin> set rest \<or> lowerExtName rest \<notin> set (sr_fileTypeSet sr) then Inl 403
                  else Inr filePath)"

definition locationMatches :: "string \<Rightarrow> location \<Rightarrow> bool" where
  "locationMatches path l \<longleftrightarrow> has_prefix (lc_uriPrefix l) (if lc_isCaseSensitive l then path else map tolower path)"

text \<open>Without a matching location: a file under the document root.\<close>

definition rootFile :: "fsys \<Rightarrow> string \<Rightarrow> static_router \<Rightarrow> int + string" where
  "rootFile fs path sr =
     (let directoryPath = sr_documentRoot sr @ path
      in case fs_at fs directoryPath of
           None \<Rightarrow> Inl 0
         | Some FsDirectory \<Rightarrow>
             if sr_implicitPageEnable sr then Inr (directoryPath @ ''/'' @ sr_implicitPage sr) else Inl 403
         | Some _ \<Rightarrow>
             if CHR ''.'' \<notin> set path then Inl 403
             else if lowerExtName path \<in> set (sr_fileTypeSet sr) then Inr directoryPath
             else Inl 0)"

definition sendFound ::
  "response \<Rightarrow> bool \<Rightarrow> fsys \<Rightarrow> int + string \<Rightarrow> request \<Rightarrow> string \<Rightarrow> static_router \<Rightarrow> response \<times> static_router" where
  "sendFound nf sendfile fs found req defaultContentType sr =
     (case found of
        Inl status \<Rightarrow> (if status = 0 then nf else defaultErrorHandler status, sr)
      | Inr filePath \<Rightarrow> sendStaticFileResponse nf sendfile fs filePath req defaultContentType sr)"

text \<open>A location is prepared when the search first comes to it.\<close>

fun visitLocations :: "string \<Rightarrow> string \<Rightarrow> location list \<Rightarrow> location option \<times> location list" where
  "visitLocations documentRoot path [] = (None, [])"
| "visitLocations documentRoot path (l # ls) =
     (let l1 = prepareLocation documentRoot l
      in if locationMatches path l1 then (Some l1, l1 # ls)
         else case visitLocations documentRoot path ls of (found, ls1) \<Rightarrow> (found, l1 # ls1))"

definition static_route :: "response \<Rightarrow> bool \<Rightarrow> fsys \<Rightarrow> request \<Rightarrow> static_router \<Rightarrow> response \<times> static_router" where
  "static_route nf sendfile fs req sr =
     (let path = rq_path req
      in if contains ''..'' path \<and> climbs_out 0 (fs_comps path) then (defaultErrorHandler 403, sr)
         else
           case visitLocations (sr_documentRoot sr) path (sr_locations sr) of
             (found, ls) \<Rightarrow>
               let sr1 = sr\<lparr>sr_locations := ls\<rparr>
               in case found of
                    Some l \<Rightarrow> sendFound nf sendfile fs (locationFile fs path sr1 l) req (lc_defaultContentType l) sr1
                  | None \<Rightarrow> sendFound nf sendfile fs (rootFile fs path sr1) req [] sr1)"

section \<open>No path leaves the document root\<close>

definition within_root :: "string \<Rightarrow> bool" where
  "within_root p \<longleftrightarrow> ''..'' \<notin> set (norm_names False [] (fs_comps p))"

lemma norm_names_keeps: "x \<in> set acc \<Longrightarrow> x = ''..'' \<Longrightarrow> x \<in> set (norm_names False acc ds)"
proof (induction ds arbitrary: acc)
  case (Cons d ds)
  show ?case
  proof (cases "d = ''..'' \<and> acc \<noteq> [] \<and> hd acc \<noteq> ''..''")
    case True
    then have "x \<in> set (tl acc)" using Cons.prems by (cases acc) auto
    then show ?thesis using True Cons by simp
  qed (use Cons in auto)
qed simp

text \<open>The depth count is exact: it goes below zero just when the normal form starts with a step up.\<close>

lemma climbs_out_norm:
  "''..'' \<notin> set acc \<Longrightarrow> climbs_out (int (length acc)) ds \<longleftrightarrow> ''..'' \<in> set (norm_names False acc ds)"
proof (induction ds arbitrary: acc)
  case (Cons d ds)
  have hd: "acc \<noteq> [] \<Longrightarrow> hd acc \<noteq> ''..''" using Cons.prems by (cases acc) auto
  show ?case
  proof (cases "d = ''..''")
    case up: True
    show ?thesis
    proof (cases "acc = []")
      case True
      then show ?thesis using up norm_names_keeps [of "''..''" "[''..'']" ds] by simp
    next
      case False
      then obtain a rest where acc: "acc = a # rest" by (cases acc) auto
      have "''..'' \<notin> set rest" "a \<noteq> ''..''" using Cons.prems acc by auto
      then show ?thesis using up Cons.IH [of rest] by (simp add: acc)
    qed
  next
    case False
    then show ?thesis using Cons.IH [of acc] Cons.IH [of "d # acc"] Cons.prems by (simp add: add.commute)
  qed
qed simp

lemma climbs_out_within: "climbs_out 0 (fs_comps p) \<longleftrightarrow> \<not> within_root p"
  using climbs_out_norm [of "[]" "fs_comps p"] by (simp add: within_root_def)

lemma climbs_mono: "climbs_out k ds \<Longrightarrow> j \<le> k \<Longrightarrow> climbs_out j ds"
  by (induction ds arbitrary: j k) (auto simp: Let_def split: if_splits)

lemma climbs_append: "climbs_out k (ds @ es) \<longleftrightarrow> climbs_out k ds \<or>
    climbs_out (k + (\<Sum>d\<leftarrow>ds. if d = ''..'' then - 1 else if d = ''.'' then 0 else 1)) es"
  by (induction ds arbitrary: k) (auto simp: Let_def algebra_simps)

lemma depth_nonneg:
  "\<not> climbs_out k ds \<Longrightarrow> 0 \<le> k \<Longrightarrow> 0 \<le> k + (\<Sum>d\<leftarrow>ds. if d = ''..'' then - 1 else if d = ''.'' then 0 else 1)"
proof (induction ds arbitrary: k)
  case (Cons d ds)
  let ?k = "if d = ''..'' then k - 1 else if d \<noteq> ''.'' then k + 1 else k"
  have "\<not> climbs_out ?k ds" "0 \<le> ?k" using Cons.prems by (auto simp: Let_def split: if_splits)
  from Cons.IH [OF this] show ?case by (auto split: if_splits)
qed simp

lemma climbs_snoc: "\<not> climbs_out 0 ds \<Longrightarrow> d \<noteq> ''..'' \<Longrightarrow> \<not> climbs_out 0 (ds @ [d])"
  using depth_nonneg [of 0 ds] by (auto simp: climbs_append)

lemma split_slash_suffix:
  "CHR ''/'' \<notin> set s \<Longrightarrow> split_slash (p @ s) = butlast (split_slash p) @ [last (split_slash p) @ s]"
  by (induction p) (auto simp: split_slash_plain split: list.splits)

lemma within_name:
  assumes "within_root p" and "CHR ''/'' \<notin> set q" and "q \<noteq> []" and "q \<noteq> ''..''"
  shows "within_root (p @ ''/'' @ q)"
proof -
  have "fs_comps (p @ ''/'' @ q) = fs_comps p @ [q]"
    using assms by (simp add: fs_comps_append) (simp add: fs_comps_def split_slash_plain)
  then show ?thesis using assms climbs_snoc [of "fs_comps p" q] by (metis climbs_out_within)
qed

lemma within_suffix:
  assumes "within_root p" and "CHR ''/'' \<notin> set s" and "length s \<ge> 3"
  shows "within_root (p @ s)"
proof -
  let ?ds = "filter (\<lambda>seg. seg \<noteq> []) (butlast (split_slash p))" and ?l = "last (split_slash p)"
  have "fs_comps (p @ s) = ?ds @ [?l @ s]"
    using assms by (auto simp: fs_comps_def split_slash_suffix)
  moreover have "fs_comps p = filter (\<lambda>seg. seg \<noteq> []) (butlast (split_slash p) @ [?l])"
    unfolding fs_comps_def by simp
  then have "fs_comps p = ?ds @ filter (\<lambda>seg. seg \<noteq> []) [?l]" by (simp only: filter_append)
  then have "\<not> climbs_out 0 ?ds" using assms(1) climbs_out_within [of p] by (simp only: climbs_append) blast
  moreover have "?l @ s \<noteq> ''..''"
  proof
    assume "?l @ s = ''..''"
    then have "length (?l @ s) = 2" by simp
    then show False using assms(3) by simp
  qed
  ultimately show ?thesis using climbs_snoc [of ?ds "?l @ s"] by (metis climbs_out_within)
qed

text \<open>Everything the answer reads is the file found and its compressed variants.\<close>

lemma sendStaticFileResponse_cong:
  assumes "fs_at fs p = fs_at fs' p" "fs_at fs (p @ ''.br'') = fs_at fs' (p @ ''.br'')" "fs_at fs (p @ ''.gz'') = fs_at fs' (p @ ''.gz'')"
  shows "sendStaticFileResponse nf sf fs p req ct sr = sendStaticFileResponse nf sf fs' p req ct sr"
proof -
  have g: "getFileStat fs q = getFileStat fs' q" if "fs_at fs q = fs_at fs' q" for q using that by (simp add: getFileStat_def)
  show ?thesis
    unfolding sendStaticFileResponse_def sendWhole_def wholeFile_def rangeResponse_def fileResponse_def is_regular_def
    by (simp only: g [OF assms(1)] g [OF assms(2)] g [OF assms(3)])
qed

text \<open>
  The default settings with any cache; without NUL bytes the operating system sees the whole path.
\<close>

definition fallback_router :: "(string \<times> response) list \<Rightarrow> static_router" where
  "fallback_router cache = default_static_router\<lparr>sr_cache := cache\<rparr>"

lemma fallback_settings [simp]:
  "sr_cache (fallback_router c) = c" "sr_enableLastModify (fallback_router c)" "sr_enableRange (fallback_router c)"
  "sr_headers (fallback_router c) = []" "sr_implicitPageEnable (fallback_router c)"
  "sr_implicitPage (fallback_router c) = ''index.html''" "sr_documentRoot (fallback_router c) = ''./''"
  by (simp_all add: fallback_router_def default_static_router_def)

lemma fallback_route:
  "static_route nf sf fs req (fallback_router cache) =
     (if contains ''..'' (rq_path req) \<and> \<not> within_root (rq_path req) then (defaultErrorHandler 403, fallback_router cache)
      else sendFound nf sf fs (rootFile fs (rq_path req) (fallback_router cache)) req [] (fallback_router cache))"
  by (simp add: static_route_def Let_def climbs_out_within fallback_router_def default_static_router_def)

lemma contains_infix: "contains sub (a @ sub @ b)"
proof (induction a)
  case Nil
  have "has_prefix sub (sub @ b)" by (auto simp: has_prefix_iff)
  then show ?case by (cases "sub @ b") simp_all
qed simp

lemma split_slash_infix:
  "split_slash s = x # xs \<Longrightarrow> (\<exists>r. s = x @ r) \<and> (\<forall>y\<in>set xs. \<exists>a b. s = a @ y @ b)"
proof (induction s arbitrary: x xs)
  case (Cons c s)
  obtain z zs where sp: "split_slash s = z # zs" by (cases "split_slash s") auto
  from Cons.IH [OF sp] have r: "\<exists>r. s = z @ r" and i: "\<forall>y\<in>set zs. \<exists>a b. s = a @ y @ b" by auto
  have i1: "\<exists>a b. c # s = a @ y @ b" if "y \<in> set (z # zs)" for y
    using that r i by (metis append_Cons append_Nil set_ConsD)
  show ?case
  proof (cases "c = CHR ''/''")
    case True
    then show ?thesis using Cons.prems i1 by (auto simp: sp)
  next
    case False
    then show ?thesis using Cons.prems i1 r by (auto simp: sp)
  qed
qed simp

lemma norm_names_subset: "set (norm_names rooted acc ds) \<subseteq> set acc \<union> set ds"
proof (induction ds arbitrary: acc)
  case (Cons d ds)
  show ?case
    using Cons.IH [of acc] Cons.IH [of "tl acc"] Cons.IH [of "d # acc"] by (cases acc) auto
qed simp

lemma no_dots_within:
  assumes "\<not> contains ''..'' p"
  shows "within_root p"
proof -
  have "''..'' \<notin> set (split_slash p)"
  proof
    assume d: "''..'' \<in> set (split_slash p)"
    obtain x xs where sp: "split_slash p = x # xs" by (cases "split_slash p") auto
    from split_slash_infix [OF sp] d have "\<exists>a b. p = a @ ''..'' @ b"
      unfolding sp by (metis append_Nil set_ConsD)
    then show False using assms contains_infix by metis
  qed
  then show ?thesis using norm_names_subset [of False "[]" "fs_comps p"] by (auto simp: within_root_def fs_comps_def)
qed

text \<open>(C23) The fallback never leaves the document root.  For a path without NUL bytes that no route
  matches, the answer is determined by the files whose path below the working directory never steps out
  of it: two file systems that agree on these give the same answer, whatever the path, the request's headers
  and the state of the cache.  A path that would step out is refused with 403.\<close>

theorem fallback_contained:
  assumes "NUL \<notin> set (rq_path req)" and "\<And>p. within_root p \<Longrightarrow> fs (''./'' @ p) = fs' (''./'' @ p)"
  shows "static_route nf sf fs req (fallback_router cache) = static_route nf sf fs' req (fallback_router cache)
    \<and> (\<not> within_root (rq_path req) \<longrightarrow> static_route nf sf fs req (fallback_router cache) = (defaultErrorHandler 403, fallback_router cache))"
proof (cases "within_root (rq_path req)")
  case False
  then show ?thesis using no_dots_within [of "rq_path req"] by (auto simp: fallback_route)
next
  case True
  let ?p = "rq_path req" and ?sr = "fallback_router cache"
  have at: "fs_at fs (''./'' @ q) = fs_at fs' (''./'' @ q)" if "within_root q" "NUL \<notin> set q" for q
    using assms(2) [OF that(1)] that(2) by (simp add: fs_at_def)
  have ok: "sendStaticFileResponse nf sf fs (''./'' @ q) req [] ?sr = sendStaticFileResponse nf sf fs' (''./'' @ q) req [] ?sr"
    if "within_root q" "NUL \<notin> set q" for q
    using that at [of q] at [of "q @ ''.br''"] at [of "q @ ''.gz''"] within_suffix [of q "''.br''"] within_suffix [of q "''.gz''"]
    by (intro sendStaticFileResponse_cong) simp_all
  have "within_root (?p @ ''/'' @ ''index.html'')" using True by (intro within_name) simp_all
  then have idx: "sendStaticFileResponse nf sf fs (''./'' @ ?p @ ''/index.html'') req [] ?sr =
      sendStaticFileResponse nf sf fs' (''./'' @ ?p @ ''/index.html'') req [] ?sr"
    using ok [of "?p @ ''/index.html''"] assms(1) by simp
  have root: "rootFile fs ?p ?sr = rootFile fs' ?p ?sr"
    using at [OF True assms(1)] by (simp add: rootFile_def fallback_router_def default_static_router_def)
  have "rootFile fs ?p ?sr \<in> {Inl 0, Inl 403, Inr (''./'' @ ?p @ ''/index.html''), Inr (''./'' @ ?p)}"
    by (auto simp: rootFile_def fallback_router_def default_static_router_def Let_def split: option.splits fs_node.splits)
  then have "sendFound nf sf fs (rootFile fs ?p ?sr) req [] ?sr = sendFound nf sf fs' (rootFile fs' ?p ?sr) req [] ?sr"
    using ok [OF True assms(1)] idx by (auto simp: root sendFound_def)
  then show ?thesis using True by (simp add: fallback_route)
qed

lemma fallback_contained_witness:
  "let fs = (\<lambda>p. if p = ''./../etc/passwd'' then Some (FsRegular ''root'' ''t'') else None);
       req = HttpRequestImpl\<lparr>rq_method := Get, rq_path := ''/a/../../etc/passwd''\<rparr>
   in static_route newHttpResponse False (\<lambda>p. None) req (fallback_router []) = static_route newHttpResponse False fs req (fallback_router [])
      \<and> static_route newHttpResponse False (\<lambda>p. None) req (fallback_router []) = (defaultErrorHandler 403, fallback_router [])"
proof -
  let ?fs = "\<lambda>p. if p = ''./../etc/passwd'' then Some (FsRegular ''root'' ''t'') else None"
  let ?req = "HttpRequestImpl\<lparr>rq_method := Get, rq_path := ''/a/../../etc/passwd''\<rparr>"
  have out: "\<not> within_root ''../etc/passwd''" "\<not> within_root (rq_path ?req)" by (simp_all add: within_root_def fs_comps_def)
  then have "None = ?fs (''./'' @ p)" if "within_root p" for p using that by auto
  note c = fallback_contained [of ?req "\<lambda>_. None" ?fs newHttpResponse False "[]", OF _ this]
  have "NUL \<notin> set (rq_path ?req)" by simp
  from c [OF this] out(2) show ?thesis unfolding Let_def by blast
qed

section \<open>Ranges of a file\<close>

lemma addModified_frame [simp]:
  "statusCode (addModified t r) = statusCode r" "body (addModified t r) = body r"
  "sendfileName (addModified t r) = sendfileName r" "sendfileRange (addModified t r) = sendfileRange r"
  by (simp_all add: addModified_def addHeader_def)

lemma addModified_range [simp]: "getHeader ''Content-Range'' (addModified t r) = getHeader ''Content-Range'' r"
proof -
  have "map tolower ''Content-Range'' \<noteq> map tolower ''Expires''" "map tolower ''Content-Range'' \<noteq> map tolower ''Last-Modified''"
    by code_simp+
  then show ?thesis by (simp add: addModified_def getHeader_addHeader_other)
qed

lemma all_slices_bound: "(a, e) \<in> set (all_slices N specs) \<Longrightarrow> a < e \<and> e \<le> N"
  using slice_bounds by (auto simp: all_slices_def)

text \<open>The first range of a well-formed header that the file can satisfy.\<close>

definition asks_for :: "string \<Rightarrow> (nat \<times> range_spec) list \<Rightarrow> nat \<Rightarrow> nat \<Rightarrow> nat \<Rightarrow> bool" where
  "asks_for h specs N a e \<longleftrightarrow> h = ''bytes='' @ ranges_text specs \<and> specs \<noteq> [] \<and> (\<forall>(k, x)\<in>set specs. spec_fits x)
     \<and> length (all_slices N specs) \<le> 100 \<and> slices_size (all_slices N specs) \<le> N
     \<and> all_slices N specs \<noteq> [] \<and> hd (all_slices N specs) = (a, e)"

lemma asks_for_parse:
  assumes "asks_for h specs N a e" and "N < 2 ^ 63"
  shows "\<exists>res ranges. parseRangeHeader h (of_nat N) = (res, ranges) \<and> res \<noteq> InvalidRange \<and> res \<noteq> NotSatisfiable
    \<and> hd ranges = mk_range (a, e)"
proof -
  have "N < 2 ^ 64" by (rule less_trans [OF assms(2)]) simp
  then have N: "unat (of_nat N :: size_t) = N" by (rule of_nat_size)
  let ?ys = "all_slices N specs"
  have "parseRangeHeader h (of_nat N) = (if length ?ys = 1 then SinglePart else MultiPart, map mk_range ?ys)"
    using parse_ranges_text [of specs "of_nat N"] assms(1) by (simp add: asks_for_def N Let_def)
  moreover have "hd (map mk_range ?ys) = mk_range (a, e)" using assms(1) by (cases ?ys) (simp_all add: asks_for_def)
  ultimately show ?thesis by simp
qed

lemma rangeResponse_eq:
  assumes "asks_for (rq_getHeaderBy ''range'' req) specs (length content) a e" and "length content < 2 ^ 63"
    and "rq_getHeaderBy ''if-range'' req \<in> {[], mtime}"
  shows "rangeResponse nf sf fs p (content, mtime) req =
    Some (addModified mtime (fileResponse nf sf fs p p (of_nat a) (of_nat (e - a)) True))"
proof -
  obtain res ranges where r: "parseRangeHeader (rq_getHeaderBy ''range'' req) (of_nat (length content)) = (res, ranges)"
    and res: "res \<noteq> InvalidRange" "res \<noteq> NotSatisfiable" and h: "hd ranges = mk_range (a, e)"
    using asks_for_parse [OF assms(1,2)] by blast
  have "a < e" using assms(1) all_slices_bound [of a e "length content" specs] by (auto simp: asks_for_def dest: list.set_sel(1))
  then have "of_nat e - of_nat a = (of_nat (e - a) :: size_t)" by (simp add: of_nat_diff)
  with r res h assms(3) show ?thesis
    by (cases res) (auto simp: rangeResponse_def Let_def mk_range_def)
qed

text \<open>(C24) A range request gets its slice.  For a \<^verbatim>\<open>GET\<close> of a regular file with a well-formed \<^verbatim>\<open>Range\<close> header
  that the file can satisfy (and no precondition that answers it first), the response carries exactly the bytes of
  the first range asked for, with status 206 (200 if that is the whole file) and a \<^verbatim>\<open>Content-Range\<close> that
  says so, and nothing is cached.\<close>

theorem range_request_served:
  assumes "rq_method req = Get" and "sr_enableRange sr" and "getFileStat fs p = Some (content, mtime)"
    and "length content < 2 ^ 63" and "rq_getHeaderBy ''if-modified-since'' req \<noteq> mtime"
    and "rq_getHeaderBy ''if-range'' req \<in> {[], mtime}"
    and "asks_for (rq_getHeaderBy ''range'' req) specs (length content) a e"
  shows "case sendStaticFileResponse nf sf fs p req ct sr of (r, sr') \<Rightarrow> sr' = sr
    \<and> statusCode r = (if e - a < length content then 206 else 200)
    \<and> (if sf \<and> e - a > 204800 then sendfileName r = p \<and> sendfileRange r = (of_nat a, of_nat (e - a))
       else sendfileName r = [] \<and> body r = Some (take (e - a) (drop a content)))
    \<and> getHeader ''Content-Range'' r = ''bytes '' @ nat_to_dec a @ ''-'' @ nat_to_dec (e - 1) @ ''/'' @ nat_to_dec (length content)"
proof -
  have ae: "a < e" "e \<le> length content"
    using assms(7) all_slices_bound [of a e "length content" specs] by (auto simp: asks_for_def dest: list.set_sel(1))
  have lt: "e < 2 ^ 64" using ae(2) assms(4) by (rule le_less_trans [THEN less_trans]) simp
  define d where "d = e - a"
  have d: "e - a = d" "a + d - Suc 0 = e - Suc 0" "0 < d" "a + d \<le> length content" using ae by (auto simp: d_def)
  have u: "unat (of_nat a :: size_t) = a" "unat (of_nat d :: size_t) = d"
    by (rule of_nat_size, use lt ae(1) d_def in linarith)+
  obtain ct' mime where f: "fileNameToContentTypeAndMime (\<lambda>_. None) p = (ct', mime)" by fastforce
  let ?r = "newFileResponse nf sf (Some content) p (of_nat a) (of_nat d) True [] ct' mime"
  have "rq_getHeaderBy ''range'' req \<noteq> []" using assms(7) by (auto simp: asks_for_def)
  then have s: "sendStaticFileResponse nf sf fs p req ct sr = (addModified mtime ?r, sr)"
    using assms(1-3,5) rangeResponse_eq [OF assms(7,4,6)] by (simp add: sendStaticFileResponse_def fileResponse_def f d(1))
  have "(of_nat d :: size_t) \<noteq> 0" using u(2) d(3) by (metis unat_0 less_irrefl)
  then have n: "served_length content (of_nat a) (of_nat d) = d" using u by (simp add: served_length_def)
  note slice = file_response_slice [OF assms(4), of nf sf p "of_nat a" "of_nat d" True "[]" ct' mime, unfolded Let_def n u]
  have "statusCode ?r = (if d < length content then 206 else 200)"
    "if sf \<and> d > 204800 then sendfileName ?r = p \<and> sendfileRange ?r = (of_nat a, of_nat d)
     else sendfileName ?r = [] \<and> body ?r = Some (take d (drop a content))"
    "getHeader ''Content-Range'' ?r = ''bytes '' @ nat_to_dec a @ ''-'' @ nat_to_dec (e - 1) @ ''/'' @ nat_to_dec (length content)"
    using slice d(2-4) by (simp_all only: linorder_not_less [symmetric] if_False simp_thms One_nat_def) blast
  then show ?thesis unfolding s prod.case d(1) by (simp only: addModified_frame addModified_range simp_thms)
qed

lemma range_request_served_witness:
  "let req = HttpRequestImpl\<lparr>rq_method := Get, rq_headers := [(''range'', ''bytes=2-3'')]\<rparr>;
       r = fst (sendStaticFileResponse newHttpResponse False (\<lambda>p. Some (FsRegular ''abcdef'' ''t'')) ''./x.txt'' req [] default_static_router)
   in statusCode r = 206 \<and> body r = Some ''cd'' \<and> getHeader ''Content-Range'' r = ''bytes 2-3/6''"
proof -
  let ?req = "HttpRequestImpl\<lparr>rq_method := Get, rq_headers := [(''range'', ''bytes=2-3'')]\<rparr>"
  have g: "getFileStat (\<lambda>p. Some (FsRegular ''abcdef'' ''t'')) ''./x.txt'' = Some (''abcdef'', ''t'')"
    by (simp add: getFileStat_def fs_at_def)
  have "all_slices 6 [(0, Between 2 3)] = [(2, 4)]" by (simp add: all_slices_def spec_slice_def)
  moreover have "ranges_text [(0, Between 2 3)] = ''2-3''" by (simp add: nat_to_dec.simps)
  ultimately have a: "asks_for (rq_getHeaderBy ''range'' ?req) [(0, Between 2 3)] 6 2 4"
    by (simp add: asks_for_def rq_getHeaderBy_def slices_size_def)
  have L: "length ''abcdef'' = 6" by simp
  have d: "nat_to_dec 2 = ''2''" "nat_to_dec (4 - 1) = ''3''" "nat_to_dec 6 = ''6''" by (simp_all add: nat_to_dec.simps)
  have t: "take (4 - 2) (drop 2 ''abcdef'') = ''cd''" by simp
  have h: "rq_getHeaderBy ''if-modified-since'' ?req \<noteq> ''t''" "rq_getHeaderBy ''if-range'' ?req \<in> {[], ''t''}"
    "sr_enableRange default_static_router" "rq_method ?req = Get"
    by (simp_all add: rq_getHeaderBy_def HttpRequestImpl_def default_static_router_def)
  show ?thesis
    using range_request_served [where nf = newHttpResponse and sf = False and ct = "[]", OF h(4,3) g _ h(1,2), unfolded L,
        OF _ a, unfolded d t]
    unfolding Let_def by (auto split: prod.splits)
qed

section \<open>What the fallback gives away\<close>

lemma cstr_cut: "NUL \<notin> set p \<Longrightarrow> c_str (p @ NUL # s) = p"
  by (induction p) (auto simp: c_str_def)

lemma lowerExtName_txt: "lowerExtName (p @ ''.txt'') = ''txt''"
  by (simp add: lowerExtName_def tolower_def)

text \<open>A plain request for a file that the fallback finds and whose extension it accepts.\<close>

lemma fallback_sends:
  assumes "rq_method req = Get" and "rq_headers req = []" and "\<not> contains ''..'' (rq_path req)"
    and "fs (c_str (''./'' @ rq_path req)) = Some (FsRegular content mtime)" and "mtime \<noteq> []"
    and "lowerExtName (rq_path req) = ''txt''" and "CHR ''.'' \<in> set (rq_path req)" and "length content < 2 ^ 63"
  shows "case fst (static_route nf False fs req (fallback_router [])) of r \<Rightarrow> statusCode r = 200 \<and> body r = Some content"
proof -
  let ?p = "''./'' @ rq_path req" and ?sr = "fallback_router []"
  have st: "getFileStat fs ?p = Some (content, mtime)" using assms(4) by (simp add: getFileStat_def fs_at_def)
  have root: "rootFile fs (rq_path req) ?sr = Inr ?p"
    using assms(4,6,7) by (simp add: rootFile_def fs_at_def fallback_router_def default_static_router_def)
  have route: "static_route nf False fs req ?sr = sendStaticFileResponse nf False fs ?p req [] ?sr"
    using assms(3) by (simp add: fallback_route root sendFound_def)
  obtain ct mime where f: "fileNameToContentTypeAndMime (\<lambda>_. None) ?p = (ct, mime)" by fastforce
  let ?r = "newFileResponse nf False (Some content) ?p 0 0 False [] ct mime"
  have w: "wholeFile nf False fs ?p req ?sr = ?r"
    using assms(2) st f by (simp add: wholeFile_def rq_getHeaderBy_def fileResponse_def has_prefix_def)
  have r: "statusCode ?r = 200" "body ?r = Some content"
    using file_response_slice [OF assms(8), of nf False ?p 0 0 False "[]" ct mime] by (simp_all add: served_length_def Let_def)
  have "sendStaticFileResponse nf False fs ?p req [] ?sr = finishFile ?p mtime [] ?r ?sr"
    using assms(1,2,5) st
    by (simp add: sendStaticFileResponse_def sendWhole_def w [simplified] rq_getHeaderBy_def)
  then show ?thesis
    using r by (simp add: route finishFile_def Let_def addHeader_def)
qed

lemma urlDecode_plain_append: "\<not> needUrlDecoding p \<Longrightarrow> urlDecode (p @ s) = p @ urlDecode s"
  by (induction p) (auto simp: needUrlDecoding_def)

lemma contains_append_nul: "\<not> contains ''..'' p \<Longrightarrow> \<not> contains ''..'' (p @ NUL # ''.txt'')"
proof (induction p)
  case (Cons c p)
  then show ?case by (cases p) (auto simp: has_prefix_def)
qed (simp add: has_prefix_def)



end
