(* ===== verification/Server.thy ===== *)
theory Server
  imports CppRoutes WsDelivery WsClient StaticFiles Router
begin

text \<open>
  \<^verbatim>\<open>src/src/drogon_server.cpp\<close> and the rest of \<^verbatim>\<open>src/src/r_dispatcher.cpp\<close>: registration of routes, starting
  and stopping, the wake pipe with its watch in \<^verbatim>\<open>later\<close>, and the dispatcher that drains all queues.  The
  components of the other theories are put together into one state.  R's evaluator, the hooks, the regular
  expressions, the clock and the operating system are parameters; HTTP handlers evaluated by the dispatcher
  do not call back into the package in this model, hooks of WebSocket routes and clients do.
\<close>

section \<open>State\<close>

record cpp_route =
  cp_method :: string
  cp_path :: string
  cp_regex :: string
  cp_param_names :: "string list"
  cp_fn :: nat

record cpp_stream_route =
  cst_method :: string
  cst_path :: string
  cst_regex :: string
  cst_param_names :: "string list"
  cst_fn :: nat
  cst_content_type :: string

text \<open>The lambdas given to Drogon, with what they capture.\<close>

datatype handler =
    RHandler int RouteLimiters
  | CppHandler nat RouteLimiters
  | CppStreamHandler nat string RouteLimiters
  | StaticHandler string
  | WsController

record drogon_app =
  app_router :: "handler router"
  app_threads :: int
  app_uploadPath :: string
  app_listeners :: "int list"
  app_logLevel :: "nat option"
  app_runs :: nat              \<comment> \<open>ghost: how often \<^verbatim>\<open>run()\<close> was entered\<close>

record 'w server =
  sv_disp :: "'w dispatcher"   \<comment> \<open>with \<^verbatim>\<open>g_routes\<close> and the stream sessions\<close>
  g_cppRoutes :: "cpp_route list"
  g_cppStreamRoutes :: "cpp_stream_route list"
  g_staticMounts :: "StaticMount list"
  g_rateLimitRules :: "RateLimitRule list"
  g_running :: bool
  g_everStarted :: bool
  g_wakePipe :: "int \<times> int"
  g_dispatcherFd :: int
  g_later_fd :: bool
  sv_watches :: "int list"     \<comment> \<open>descriptors watched by \<^verbatim>\<open>later\<close>\<close>
  sv_queue :: "pending_request reqqueue"
  g_cppWorkerPool :: "int option"
  sv_limiters :: limheap
  sv_hooklog :: "(sexp \<times> sexp list) list"  \<comment> \<open>ghost: hooks called for server connections\<close>
  sv_preserved :: preserved    \<comment> \<open>the handlers of \<^verbatim>\<open>g_routes\<close>\<close>
  sv_ws :: wsys
  sv_clients :: wcsys
  sv_app :: drogon_app
  sv_env :: "string option"    \<comment> \<open>\<^verbatim>\<open>DROGONR_LOG_LEVEL\<close>\<close>

abbreviation sv_routes :: "'w server \<Rightarrow> route list" where
  "sv_routes sv \<equiv> ds_routes (sv_disp sv)"

datatype server_error =
    NotInitialized | PipeFailed | AlreadyRunning | CannotRestart
  | BadPort | BadThreads | BadUploadPath | BadMaxQueue | BadWorkers
  | PortRange | ThreadsRange | QueueRange | WorkersRange
  | RoutesLocked | BadMethod | BadPath | BadRegex | BadParamNames | BadHandler | BadPointer | NullPointer | BadContentType
  | BadPackage | BadCallable | NoCallable

section \<open>The dispatcher's wake pipe\<close>

definition serverRunning :: "'w server \<Rightarrow> bool" where
  "serverRunning sv = g_running sv"

definition log_levels :: "(string \<times> nat) list" where
  "log_levels = [(''trace'', 0), (''debug'', 1), (''info'', 2), (''warn'', 3), (''error'', 4), (''fatal'', 5)]"

definition applyLogLevelFromEnv :: "'w server \<Rightarrow> 'w server" where
  "applyLogLevelFromEnv sv =
     (case sv_env sv of
        None \<Rightarrow> sv
      | Some lvl \<Rightarrow>
          (case map_of log_levels (map tolower lvl) of
             None \<Rightarrow> sv
           | Some n \<Rightarrow> sv\<lparr>sv_app := (sv_app sv)\<lparr>app_logLevel := Some n\<rparr>\<rparr>))"

definition registerDispatcherFd :: "int \<Rightarrow> 'w server \<Rightarrow> server_error option \<times> 'w server" where
  "registerDispatcherFd readFd sv =
     (if \<not> g_later_fd sv then (Some NotInitialized, sv)
      else (None, sv\<lparr>g_dispatcherFd := readFd, sv_watches := sv_watches sv @ [readFd]\<rparr>))"

definition unregisterDispatcherFd :: "'w server \<Rightarrow> 'w server" where
  "unregisterDispatcherFd sv = sv\<lparr>g_dispatcherFd := - 1\<rparr>"

text \<open>\<open>os\<close> is the answer of the operating system to the creation of a pipe.\<close>

definition ensureDispatcherRunning :: "(int \<times> int) option \<Rightarrow> 'w server \<Rightarrow> server_error option \<times> 'w server" where
  "ensureDispatcherRunning os sv0 =
     (let sv = applyLogLevelFromEnv sv0
      in if fst (g_wakePipe sv) \<noteq> - 1 then (None, sv)
         else case makeWakePipe os (g_wakePipe sv) of
                (rc, fds) \<Rightarrow>
                  if rc \<noteq> 0 then (Some PipeFailed, sv)
                  else registerDispatcherFd (fst fds)
                         (sv\<lparr>g_wakePipe := fds, sv_queue := initQueueWakeup (fst fds) (snd fds) (sv_queue sv)\<rparr>))"

definition shutdownDispatcher :: "'w server \<Rightarrow> 'w server" where
  "shutdownDispatcher sv =
     (if fst (g_wakePipe sv) = - 1 then sv
      else let sv1 = unregisterDispatcherFd sv
           in sv1\<lparr>sv_queue := resetQueueWakeup (sv_queue sv1), g_wakePipe := (- 1, - 1)\<rparr>)"

text \<open>\<^verbatim>\<open>.onLoad\<close>: \<open>fd_fn\<close> and \<open>l_fn\<close> tell whether \<^verbatim>\<open>later\<close> exports the two functions.\<close>

definition drogonR_init_later :: "bool \<Rightarrow> bool \<Rightarrow> 'w server \<Rightarrow> server_error option \<times> 'w server" where
  "drogonR_init_later fd_fn l_fn sv =
     (if g_later_fd sv \<and> g_later (ds_streams (sv_disp sv)) then (None, sv)
      else if \<not> fd_fn then (Some NoCallable, sv)
      else let sv1 = sv\<lparr>g_later_fd := True\<rparr>
           in if \<not> l_fn then (Some NoCallable, sv1)
              else (None, sv1\<lparr>sv_disp := (sv_disp sv1)\<lparr>ds_streams := (ds_streams (sv_disp sv1))\<lparr>g_later := True\<rparr>\<rparr>\<rparr>))"

section \<open>Registration\<close>

definition methodFromString :: "string \<Rightarrow> HttpMethod" where
  "methodFromString m =
     (if m = ''GET'' then Get else if m = ''POST'' then Post else if m = ''PUT'' then Put
      else if m = ''DELETE'' then Delete else if m = ''PATCH'' then Patch else if m = ''HEAD'' then Head
      else if m = ''OPTIONS'' then Options else Get)"

fun as_strings :: "sexp \<Rightarrow> string list option" where
  "as_strings (STRSXP _ cs) = Some (map R_CHAR cs)"
| "as_strings _ = None"

text \<open>The arguments that the three kinds of routes share.\<close>

definition route_args ::
  "bool \<Rightarrow> sexp \<Rightarrow> sexp \<Rightarrow> sexp \<Rightarrow> sexp \<Rightarrow> server_error + (string \<times> string \<times> string \<times> string list)" where
  "route_args running method_s path_s regex_s names_s =
     (if running then Inl RoutesLocked
      else case as_one_string method_s of None \<Rightarrow> Inl BadMethod | Some m \<Rightarrow>
           (case as_one_string path_s of None \<Rightarrow> Inl BadPath | Some p \<Rightarrow>
             (case as_one_string regex_s of None \<Rightarrow> Inl BadRegex | Some rx \<Rightarrow>
               (case as_strings names_s of None \<Rightarrow> Inl BadParamNames | Some ns \<Rightarrow> Inr (m, p, rx, ns)))))"

definition drogonR_register_route ::
  "sexp \<Rightarrow> sexp \<Rightarrow> sexp \<Rightarrow> sexp \<Rightarrow> sexp \<Rightarrow> 'w server \<Rightarrow> (server_error + int) \<times> 'w server" where
  "drogonR_register_route method_s path_s regex_s names_s handler_s sv =
     (case route_args (g_running sv) method_s path_s regex_s names_s of
        Inl e \<Rightarrow> (Inl e, sv)
      | Inr (m, p, rx, ns) \<Rightarrow>
          if \<not> is_closure handler_s then (Inl BadHandler, sv)
          else
            let r = \<lparr>rt_method = m, rt_path = p, rt_regex = rx, rt_param_names = ns, rt_handler = handler_s\<rparr>
            in (Inr (int (length (sv_routes sv))),
                sv\<lparr>sv_preserved := preserve handler_s (sv_preserved sv),
                   sv_disp := (sv_disp sv)\<lparr>ds_routes := sv_routes sv @ [r]\<rparr>\<rparr>))"

fun ext_ptr :: "sexp \<Rightarrow> server_error + nat" where
  "ext_ptr (EXTPTRSXP raw) = (if raw = 0 then Inl NullPointer else Inr raw)"
| "ext_ptr _ = Inl BadPointer"

definition drogonR_register_cpp_route ::
  "sexp \<Rightarrow> sexp \<Rightarrow> sexp \<Rightarrow> sexp \<Rightarrow> sexp \<Rightarrow> 'w server \<Rightarrow> server_error option \<times> 'w server" where
  "drogonR_register_cpp_route method_s path_s regex_s names_s ptr_s sv =
     (case route_args (g_running sv) method_s path_s regex_s names_s of
        Inl e \<Rightarrow> (Some e, sv)
      | Inr (m, p, rx, ns) \<Rightarrow>
          (case ext_ptr ptr_s of
             Inl e \<Rightarrow> (Some e, sv)
           | Inr raw \<Rightarrow>
               (None, sv\<lparr>g_cppRoutes := g_cppRoutes sv @
                  [\<lparr>cp_method = m, cp_path = p, cp_regex = rx, cp_param_names = ns, cp_fn = raw\<rparr>]\<rparr>)))"

text \<open>The pointer's type is checked before the content type, its address after it.\<close>

fun is_ext_ptr :: "sexp \<Rightarrow> bool" where
  "is_ext_ptr (EXTPTRSXP _) = True" | "is_ext_ptr _ = False"

fun content_type_arg :: "sexp \<Rightarrow> string option" where
  "content_type_arg (STRSXP _ [NA_STRING]) = Some []"
| "content_type_arg (STRSXP _ [Chr s]) = Some (c_str s)"
| "content_type_arg _ = None"

definition drogonR_register_cpp_stream_route ::
  "sexp \<Rightarrow> sexp \<Rightarrow> sexp \<Rightarrow> sexp \<Rightarrow> sexp \<Rightarrow> sexp \<Rightarrow> 'w server \<Rightarrow> server_error option \<times> 'w server" where
  "drogonR_register_cpp_stream_route method_s path_s regex_s names_s ptr_s ct_s sv =
     (case route_args (g_running sv) method_s path_s regex_s names_s of
        Inl e \<Rightarrow> (Some e, sv)
      | Inr (m, p, rx, ns) \<Rightarrow>
          if \<not> is_ext_ptr ptr_s then (Some BadPointer, sv)
          else case content_type_arg ct_s of
                 None \<Rightarrow> (Some BadContentType, sv)
               | Some ct \<Rightarrow>
                   (case ext_ptr ptr_s of
                      Inl e \<Rightarrow> (Some e, sv)
                    | Inr raw \<Rightarrow>
                        (None, sv\<lparr>g_cppStreamRoutes := g_cppStreamRoutes sv @
                           [\<lparr>cst_method = m, cst_path = p, cst_regex = rx, cst_param_names = ns, cst_fn = raw,
                             cst_content_type = ct\<rparr>]\<rparr>)))"

text \<open>\<open>callable\<close> is \<^verbatim>\<open>R_GetCCallable\<close>; 0 is the null pointer.\<close>

definition drogonR_resolve_ccallable :: "(string \<Rightarrow> string \<Rightarrow> nat) \<Rightarrow> sexp \<Rightarrow> sexp \<Rightarrow> server_error + sexp" where
  "drogonR_resolve_ccallable callable package_s callable_s =
     (case as_one_string package_s of
        None \<Rightarrow> Inl BadPackage
      | Some pkg \<Rightarrow>
          (case as_one_string callable_s of
             None \<Rightarrow> Inl BadCallable
           | Some cal \<Rightarrow> if callable pkg cal = 0 then Inl NoCallable else Inr (EXTPTRSXP (callable pkg cal))))"

definition drogonR_clear_routes :: "'w server \<Rightarrow> server_error option \<times> 'w server" where
  "drogonR_clear_routes sv =
     (if g_running sv then (Some RoutesLocked, sv)
      else (None, sv\<lparr>sv_preserved := fold (\<lambda>r. release_hook (rt_handler r)) (sv_routes sv) (sv_preserved sv),
                     sv_disp := (sv_disp sv)\<lparr>ds_routes := []\<rparr>,
                     g_cppRoutes := [], g_cppStreamRoutes := [], g_staticMounts := [], g_rateLimitRules := []\<rparr>))"

section \<open>Starting and stopping\<close>

text \<open>What installing a route has in common: its limiters are built, then the lambda that captures them is registered.\<close>

definition installHandler ::
  "(nat \<Rightarrow> int) \<Rightarrow> string \<Rightarrow> string \<Rightarrow> HttpMethod \<Rightarrow> (RouteLimiters \<Rightarrow> handler) \<Rightarrow> 'w server \<Rightarrow> 'w server" where
  "installHandler clk path regex method lambda sv =
     (case buildLimitersForPath clk path (g_rateLimitRules sv) (sv_limiters sv) of
        (rules, rl, h) \<Rightarrow>
          sv\<lparr>g_rateLimitRules := rules, sv_limiters := h,
             sv_app := (sv_app sv)\<lparr>app_router := addHttpRegex regex (lambda rl) [method] (app_router (sv_app sv))\<rparr>\<rparr>)"

definition installDrogonHandler :: "(nat \<Rightarrow> int) \<Rightarrow> nat \<times> route \<Rightarrow> 'w server \<Rightarrow> 'w server" where
  "installDrogonHandler clk ir sv =
     (case ir of (i, r) \<Rightarrow>
        installHandler clk (rt_path r) (rt_regex r) (methodFromString (rt_method r)) (RHandler (int i)) sv)"

definition installCppHandler :: "(nat \<Rightarrow> int) \<Rightarrow> cpp_route \<Rightarrow> 'w server \<Rightarrow> 'w server" where
  "installCppHandler clk r sv =
     installHandler clk (cp_path r) (cp_regex r) (methodFromString (cp_method r)) (CppHandler (cp_fn r)) sv"

definition installCppStreamHandler :: "(nat \<Rightarrow> int) \<Rightarrow> cpp_stream_route \<Rightarrow> 'w server \<Rightarrow> 'w server" where
  "installCppStreamHandler clk r sv =
     installHandler clk (cst_path r) (cst_regex r) (methodFromString (cst_method r))
       (CppStreamHandler (cst_fn r) (if cst_content_type r = [] then ''text/event-stream'' else cst_content_type r)) sv"

definition installStaticMount :: "StaticMount \<Rightarrow> 'w server \<Rightarrow> 'w server" where
  "installStaticMount sm sv =
     sv\<lparr>sv_app := (sv_app sv)\<lparr>app_router :=
          addHttpRegex (static_regex sm) (StaticHandler (dir sm)) [Get, Head] (app_router (sv_app sv))\<rparr>\<rparr>"

definition installWsControllers :: "'w server \<Rightarrow> 'w server" where
  "installWsControllers sv =
     (case installWsRoutes (sv_ws sv) of
        (paths, _, ws) \<Rightarrow>
          sv\<lparr>sv_ws := ws,
             sv_app := (sv_app sv)\<lparr>app_router :=
               fold (\<lambda>path. registerWebSocketController path WsController []) paths (app_router (sv_app sv))\<rparr>\<rparr>)"

definition installRoutes :: "(nat \<Rightarrow> int) \<Rightarrow> 'w server \<Rightarrow> 'w server" where
  "installRoutes clk sv =
     (let sv1 = fold (installDrogonHandler clk) (enumerate 0 (sv_routes sv)) sv;
          sv2 = fold (installCppHandler clk) (g_cppRoutes sv1) sv1;
          sv3 = fold (installCppStreamHandler clk) (g_cppStreamRoutes sv2) sv2
      in fold installStaticMount (g_staticMounts sv3) sv3)"

definition installAll :: "(nat \<Rightarrow> int) \<Rightarrow> 'w server \<Rightarrow> 'w server" where
  "installAll clk sv = installWsControllers (installRoutes clk sv)"

text \<open>\<^verbatim>\<open>run()\<close> fixes the routers before the first request is taken.\<close>

definition runApp :: "int \<Rightarrow> int \<Rightarrow> string \<Rightarrow> 'w server \<Rightarrow> 'w server" where
  "runApp port threads upload sv0 =
     (let sv = applyLogLevelFromEnv
            (sv0\<lparr>sv_app := (sv_app sv0)\<lparr>app_threads := threads, app_uploadPath := upload\<rparr>\<rparr>)
      in sv\<lparr>g_running := True, g_everStarted := True,
            sv_app := (sv_app sv)\<lparr>app_listeners := app_listeners (sv_app sv) @ [port], app_runs := Suc (app_runs (sv_app sv)),
              app_router := router_init (app_router (sv_app sv))\<rparr>\<rparr>)"

definition startApp :: "(nat \<Rightarrow> int) \<Rightarrow> int \<Rightarrow> int \<Rightarrow> string \<Rightarrow> int \<Rightarrow> int \<Rightarrow> 'w server \<Rightarrow> 'w server" where
  "startApp clk port threads upload max_queue cpp_workers sv =
     runApp port threads upload
       (installAll clk
          (sv\<lparr>sv_queue := setQueueMaxSize (nat max_queue) (sv_queue sv),
              g_cppWorkerPool := Some (case g_cppWorkerPool sv of None \<Rightarrow> cpp_workers | Some n \<Rightarrow> n)\<rparr>))"

fun int_arg :: "sexp \<Rightarrow> int option" where
  "int_arg (INTSXP _ [n]) = Some n"
| "int_arg _ = None"

definition start_args :: "sexp \<Rightarrow> sexp \<Rightarrow> sexp \<Rightarrow> sexp \<Rightarrow> sexp \<Rightarrow> server_error + (int \<times> int \<times> string \<times> int \<times> int)" where
  "start_args port_s threads_s upload_s queue_s workers_s =
     (case int_arg port_s of None \<Rightarrow> Inl BadPort | Some port \<Rightarrow>
       (case int_arg threads_s of None \<Rightarrow> Inl BadThreads | Some threads \<Rightarrow>
         (case as_one_string upload_s of None \<Rightarrow> Inl BadUploadPath | Some upload \<Rightarrow>
           (case int_arg queue_s of None \<Rightarrow> Inl BadMaxQueue | Some max_queue \<Rightarrow>
             (case int_arg workers_s of None \<Rightarrow> Inl BadWorkers | Some cpp_workers \<Rightarrow>
                if port \<le> 0 \<or> port > 65535 then Inl PortRange
                else if threads < 1 then Inl ThreadsRange
                else if max_queue < 1 then Inl QueueRange
                else if cpp_workers < 1 then Inl WorkersRange
                else Inr (port, threads, upload, max_queue, cpp_workers))))))"

definition drogonR_server_start ::
  "(nat \<Rightarrow> int) \<Rightarrow> (int \<times> int) option \<Rightarrow> sexp \<Rightarrow> sexp \<Rightarrow> sexp \<Rightarrow> sexp \<Rightarrow> sexp \<Rightarrow> 'w server \<Rightarrow> server_error option \<times> 'w server" where
  "drogonR_server_start clk os port_s threads_s upload_s queue_s workers_s sv =
     (if \<not> g_later_fd sv then (Some NotInitialized, sv)
      else if g_running sv then (Some AlreadyRunning, sv)
      else if g_everStarted sv then (Some CannotRestart, sv)
      else case start_args port_s threads_s upload_s queue_s workers_s of
             Inl e \<Rightarrow> (Some e, sv)
           | Inr (port, threads, upload, max_queue, cpp_workers) \<Rightarrow>
               (case ensureDispatcherRunning os sv of
                  (Some e, sv1) \<Rightarrow> (Some e, sv1)
                | (None, sv1) \<Rightarrow> (None, startApp clk port threads upload max_queue cpp_workers sv1)))"

text \<open>The I/O loops have been joined before the tables are cleared.\<close>

definition drogonR_server_stop :: "'w server \<Rightarrow> 'w server" where
  "drogonR_server_stop sv =
     (if \<not> g_running sv then sv
      else
        let sv1 = shutdownDispatcher (sv\<lparr>g_running := False, sv_queue := setQueueMaxSize 0 (sv_queue sv)\<rparr>)
        in sv1\<lparr>sv_disp := (sv_disp sv1)\<lparr>ds_streams := clearAllStreamSessions (joinLoops (ds_streams (sv_disp sv1)))\<rparr>,
               sv_ws := clearAllWsSessions (sv_ws sv1), g_cppWorkerPool := None\<rparr>)"

definition drogonR_server_running :: "'w server \<Rightarrow> sexp" where
  "drogonR_server_running sv = LGLSXP no_attr [if g_running sv then 1 else 0]"

text \<open>Called in a forked child, which has none of the threads; not an operation of a session.\<close>

definition drogonR_reset_fork_state :: "'w server \<Rightarrow> 'w server" where
  "drogonR_reset_fork_state sv = sv\<lparr>g_running := False, g_everStarted := False\<rparr>"

section \<open>The dispatcher\<close>

text \<open>What the server calls and this model does not fix.\<close>

record 'w runtime =
  ev_int :: int                \<comment> \<open>results of conversions that are undefined\<close>
  ev_u64 :: uint64
  ev_r :: "'w r_api"
  ev_drogon :: "nat \<Rightarrow> response \<Rightarrow> response \<times> bool"
  ev_hooks :: "'w hook_oracle"
  ev_clientHooks :: "'w client_oracle"
  ev_creates :: "string \<Rightarrow> bool"
  ev_regex :: regex
  ev_homePage :: string

definition runDispatcher :: "'w runtime \<Rightarrow> 'w server \<Rightarrow> 'w server" where
  "runDispatcher E sv =
     (if g_dispatcherFd sv < 0 then sv
      else
        let (items, q) = drainQueue (drainWakePipe (sv_queue sv));
            d = dispatchRequests (ev_int E) (ev_r E) (ev_drogon E) items (sv_disp sv);
            (w1, hooklog, ws) = drainWsEvents (ev_u64 E) (ev_hooks E) (ds_world d, sv_hooklog sv, sv_ws sv);
            (w2, cl) = drainWsClientEvents (ev_creates E) (ev_u64 E) (ev_clientHooks E) (w1, sv_clients sv)
        in sv\<lparr>sv_queue := q, sv_disp := d\<lparr>ds_world := w2\<rparr>, sv_hooklog := hooklog, sv_ws := ws, sv_clients := cl,
              sv_watches := sv_watches sv @ [g_dispatcherFd sv]\<rparr>)"

text \<open>\<^verbatim>\<open>later\<close> calls back once for each watch: the descriptor is readable, was closed, or ten minutes are over.\<close>

definition fireWatch :: "'w runtime \<Rightarrow> nat \<Rightarrow> 'w server \<Rightarrow> 'w server" where
  "fireWatch E n sv =
     (if n < length (sv_watches sv)
      then runDispatcher E (sv\<lparr>sv_watches := take n (sv_watches sv) @ drop (Suc n) (sv_watches sv)\<rparr>)
      else sv)"

text \<open>Opening a client brings up the loop and the dispatcher before anything else.\<close>

definition wsConnect ::
  "'w runtime \<Rightarrow> (int \<times> int) option \<Rightarrow> sexp \<Rightarrow> sexp \<Rightarrow> sexp \<Rightarrow> sexp \<Rightarrow> sexp \<Rightarrow> 'w server \<Rightarrow> 'w server" where
  "wsConnect E os host path on_message on_open on_close sv =
     (if as_one_string host = None \<or> as_one_string path = None then sv
      else case ensureDispatcherRunning os (sv\<lparr>sv_clients := ensureClientLoop (sv_clients sv)\<rparr>) of
             (Some _, sv1) \<Rightarrow> sv1
           | (None, sv1) \<Rightarrow>
               sv1\<lparr>sv_clients := snd (drogonR_ws_connect (ev_creates E) host path on_message on_open on_close (sv_clients sv1))\<rparr>)"

text \<open>A request on an I/O thread.  Native backends and files answer without touching this state.\<close>

definition ioRequest :: "'w runtime \<Rightarrow> (nat \<Rightarrow> int) \<Rightarrow> nat \<Rightarrow> nat \<Rightarrow> bool option \<Rightarrow> request \<Rightarrow> 'w server \<Rightarrow> 'w server" where
  "ioRequest E clk eintr cb conn req sv =
     (if \<not> g_running sv then sv
      else case onHttpRequest (ev_regex E) (ev_homePage E) (app_router (sv_app sv)) (headToGet req) of
             Handled (RHandler i rl) req1 \<Rightarrow>
               (let (answer, q, h) = rHandler (ev_int E) clk eintr i rl cb conn req1 (sv_queue sv, sv_limiters sv)
                in sv\<lparr>sv_queue := q, sv_limiters := h,
                      sv_disp := (sv_disp sv)\<lparr>ds_responses := ds_responses (sv_disp sv) @
                        (case answer of None \<Rightarrow> [] | Some a \<Rightarrow> [a])\<rparr>\<rparr>)
           | Handled (CppHandler _ rl) req1 \<Rightarrow> sv\<lparr>sv_limiters := snd (cppHandler (ev_int E) clk rl req1 (sv_limiters sv))\<rparr>
           | Handled (CppStreamHandler _ _ rl) req1 \<Rightarrow> sv\<lparr>sv_limiters := snd (checkRateLimits (ev_int E) clk rl (sv_limiters sv))\<rparr>
           | _ \<Rightarrow> sv)"

text \<open>A callback of the WebSocket controller, and one of a client: each new event is followed by a byte in the pipe.\<close>

definition ioWs :: "nat \<Rightarrow> (wsys \<Rightarrow> wsys) \<Rightarrow> 'w server \<Rightarrow> 'w server" where
  "ioWs eintr f sv =
     (if \<not> g_running sv then sv
      else let ws = f (sv_ws sv)
           in sv\<lparr>sv_ws := ws,
                 sv_queue := (if g_wsEvents ws \<noteq> g_wsEvents (sv_ws sv) then notifyDispatcher eintr (sv_queue sv) else sv_queue sv)\<rparr>)"

definition ioClient :: "nat \<Rightarrow> (wcsys \<Rightarrow> wcsys) \<Rightarrow> 'w server \<Rightarrow> 'w server" where
  "ioClient eintr f sv =
     (if \<not> g_wsClientLoop (sv_clients sv) then sv
      else sv\<lparr>sv_clients := f (sv_clients sv), sv_queue := notifyDispatcher eintr (sv_queue sv)\<rparr>)"

datatype server_op =
    CallRegisterRoute sexp sexp sexp sexp sexp
  | CallRegisterCpp sexp sexp sexp sexp sexp
  | CallRegisterCppStream sexp sexp sexp sexp sexp sexp
  | CallRegisterStatic sexp sexp
  | CallRateLimits sexp
  | CallRegisterWs sexp sexp sexp sexp
  | CallRegisterWsCpp sexp sexp sexp sexp sexp
  | CallWs ws_api
  | CallClearRoutes
  | CallStart "nat \<Rightarrow> int" "(int \<times> int) option" sexp sexp sexp sexp sexp
  | CallStop
  | CallConnect "(int \<times> int) option" sexp sexp sexp sexp sexp
  | CallClientSend sexp sexp sexp
  | CallClientClose sexp
  | CallClientShutdown
  | FireWatch nat
  | IoRequest "nat \<Rightarrow> int" nat nat "bool option" request
  | IoWsConnect nat int string nat
  | IoWsMessage nat nat string bool
  | IoWsClosed nat nat
  | IoReap int
  | IoClientResult nat uint64 int
  | IoClientMessage nat uint64 string bool
  | IoClientClosed nat uint64

fun server_step :: "'w runtime \<Rightarrow> server_op \<Rightarrow> 'w server \<Rightarrow> 'w server" where
  "server_step E (CallRegisterRoute m p rx ns h) sv = snd (drogonR_register_route m p rx ns h sv)"
| "server_step E (CallRegisterCpp m p rx ns ptr) sv = snd (drogonR_register_cpp_route m p rx ns ptr sv)"
| "server_step E (CallRegisterCppStream m p rx ns ptr ct) sv = snd (drogonR_register_cpp_stream_route m p rx ns ptr ct sv)"
| "server_step E (CallRegisterStatic m d) sv =
     (case drogonR_register_static (g_running sv) m d (g_staticMounts sv) of Inl _ \<Rightarrow> sv | Inr ms \<Rightarrow> sv\<lparr>g_staticMounts := ms\<rparr>)"
| "server_step E (CallRateLimits rules) sv =
     sv\<lparr>g_rateLimitRules := snd (drogonR_register_rate_limits (ev_int E) (g_running sv) rules (g_rateLimitRules sv))\<rparr>"
| "server_step E (CallRegisterWs p c m cl) sv =
     (case drogonR_register_ws (g_running sv) p c m cl (sv_ws sv) of Inl _ \<Rightarrow> sv | Inr (_, ws) \<Rightarrow> sv\<lparr>sv_ws := ws\<rparr>)"
| "server_step E (CallRegisterWsCpp p ptr mc idle life) sv =
     (case drogonR_register_ws_cpp (ev_int E) (g_running sv) p ptr mc idle life (sv_ws sv) of Inl _ \<Rightarrow> sv | Inr (_, ws) \<Rightarrow> sv\<lparr>sv_ws := ws\<rparr>)"
| "server_step E (CallWs call) sv = sv\<lparr>sv_ws := ws_api_call (ev_u64 E) call (sv_ws sv)\<rparr>"
| "server_step E CallClearRoutes sv = snd (drogonR_clear_routes sv)"
| "server_step E (CallStart clk os port threads upload queue workers) sv =
     snd (drogonR_server_start clk os port threads upload queue workers sv)"
| "server_step E CallStop sv = drogonR_server_stop sv"
| "server_step E (CallConnect os h p m op cl) sv = wsConnect E os h p m op cl sv"
| "server_step E (CallClientSend i m b) sv =
     sv\<lparr>sv_clients := snd (drogonR_ws_client_send (ev_u64 E) i m b (sv_clients sv))\<rparr>"
| "server_step E (CallClientClose i) sv = sv\<lparr>sv_clients := snd (drogonR_ws_client_close (ev_u64 E) i (sv_clients sv))\<rparr>"
| "server_step E CallClientShutdown sv = sv\<lparr>sv_clients := shutdownWsClients (sv_clients sv)\<rparr>"
| "server_step E (FireWatch n) sv = fireWatch E n sv"
| "server_step E (IoRequest clk eintr cb conn req) sv = ioRequest E clk eintr cb conn req sv"
| "server_step E (IoWsConnect eintr now path c) sv = ioWs eintr (handleNewConnection now path c) sv"
| "server_step E (IoWsMessage eintr c m b) sv = ioWs eintr (handleNewMessage c m b) sv"
| "server_step E (IoWsClosed eintr c) sv = ioWs eintr (handleConnectionClosed c) sv"
| "server_step E (IoReap now) sv = ioWs 0 (reapExpiredSessions now) sv"
| "server_step E (IoClientResult eintr i r) sv = ioClient eintr (onConnectResult i r) sv"
| "server_step E (IoClientMessage eintr i m b) sv = ioClient eintr (onClientMessage i m b) sv"
| "server_step E (IoClientClosed eintr i) sv = ioClient eintr (onClientClosed i) sv"

section \<open>Routers\<close>

definition router_handlers :: "'h router \<Rightarrow> 'h set" where
  "router_handlers r = {h. \<exists>item\<in>set (ctrlVector r). \<exists>m b. ri_binders item m = Some b \<and> bd_handler b = h}"

definition regex_only :: "'h router \<Rightarrow> bool" where
  "regex_only r \<longleftrightarrow> simpleCtrlMap r = [] \<and> ctrlMap r = []"

lemma addBinder_handler:
  "addCtrlBinderToRouterItem b ms bs m = Some c \<Longrightarrow> bd_handler c = bd_handler b \<or> bs m = Some c"
proof -
  have fold: "fold (\<lambda>m bs. bs(m \<mapsto> x)) ms bs m = Some c \<Longrightarrow> c = x \<or> bs m = Some c" for x ms and bs :: "'a binders"
  proof (induction ms arbitrary: bs)
    case (Cons a ms)
    from Cons.IH [of "bs(a \<mapsto> x)"] Cons.prems have "c = x \<or> (bs(a \<mapsto> x)) m = Some c"
      by (simp del: fun_upd_apply)
    then show ?case by (auto split: if_splits)
  qed simp
  show "addCtrlBinderToRouterItem b ms bs m = Some c \<Longrightarrow> ?thesis"
    by (auto simp: addCtrlBinderToRouterItem_def Let_def split: if_splits dest!: fold)
qed

lemma addToItem_binders:
  assumes "item \<in> set (addToItem pp p f items)" "ri_binders item m = Some c"
  shows "(\<exists>bs. f bs m = Some c \<and> (bs m = Some d \<longrightarrow> (\<exists>i\<in>set items. ri_binders i m = Some d)))
     \<or> (\<exists>i\<in>set items. ri_binders i m = Some c)"
  using assms
proof (induction items)
  case Nil
  then show ?case by (auto intro!: exI [of _ "\<lambda>_. None"])
next
  case (Cons i items)
  then show ?case by (auto split: if_splits)
qed

lemma addHttpRegex_handlers: "router_handlers (addHttpRegex p h ms r) \<subseteq> insert h (router_handlers r)"
proof
  fix x
  assume "x \<in> router_handlers (addHttpRegex p h ms r)"
  then obtain item m b where b: "item \<in> set (addToItem p p (addCtrlBinderToRouterItem (newBinder h) ms) (ctrlVector r))"
      "ri_binders item m = Some b" "x = bd_handler b"
    by (auto simp: router_handlers_def addHttpRegex_def addRegexCtrlBinder_def)
  from addToItem_binders [OF b(1, 2), of b] addBinder_handler [of "newBinder h" ms _ m b] b(3)
  show "x \<in> insert h (router_handlers r)"
    by (auto simp: router_handlers_def newBinder_def)
qed

lemma router_init_handlers [simp]: "router_handlers (router_init r) = router_handlers r"
proof -
  have "(\<exists>b. (\<exists>z. ri_binders item m = Some z \<and> z\<lparr>bd_corsMethods := cors\<rparr> = b) \<and> bd_handler b = h)
    \<longleftrightarrow> (\<exists>b. ri_binders item m = Some b \<and> bd_handler b = h)" for item :: "'a router_item" and m cors h
    by auto
  then show ?thesis
    by (simp add: router_handlers_def router_init_def Let_def init_binders_def)
qed

lemma registerWebSocketController_handlers [simp]:
  "router_handlers (registerWebSocketController p h ms r) = router_handlers r"
  by (simp add: router_handlers_def registerWebSocketController_def)

lemma regex_only_ops [simp]:
  "regex_only (addHttpRegex p h ms r) = regex_only r"
  "regex_only (registerWebSocketController p h ms r) = regex_only r"
  "regex_only (router_init r) = regex_only r"
  by (auto simp: regex_only_def addHttpRegex_def addRegexCtrlBinder_def registerWebSocketController_def router_init_def Let_def)

lemma searchRegex_member: "searchRegex rx m path items = Some (item, caps) \<Longrightarrow> item \<in> set items"
  by (induction items) (auto split: if_splits option.splits)

lemma handled_by_router:
  assumes "regex_only r" "onHttpRequest rx home r req = Handled h req1"
  shows "h \<in> router_handlers r"
proof -
  from assms obtain item caps b where
    "searchRegex rx (rq_method req) (rq_path req) (ctrlVector r) = Some (item, caps)"
    "ri_binders item (rq_method req) = Some b" "h = bd_handler b"
    by (auto simp: onHttpRequest_def httpRequestRouting_def router_route_def route_item_def requestPreHandling_def
        regex_only_def Let_def split: if_splits option.splits RouteResult.splits prod.splits)
  then show ?thesis using searchRegex_member by (fastforce simp: router_handlers_def)
qed

section \<open>Installing the routes\<close>

fun valid_handler :: "nat \<Rightarrow> handler \<Rightarrow> bool" where
  "valid_handler n (RHandler i _) \<longleftrightarrow> 0 \<le> i \<and> i < int n"
| "valid_handler n _ \<longleftrightarrow> True"

definition kept where
  "kept sv = (sv_disp sv, g_cppRoutes sv, g_cppStreamRoutes sv, g_staticMounts sv, g_running sv, g_everStarted sv,
     g_wakePipe sv, g_dispatcherFd sv, g_later_fd sv, sv_watches sv, sv_queue sv, g_cppWorkerPool sv, sv_preserved sv,
     sv_clients sv, app_runs (sv_app sv))"

definition installs :: "nat \<Rightarrow> 'w server \<Rightarrow> 'w server \<Rightarrow> bool" where
  "installs n sv sv' \<longleftrightarrow> kept sv' = kept sv \<and> g_wsRoutes (sv_ws sv') = g_wsRoutes (sv_ws sv)
     \<and> regex_only (app_router (sv_app sv')) = regex_only (app_router (sv_app sv))
     \<and> router_handlers (app_router (sv_app sv')) \<subseteq> router_handlers (app_router (sv_app sv)) \<union> Collect (valid_handler n)"

lemma installs_refl: "installs n sv sv"
  by (simp add: installs_def)

lemma installs_trans: "installs n a b \<Longrightarrow> installs n b c \<Longrightarrow> installs n a c"
  unfolding installs_def by (elim conjE) (intro conjI, simp, simp, simp, blast)

lemma installs_fold:
  assumes "\<And>x s. x \<in> set xs \<Longrightarrow> installs n s (f x s)"
  shows "installs n sv (fold f xs sv)"
  using assms
proof (induction xs arbitrary: sv)
  case Nil
  show ?case by (simp add: installs_refl)
next
  case (Cons x xs)
  have "installs n sv (f x sv)" "installs n (f x sv) (fold f xs (f x sv))"
    using Cons by auto
  then show ?case using installs_trans by auto
qed

lemma installs_handler:
  assumes "\<And>rl. valid_handler n (lambda rl)"
  shows "installs n sv (installHandler clk path regex m lambda sv)"
  using assms addHttpRegex_handlers [where r = "app_router (sv_app sv)" and p = regex and ms = "[m]"]
  by (fastforce simp: installs_def kept_def installHandler_def split: prod.splits)

lemma installs_static: "installs n sv (installStaticMount sm sv)"
  using addHttpRegex_handlers [of "static_regex sm" "StaticHandler (dir sm)" "[Get, Head]" "app_router (sv_app sv)"]
  by (auto simp: installs_def kept_def installStaticMount_def)

lemma installWsRoutes_keeps: "installWsRoutes s = (paths, iv, s') \<Longrightarrow> paths = map wr_path (g_wsRoutes s) \<and> g_wsRoutes s' = g_wsRoutes s"
  by (auto simp: installWsRoutes_def split: if_splits option.splits)

lemma installs_ws: "installs n sv (installWsControllers sv)"
proof -
  obtain paths iv ws where ws: "installWsRoutes (sv_ws sv) = (paths, iv, ws)" by (metis surj_pair)
  let ?reg = "fold (\<lambda>path. registerWebSocketController path WsController [])"
  have keep: "regex_only (?reg ps r) = regex_only r \<and> router_handlers (?reg ps r) = router_handlers r" for ps and r :: "handler router"
    by (induction ps arbitrary: r) simp_all
  show ?thesis
    using keep installWsRoutes_keeps [OF ws] by (simp add: installs_def kept_def installWsControllers_def ws)
qed

lemma installs_routes: "installs (length (sv_routes sv)) sv (installRoutes clk sv)"
proof -
  let ?n = "length (sv_routes sv)"
  have r: "installs ?n s (fold (installDrogonHandler clk) (enumerate 0 (sv_routes sv)) s)" for s :: "'a server"
    by (rule installs_fold)
       (auto simp: installDrogonHandler_def in_set_enumerate_eq intro!: installs_handler)
  have c: "installs ?n s (fold (installCppHandler clk) rs s)" for s :: "'a server" and rs
    by (rule installs_fold) (auto simp: installCppHandler_def intro!: installs_handler)
  have t: "installs ?n s (fold (installCppStreamHandler clk) rs s)" for s :: "'a server" and rs
    by (rule installs_fold) (auto simp: installCppStreamHandler_def intro!: installs_handler)
  have m: "installs ?n s (fold installStaticMount ms s)" for s :: "'a server" and ms
    by (rule installs_fold) (rule installs_static)
  show ?thesis
    unfolding installRoutes_def Let_def by (meson r c t m installs_trans)
qed

lemma installs_all: "installs (length (sv_routes sv)) sv (installAll clk sv)"
  unfolding installAll_def by (rule installs_trans [OF installs_routes installs_ws])

text \<open>\<^verbatim>\<open>installWsRoutes\<close> comes last: it hooks the controller onto each path of the table.\<close>

abbreviation hookWsPaths :: "string list \<Rightarrow> handler router \<Rightarrow> handler router" where
  "hookWsPaths paths \<equiv> fold (\<lambda>path. registerWebSocketController path WsController []) paths"

lemma installAll_ws:
  "\<exists>r. app_router (sv_app (installAll clk sv)) = hookWsPaths (map wr_path (g_wsRoutes (sv_ws sv))) r"
proof -
  let ?a = "installRoutes clk sv"
  obtain paths iv ws where ws: "installWsRoutes (sv_ws ?a) = (paths, iv, ws)" by (metis surj_pair)
  have "g_wsRoutes (sv_ws ?a) = g_wsRoutes (sv_ws sv)"
    using installs_routes [of sv clk] by (simp add: installs_def)
  with installWsRoutes_keeps [OF ws] show ?thesis
    by (auto simp: installAll_def installWsControllers_def ws)
qed

section \<open>The invariant of a session\<close>

definition pipe_ok :: "'w server \<Rightarrow> bool" where
  "pipe_ok sv \<longleftrightarrow>
     (if fst (g_wakePipe sv) \<noteq> - 1
      then 0 \<le> fst (g_wakePipe sv) \<and> g_dispatcherFd sv = fst (g_wakePipe sv)
           \<and> (g_wakeReadFd (sv_queue sv), g_wakeWriteFd (sv_queue sv)) = g_wakePipe sv \<and> fst (g_wakePipe sv) \<in> set (sv_watches sv)
      else g_wakePipe sv = (- 1, - 1) \<and> g_dispatcherFd sv = - 1 \<and> g_wakeReadFd (sv_queue sv) = - 1
           \<and> g_wakeWriteFd (sv_queue sv) = - 1)"

definition run_ok :: "'w server \<Rightarrow> bool" where
  "run_ok sv \<longleftrightarrow> g_later_fd sv \<and> app_runs (sv_app sv) = (if g_everStarted sv then 1 else 0)
     \<and> (if g_running sv
        then g_everStarted sv \<and> fst (g_wakePipe sv) \<noteq> - 1 \<and> 0 < g_queueMaxSize (sv_queue sv) \<and> g_cppWorkerPool sv \<noteq> None
        else g_queue (sv_queue sv) = [])"

definition table_held :: "preserved \<Rightarrow> 'w server \<Rightarrow> bool" where
  "table_held p0 sv \<longleftrightarrow> sv_preserved sv = p0 + mset (map rt_handler (sv_routes sv))
     \<and> list_all (\<lambda>r. is_closure (rt_handler r)) (sv_routes sv)"

definition routing_ok :: "'w server \<Rightarrow> bool" where
  "routing_ok sv \<longleftrightarrow> regex_only (app_router (sv_app sv))
     \<and> (\<not> g_everStarted sv \<longrightarrow> router_handlers (app_router (sv_app sv)) = {})
     \<and> (g_running sv \<longrightarrow> router_handlers (app_router (sv_app sv)) \<subseteq> Collect (valid_handler (length (sv_routes sv))))
     \<and> list_all (\<lambda>pr. getRoute (sv_routes sv) (pr_route_id pr) \<noteq> None) (g_queue (sv_queue sv))"

definition server_ok :: "preserved \<Rightarrow> 'w server \<Rightarrow> bool" where
  "server_ok p0 sv \<longleftrightarrow> pipe_ok sv \<and> run_ok sv \<and> table_held p0 sv \<and> routing_ok sv"

lemmas server_ok_defs = server_ok_def pipe_ok_def run_ok_def table_held_def routing_ok_def

text \<open>What the invariant reads.\<close>

definition core where
  "core sv = (g_wakePipe sv, g_dispatcherFd sv, g_wakeReadFd (sv_queue sv), g_wakeWriteFd (sv_queue sv), g_queueMaxSize (sv_queue sv),
     g_queue (sv_queue sv), sv_watches sv, g_later_fd sv, app_runs (sv_app sv), g_everStarted sv, g_running sv, g_cppWorkerPool sv,
     sv_preserved sv, sv_routes sv, app_router (sv_app sv))"

lemma server_ok_core: "core sv' = core sv \<Longrightarrow> server_ok p0 sv' = server_ok p0 sv"
  unfolding core_def server_ok_defs by (elim Pair_inject) (simp only:)

fun fds_ok :: "(int \<times> int) option \<Rightarrow> bool" where
  "fds_ok None \<longleftrightarrow> True"
| "fds_ok (Some (r, w)) \<longleftrightarrow> 0 \<le> r \<and> 0 \<le> w"

lemma applyLog_keeps [simp]: "core (applyLogLevelFromEnv sv) = core sv" "kept (applyLogLevelFromEnv sv) = kept sv"
  "sv_ws (applyLogLevelFromEnv sv) = sv_ws sv" "app_router (sv_app (applyLogLevelFromEnv sv)) = app_router (sv_app sv)"
  by (simp_all add: core_def kept_def applyLogLevelFromEnv_def split: option.split)

lemma ensureDispatcher_ok:
  assumes "server_ok p0 sv" "fds_ok os" "ensureDispatcherRunning os sv = (e, sv')"
  shows "server_ok p0 sv' \<and> g_running sv' = g_running sv \<and> g_everStarted sv' = g_everStarted sv
    \<and> (e = None \<longrightarrow> fst (g_wakePipe sv') \<noteq> - 1)"
proof -
  define a where "a = applyLogLevelFromEnv sv"
  have a: "server_ok p0 a" "g_running a = g_running sv" "g_everStarted a = g_everStarted sv"
    using assms(1) server_ok_core [OF applyLog_keeps(1)] applyLog_keeps(2) [of sv]
    by (auto simp: a_def kept_def)
  show ?thesis
  proof (cases "fst (g_wakePipe a) \<noteq> - 1")
    case True
    with assms(3) a show ?thesis by (auto simp: ensureDispatcherRunning_def a_def Let_def)
  next
    case False
    with assms a show ?thesis
      by (cases os rule: fds_ok.cases)
         (auto simp: ensureDispatcherRunning_def a_def [symmetric] Let_def makeWakePipe_def registerDispatcherFd_def
           initQueueWakeup_def server_ok_defs split: if_splits)
  qed
qed

lemma startApp_ok:
  assumes "server_ok p0 sv" "fst (g_wakePipe sv) \<noteq> - 1" "\<not> g_running sv" "\<not> g_everStarted sv" "1 \<le> max_queue"
  shows "server_ok p0 (startApp clk port threads upload max_queue workers sv)"
proof -
  define a where "a = sv\<lparr>sv_queue := setQueueMaxSize (nat max_queue) (sv_queue sv),
    g_cppWorkerPool := Some (case g_cppWorkerPool sv of None \<Rightarrow> workers | Some n \<Rightarrow> n)\<rparr>"
  define b where "b = installAll clk a"
  define c where "c = applyLogLevelFromEnv (b\<lparr>sv_app := (sv_app b)\<lparr>app_threads := threads, app_uploadPath := upload\<rparr>\<rparr>)"
  have b: "installs (length (sv_routes a)) a b" unfolding b_def by (rule installs_all)
  have c: "core c = core b"
    unfolding c_def applyLog_keeps by (simp add: core_def)
  have b2: "sv_disp b = sv_disp sv" "g_later_fd b = g_later_fd sv" "g_wakePipe b = g_wakePipe sv" "g_dispatcherFd b = g_dispatcherFd sv"
    "sv_watches b = sv_watches sv" "sv_queue b = setQueueMaxSize (nat max_queue) (sv_queue sv)" "g_cppWorkerPool b \<noteq> None"
    "sv_preserved b = sv_preserved sv" "app_runs (sv_app b) = app_runs (sv_app sv)"
    using b by (auto simp: installs_def kept_def a_def)
  have r: "regex_only (app_router (sv_app b))" "router_handlers (app_router (sv_app b)) \<subseteq> Collect (valid_handler (length (sv_routes sv)))"
    using b assms(1, 4) by (auto simp: installs_def a_def server_ok_defs)
  have e: "startApp clk port threads upload max_queue workers sv
    = c\<lparr>g_running := True, g_everStarted := True, sv_app := (sv_app c)\<lparr>app_listeners := app_listeners (sv_app c) @ [port],
         app_runs := Suc (app_runs (sv_app c)), app_router := router_init (app_router (sv_app c))\<rparr>\<rparr>"
    by (simp add: startApp_def runApp_def Let_def c_def b_def a_def)
  show ?thesis
    unfolding e using c assms b2 r
    by (simp add: core_def server_ok_defs setQueueMaxSize_def)
qed

lemma start_args_queue: "start_args a b c d e = Inr (port, threads, upload, max_queue, workers) \<Longrightarrow> 1 \<le> max_queue"
  by (auto simp: start_args_def split: option.splits if_splits)

lemma start_ok:
  assumes "server_ok p0 sv" "fds_ok os"
  shows "server_ok p0 (snd (drogonR_server_start clk os a b c d e sv))"
proof (cases "start_args a b c d e")
  case (Inl err)
  with assms show ?thesis by (simp add: drogonR_server_start_def)
next
  case (Inr args)
  obtain port threads upload max_queue workers where args: "args = (port, threads, upload, max_queue, workers)"
    by (metis prod_cases5)
  obtain er sv1 where en: "ensureDispatcherRunning os sv = (er, sv1)" by (metis surj_pair)
  from Inr args have "1 \<le> max_queue" by (auto intro: start_args_queue)
  then show ?thesis
    using assms(1) ensureDispatcher_ok [OF assms en] Inr args
      startApp_ok [of p0 sv1 max_queue clk port threads upload workers]
    by (auto simp: drogonR_server_start_def en split: option.split)
qed

lemma stop_ok: "server_ok p0 sv \<Longrightarrow> server_ok p0 (drogonR_server_stop sv)"
  by (auto simp: drogonR_server_stop_def shutdownDispatcher_def unregisterDispatcherFd_def resetQueueWakeup_def
      setQueueMaxSize_def Let_def server_ok_defs)

lemma register_route_ok:
  assumes "server_ok p0 sv"
  shows "server_ok p0 (snd (drogonR_register_route m p rx ns h sv))"
proof -
  have "route_args True m p rx ns = Inl RoutesLocked" by (simp add: route_args_def)
  with assms show ?thesis
    by (cases "g_running sv") (auto simp: drogonR_register_route_def server_ok_defs split: sum.split prod.split)
qed

lemma release_handlers:
  "list_all (\<lambda>r. is_closure (rt_handler r)) rs \<Longrightarrow>
     fold (\<lambda>r. release_hook (rt_handler r)) rs (p0 + image_mset rt_handler (mset rs)) = p0"
proof (induction rs)
  case (Cons r rs)
  then have "release_hook (rt_handler r) (p0 + image_mset rt_handler (mset (r # rs))) = p0 + image_mset rt_handler (mset rs)"
    by (cases "rt_handler r") auto
  with Cons show ?case by simp
qed simp

lemma clear_routes_ok: "server_ok p0 sv \<Longrightarrow> server_ok p0 (snd (drogonR_clear_routes sv))"
  by (auto simp: drogonR_clear_routes_def server_ok_defs release_handlers)

text \<open>Everything else either leaves what the invariant reads alone, or appends to the queue.\<close>

lemma core_tables:
  "core (sv\<lparr>g_cppRoutes := cs\<rparr>) = core sv" "core (sv\<lparr>g_cppStreamRoutes := ss\<rparr>) = core sv"
  "core (sv\<lparr>g_staticMounts := ms\<rparr>) = core sv" "core (sv\<lparr>g_rateLimitRules := rules\<rparr>) = core sv"
  "core (sv\<lparr>sv_ws := ws\<rparr>) = core sv" "core (sv\<lparr>sv_clients := cl\<rparr>) = core sv" "core (sv\<lparr>sv_limiters := h\<rparr>) = core sv"
  by (simp_all add: core_def)

lemma core_registrations:
  "core (snd (drogonR_register_cpp_route m p rx ns ptr sv)) = core sv"
  "core (snd (drogonR_register_cpp_stream_route m p rx ns ptr ct sv)) = core sv"
  unfolding drogonR_register_cpp_route_def drogonR_register_cpp_stream_route_def
  by (auto simp: core_tables split: sum.split option.split prod.split)

lemma dispatchRequests_routes [simp]: "ds_routes (dispatchRequests ub R drogon items d) = ds_routes d"
proof (induction items arbitrary: d)
  case (Cons pr items)
  then show ?case
    using dispatchRequest_responds [of ub R drogon pr d] by (auto simp: dispatchRequests_def)
qed (simp add: dispatchRequests_def)

lemma core_runDispatcher:
  "core (runDispatcher E sv) = core (if g_dispatcherFd sv < 0 then sv else
     sv\<lparr>sv_queue := (sv_queue sv)\<lparr>g_queue := []\<rparr>, sv_watches := sv_watches sv @ [g_dispatcherFd sv]\<rparr>)"
proof -
  obtain w1 hooklog ws w2 cl where
    "drainWsEvents (ev_u64 E) (ev_hooks E) (ds_world (dispatchRequests (ev_int E) (ev_r E) (ev_drogon E) (g_queue (sv_queue sv)) (sv_disp sv)),
       sv_hooklog sv, sv_ws sv) = (w1, hooklog, ws)"
    "drainWsClientEvents (ev_creates E) (ev_u64 E) (ev_clientHooks E) (w1, sv_clients sv) = (w2, cl)"
    by (metis surj_pair)
  then show ?thesis
    by (simp add: runDispatcher_def drainQueue_def drainWakePipe_def core_def)
qed

lemma fireWatch_ok:
  assumes "server_ok p0 sv"
  shows "server_ok p0 (fireWatch E n sv)"
proof (cases "n < length (sv_watches sv)")
  case True
  define a where "a = sv\<lparr>sv_watches := take n (sv_watches sv) @ drop (Suc n) (sv_watches sv)\<rparr>"
  have "server_ok p0 (if g_dispatcherFd a < 0 then a else
     a\<lparr>sv_queue := (sv_queue a)\<lparr>g_queue := []\<rparr>, sv_watches := sv_watches a @ [g_dispatcherFd a]\<rparr>)"
    using assms by (auto simp: a_def server_ok_defs split: if_splits)
  with True show ?thesis
    by (simp add: fireWatch_def a_def [symmetric] server_ok_core [OF core_runDispatcher])
next
  case False
  with assms show ?thesis by (simp add: fireWatch_def)
qed

lemma wsConnect_ok:
  assumes "server_ok p0 sv" "fds_ok os"
  shows "server_ok p0 (wsConnect E os h p m op cl sv)"
proof -
  define a where "a = sv\<lparr>sv_clients := ensureClientLoop (sv_clients sv)\<rparr>"
  have a: "server_ok p0 a" using assms(1) server_ok_core [of a sv] by (simp add: a_def core_def)
  obtain e b where e: "ensureDispatcherRunning os a = (e, b)" by (metis surj_pair)
  have "server_ok p0 b" using ensureDispatcher_ok [OF a assms(2) e] by simp
  moreover have "server_ok p0 (b\<lparr>sv_clients := x\<rparr>) = server_ok p0 b" for x
    by (rule server_ok_core) (simp add: core_def)
  ultimately show ?thesis
    using assms(1) e by (auto simp: wsConnect_def a_def [symmetric] split: option.split)
qed

lemma rHandler_queue:
  assumes "rHandler ub clk eintr i rl cb conn req (q, h) = (answer, q', h')"
  shows "(g_wakeReadFd q', g_wakeWriteFd q', g_queueMaxSize q') = (g_wakeReadFd q, g_wakeWriteFd q, g_queueMaxSize q)
    \<and> (g_queue q' = g_queue q \<or> g_queue q' = g_queue q @ [snapshot i cb conn req])"
  using assms by (auto simp: rHandler_def reqqueue_defs split: prod.splits option.splits bool.splits if_splits)

lemma ioRequest_ok:
  assumes "server_ok p0 sv"
  shows "server_ok p0 (ioRequest E clk eintr cb conn req sv)"
proof (cases "\<exists>i rl req1. g_running sv
    \<and> onHttpRequest (ev_regex E) (ev_homePage E) (app_router (sv_app sv)) (headToGet req) = Handled (RHandler i rl) req1")
  case True
  then obtain i rl req1 where run: "g_running sv"
    and h: "onHttpRequest (ev_regex E) (ev_homePage E) (app_router (sv_app sv)) (headToGet req) = Handled (RHandler i rl) req1"
    by blast
  obtain answer q l where q: "rHandler (ev_int E) clk eintr i rl cb conn req1 (sv_queue sv, sv_limiters sv) = (answer, q, l)"
    by (metis surj_pair)
  have "valid_handler (length (sv_routes sv)) (RHandler i rl)"
    using handled_by_router [OF _ h] assms run by (auto simp: server_ok_defs)
  then have "getRoute (sv_routes sv) i \<noteq> None" by (simp add: getRoute_def)
  with rHandler_queue [OF q] run assms show ?thesis
    by (auto simp: ioRequest_def h q server_ok_defs snapshot_def)
next
  case False
  then have "core (ioRequest E clk eintr cb conn req sv) = core sv"
    by (auto simp: ioRequest_def core_tables split: routed.split handler.split)
  with assms show ?thesis using server_ok_core by blast
qed

fun op_ok :: "server_op \<Rightarrow> bool" where
  "op_ok (CallStart clk os port threads upload queue workers) \<longleftrightarrow> fds_ok os"
| "op_ok (CallConnect os h p m op cl) \<longleftrightarrow> fds_ok os"
| "op_ok _ \<longleftrightarrow> True"

lemma core_io: "core (ioWs eintr f sv) = core sv" "core (ioClient eintr g sv) = core sv"
  by (simp_all add: ioWs_def ioClient_def core_def notifyDispatcher_def Let_def)

lemmas server_ok_keeps = core_registrations [THEN server_ok_core] core_io [THEN server_ok_core] core_tables [THEN server_ok_core]

lemma server_step_ok: "server_ok p0 sv \<Longrightarrow> op_ok op \<Longrightarrow> server_ok p0 (server_step E op sv)"
  by (cases op)
     (auto simp: server_ok_keeps intro: register_route_ok clear_routes_ok start_ok stop_ok wsConnect_ok fireWatch_ok ioRequest_ok
       split: sum.split prod.split)

lemma server_steps_ok:
  "server_ok p0 sv \<Longrightarrow> list_all op_ok ops \<Longrightarrow> server_ok p0 (fold (server_step E) ops sv)"
  by (induction ops arbitrary: sv) (auto intro: server_step_ok)

section \<open>Properties\<close>

text \<open>The state after the package has been loaded.\<close>

definition fresh_server :: "'w server \<Rightarrow> bool" where
  "fresh_server sv \<longleftrightarrow> sv_routes sv = [] \<and> \<not> g_running sv \<and> \<not> g_everStarted sv \<and> g_wakePipe sv = (- 1, - 1)
     \<and> g_dispatcherFd sv = - 1 \<and> g_later_fd sv \<and> g_queue (sv_queue sv) = [] \<and> g_wakeReadFd (sv_queue sv) = - 1
     \<and> g_wakeWriteFd (sv_queue sv) = - 1 \<and> app_router (sv_app sv) = empty_router \<and> app_runs (sv_app sv) = 0"

lemma fresh_server_ok: "fresh_server sv \<Longrightarrow> server_ok (sv_preserved sv) sv"
  by (simp add: fresh_server_def server_ok_defs regex_only_def router_handlers_def empty_router_def)

text \<open>
  (C1) Whatever a session does (registering, starting, stopping, opening clients, in any order, with any errors), and
  whatever arrives in between: Drogon's loop is entered at most once; while the server runs, the wake pipe is open, the
  dispatcher reads it, \<^verbatim>\<open>later\<close> watches it, the request queue is bounded and the worker pool exists; every queued
  request belongs to a route whose handler is an R function, so that the dispatcher never has to answer that no handler
  is registered; no request is queued once the server is down; and exactly the handlers of the route table are
  preserved from R's garbage collector.
\<close>

theorem server_lifecycle:
  assumes "fresh_server sv0" "list_all op_ok ops" "sv = fold (server_step E) ops sv0"
  shows "app_runs (sv_app sv) \<le> 1
    \<and> (g_running sv \<longrightarrow> 0 \<le> fst (g_wakePipe sv) \<and> g_dispatcherFd sv = fst (g_wakePipe sv)
         \<and> (g_wakeReadFd (sv_queue sv), g_wakeWriteFd (sv_queue sv)) = g_wakePipe sv
         \<and> fst (g_wakePipe sv) \<in> set (sv_watches sv) \<and> 0 < g_queueMaxSize (sv_queue sv) \<and> g_cppWorkerPool sv \<noteq> None)
    \<and> (\<not> g_running sv \<longrightarrow> g_queue (sv_queue sv) = [])
    \<and> (\<forall>pr\<in>set (g_queue (sv_queue sv)). \<exists>r. getRoute (sv_routes sv) (pr_route_id pr) = Some r \<and> is_closure (rt_handler r))
    \<and> sv_preserved sv = sv_preserved sv0 + mset (map rt_handler (sv_routes sv))"
proof -
  have ok: "server_ok (sv_preserved sv0) sv"
    unfolding assms(3) by (rule server_steps_ok [OF fresh_server_ok [OF assms(1)] assms(2)])
  have routes: "\<exists>r. getRoute (sv_routes sv) (pr_route_id pr) = Some r \<and> is_closure (rt_handler r)"
    if "pr \<in> set (g_queue (sv_queue sv))" for pr
    using ok that by (fastforce simp: server_ok_defs list_all_iff getRoute_def)
  from ok show ?thesis
    by (intro conjI ballI routes) (simp_all add: server_ok_defs)
qed

definition example_runtime :: "nat runtime" where
  "example_runtime = \<lparr>ev_int = 0, ev_u64 = 0, ev_r = \<lparr>r_eval = (\<lambda>w f args. (Some NilSXP, Suc w)), r_geterrmessage = (\<lambda>w. (None, w))\<rparr>,
     ev_drogon = (\<lambda>t r. (r, True)), ev_hooks = (\<lambda>w h args. ([], Suc w)), ev_clientHooks = (\<lambda>w h args. ([], Suc w)),
     ev_creates = (\<lambda>_. True), ev_regex = (\<lambda>p path. if p = path then Some [] else None), ev_homePage = []\<rparr>"

definition example_server :: "nat server" where
  "example_server = \<lparr>sv_disp = \<lparr>ds_world = 0, ds_routes = [], ds_streams = example_streams, ds_responses = []\<rparr>,
     g_cppRoutes = [], g_cppStreamRoutes = [], g_staticMounts = [], g_rateLimitRules = [], g_running = False, g_everStarted = False,
     g_wakePipe = (- 1, - 1), g_dispatcherFd = - 1, g_later_fd = True, sv_watches = [],
     sv_queue = \<lparr>g_queue = [], g_wakeWriteFd = - 1, g_wakeReadFd = - 1, g_queueMaxSize = 0, g_pipe = \<lparr>kp_bytes = 0, kp_cap = 8\<rparr>\<rparr>,
     g_cppWorkerPool = None, sv_limiters = [], sv_hooklog = [], sv_preserved = {#}, sv_ws = wsys_init, sv_clients = wcsys_init {#},
     sv_app = \<lparr>app_router = empty_router, app_threads = 1, app_uploadPath = [], app_listeners = [], app_logLevel = None, app_runs = 0\<rparr>,
     sv_env = None\<rparr>"

definition example_string :: "string \<Rightarrow> sexp" where
  "example_string s = STRSXP no_attr [Chr s]"

definition example_int :: "int \<Rightarrow> sexp" where
  "example_int n = INTSXP no_attr [n]"

definition example_setup :: "server_op list" where
  "example_setup =
     [CallRegisterRoute (example_string ''GET'') (example_string ''/a'') (example_string ''/a'') (STRSXP no_attr []) (CLOSXP 7),
      CallRegisterWs (example_string ''/Chat'') NilSXP (CLOSXP 8) NilSXP,
      CallConnect (Some (3, 4)) (example_string ''ws://h'') (example_string ''/c'') (CLOSXP 5) NilSXP NilSXP]"

definition example_start :: server_op where
  "example_start =
     CallStart (\<lambda>_. 0) None (example_int 8080) (example_int 1) (example_string ''up'') (example_int 16) (example_int 4)"

lemma example_fresh: "fresh_server example_server"
  by (simp add: fresh_server_def example_server_def)

lemma example_ops_ok: "list_all op_ok (example_setup @ [example_start])"
  by (simp add: example_setup_def example_start_def)

definition example_ready :: "nat server" where
  "example_ready = fold (server_step example_runtime) example_setup example_server"

lemma example_ready_fields:
  "g_later_fd example_ready" "\<not> g_running example_ready" "\<not> g_everStarted example_ready" "g_wakePipe example_ready = (3, 4)"
  "g_wsClients (sv_clients example_ready) = [(1, newClient (CLOSXP 5) NilSXP NilSXP)]"
  "g_wsClientEvents (sv_clients example_ready) = []" "g_wsClientLoop (sv_clients example_ready)"
  "map wr_path (g_wsRoutes (sv_ws example_ready)) = [''/Chat'']"
  by (simp_all add: wsys_init_def newWsRoute_def example_ready_def example_setup_def example_server_def example_string_def example_runtime_def
      drogonR_register_route_def route_args_def drogonR_register_ws_def wsConnect_def ensureDispatcherRunning_def
      applyLogLevelFromEnv_def log_levels_def registerDispatcherFd_def makeWakePipe_def drogonR_ws_connect_def emplaceClient_def
      ensureClientLoop_def wcsys_init_def addWsRoute_def Let_def)

lemma ensureDispatcher_keeps:
  assumes "ensureDispatcherRunning os sv = (e, sv')"
  shows "sv_ws sv' = sv_ws sv \<and> sv_clients sv' = sv_clients sv \<and> sv_disp sv' = sv_disp sv"
  using assms applyLog_keeps(2, 3) [of sv]
  by (auto simp: ensureDispatcherRunning_def registerDispatcherFd_def kept_def Let_def split: prod.splits if_splits)

lemma runApp_fields:
  "g_running (runApp port threads upload sv)" "sv_clients (runApp port threads upload sv) = sv_clients sv"
  "sv_ws (runApp port threads upload sv) = sv_ws sv" "sv_disp (runApp port threads upload sv) = sv_disp sv"
  "app_router (sv_app (runApp port threads upload sv)) = router_init (app_router (sv_app sv))"
  using applyLog_keeps(2) [of "sv\<lparr>sv_app := (sv_app sv)\<lparr>app_threads := threads, app_uploadPath := upload\<rparr>\<rparr>"]
  by (simp_all add: runApp_def Let_def kept_def)

lemma start_result:
  assumes "drogonR_server_start clk os a b c d e sv = (None, sv')"
  shows "g_running sv'" "sv_clients sv' = sv_clients sv" "g_wsRoutes (sv_ws sv') = g_wsRoutes (sv_ws sv)" "sv_disp sv' = sv_disp sv"
    "\<exists>r. app_router (sv_app sv') = router_init (hookWsPaths (map wr_path (g_wsRoutes (sv_ws sv))) r)"
proof -
  from assms obtain port threads upload max_queue workers x where x: "ensureDispatcherRunning os sv = (None, x)"
    and sv': "sv' = startApp clk port threads upload max_queue workers x"
    by (auto simp: drogonR_server_start_def split: if_splits sum.splits option.splits prod.splits)
  define y where "y = x\<lparr>sv_queue := setQueueMaxSize (nat max_queue) (sv_queue x),
    g_cppWorkerPool := Some (case g_cppWorkerPool x of None \<Rightarrow> workers | Some n \<Rightarrow> n)\<rparr>"
  have e: "sv' = runApp port threads upload (installAll clk y)" by (simp add: sv' startApp_def y_def)
  have y: "sv_clients y = sv_clients sv" "sv_ws y = sv_ws sv" "sv_disp y = sv_disp sv"
    using ensureDispatcher_keeps [OF x] by (simp_all add: y_def)
  show "g_running sv'" "sv_clients sv' = sv_clients sv" "g_wsRoutes (sv_ws sv') = g_wsRoutes (sv_ws sv)" "sv_disp sv' = sv_disp sv"
    using installs_all [of y clk] y by (simp_all add: e runApp_fields installs_def kept_def)
  show "\<exists>r. app_router (sv_app sv') = router_init (hookWsPaths (map wr_path (g_wsRoutes (sv_ws sv))) r)"
    using installAll_ws [of clk y] y by (auto simp: e runApp_fields)
qed

lemma example_start_args: "start_args (example_int 8080) (example_int 1) (example_string ''up'') (example_int 16) (example_int 4)
    = Inr (8080, 1, ''up'', 16, 4)"
  by (simp add: start_args_def example_int_def example_string_def)

definition example_running :: "nat server" where
  "example_running = snd (drogonR_server_start (\<lambda>_. 0) None (example_int 8080) (example_int 1) (example_string ''up'')
     (example_int 16) (example_int 4) example_ready)"

lemma example_start_result:
  "drogonR_server_start (\<lambda>_. 0) None (example_int 8080) (example_int 1) (example_string ''up'') (example_int 16) (example_int 4)
     example_ready = (None, example_running)"
proof -
  have "fst (g_wakePipe (applyLogLevelFromEnv example_ready)) = 3"
    using applyLog_keeps(2) [of example_ready] by (simp add: kept_def example_ready_fields)
  then show ?thesis
    by (simp add: example_running_def drogonR_server_start_def ensureDispatcherRunning_def Let_def example_ready_fields example_start_args)
qed

lemmas example_started = start_result [OF example_start_result]

lemma example_run:
  "fold (server_step example_runtime) (example_setup @ [example_start]) example_server = example_running"
  by (simp add: example_ready_def example_running_def example_start_def)

text \<open>An instance: a client is opened, then the server is started.\<close>

lemma server_lifecycle_witness:
  "let sv = fold (server_step example_runtime) (example_setup @ [example_start]) example_server
   in g_running sv \<and> app_runs (sv_app sv) \<le> 1 \<and> g_dispatcherFd sv = fst (g_wakePipe sv) \<and> 0 < g_queueMaxSize (sv_queue sv)"
  using example_started(1) server_lifecycle [OF example_fresh example_ops_ok refl, of example_runtime]
  unfolding example_run Let_def by blast

text \<open>After the server has stopped: anything but opening a client or shutting all of them down.\<close>

fun stranded_op :: "server_op \<Rightarrow> bool" where
  "stranded_op (CallConnect _ _ _ _ _ _) \<longleftrightarrow> False"
| "stranded_op CallClientShutdown \<longleftrightarrow> False"
| "stranded_op _ \<longleftrightarrow> True"

fun client_event_of :: "server_op \<Rightarrow> client_event list" where
  "client_event_of (IoClientResult _ i r) = [if r = 0 then ClOpen i else ClClose i ''connect_failed'' r]"
| "client_event_of (IoClientMessage _ i m b) = [ClMessage i m b]"
| "client_event_of (IoClientClosed _ i) = [ClClose i ''closed'' 0]"
| "client_event_of _ = []"

definition stranded :: "'w \<Rightarrow> uint64 list \<Rightarrow> client_event list \<Rightarrow> 'w server \<Rightarrow> bool" where
  "stranded w ids evs sv \<longleftrightarrow> \<not> g_running sv \<and> g_everStarted sv \<and> g_dispatcherFd sv = - 1 \<and> g_wsClientLoop (sv_clients sv)
     \<and> ds_world (sv_disp sv) = w \<and> map fst (g_wsClients (sv_clients sv)) = ids \<and> g_wsClientEvents (sv_clients sv) = evs"

lemma client_calls_keep:
  "map fst (g_wsClients (snd (drogonR_ws_client_close ub i s))) = map fst (g_wsClients s)"
  "g_wsClientEvents (snd (drogonR_ws_client_close ub i s)) = g_wsClientEvents s"
  "g_wsClientLoop (snd (drogonR_ws_client_close ub i s)) = g_wsClientLoop s"
  "g_wsClients (snd (drogonR_ws_client_send ub i m b s)) = g_wsClients s"
  "g_wsClientEvents (snd (drogonR_ws_client_send ub i m b s)) = g_wsClientEvents s"
  "g_wsClientLoop (snd (drogonR_ws_client_send ub i m b s)) = g_wsClientLoop s"
  by (auto simp: drogonR_ws_client_close_def drogonR_ws_client_send_def split: option.split)

lemma stranded_registration:
  "stranded w ids evs sv \<Longrightarrow> stranded w ids evs (snd (drogonR_register_route m p rx ns h sv))"
  "stranded w ids evs sv \<Longrightarrow> stranded w ids evs (snd (drogonR_register_cpp_route m p rx ns h sv))"
  "stranded w ids evs sv \<Longrightarrow> stranded w ids evs (snd (drogonR_register_cpp_stream_route m p rx ns h ct sv))"
  "stranded w ids evs sv \<Longrightarrow> stranded w ids evs (snd (drogonR_clear_routes sv))"
  unfolding drogonR_register_route_def drogonR_register_cpp_route_def drogonR_register_cpp_stream_route_def drogonR_clear_routes_def
  by (auto simp: stranded_def Let_def split: sum.split option.split prod.split)

lemma stranded_step:
  assumes "stranded w ids evs sv" "stranded_op op"
  shows "stranded w ids (evs @ client_event_of op) (server_step E op sv)"
  using assms stranded_registration [OF assms(1)]
  by (cases op)
     (auto simp: drogonR_server_start_def drogonR_server_stop_def fireWatch_def runDispatcher_def
        ioRequest_def ioWs_def ioClient_def onConnectResult_def onClientMessage_def onClientClosed_def enqueueClientEvent_def
        client_calls_keep stranded_def split: sum.split prod.split)

lemma stranded_steps:
  "stranded w ids evs sv \<Longrightarrow> list_all stranded_op ops \<Longrightarrow>
     stranded w ids (evs @ concat (map client_event_of ops)) (fold (server_step E) ops sv)"
proof (induction ops arbitrary: evs sv)
  case (Cons op ops)
  then have "stranded w ids (evs @ client_event_of op) (server_step E op sv)" by (simp add: stranded_step)
  from Cons.IH [OF this] Cons.prems show ?case by simp
qed simp

lemma stop_strands:
  assumes "g_running sv" "g_everStarted sv" "pipe_ok sv" "g_wsClientLoop (sv_clients sv)"
  shows "stranded (ds_world (sv_disp sv)) (map fst (g_wsClients (sv_clients sv))) (g_wsClientEvents (sv_clients sv)) (drogonR_server_stop sv)"
  using assms
  by (auto simp: stranded_def drogonR_server_stop_def shutdownDispatcher_def unregisterDispatcherFd_def pipe_ok_def Let_def)

text \<open>
  (C37) Stopping the server strands the WebSocket clients of the session. They stay connected and in the table, and their
  callbacks keep appending events, but whatever happens next short of opening another client (messages, closings, watches
  that fire, calls to send or close, attempts to restart), no event is delivered and no R code runs: the queue holds every
  event since the stop. The dispatcher they share with the server was torn down while they were alive.
\<close>

theorem stop_strands_clients:
  assumes "fresh_server sv0" "list_all op_ok ops0" "sv = fold (server_step E) ops0 sv0"
    and "g_running sv" "g_wsClientLoop (sv_clients sv)" "list_all stranded_op ops"
  shows "let fin = fold (server_step E) ops (drogonR_server_stop sv)
    in g_wsClientEvents (sv_clients fin) = g_wsClientEvents (sv_clients sv) @ concat (map client_event_of ops)
       \<and> map fst (g_wsClients (sv_clients fin)) = map fst (g_wsClients (sv_clients sv))
       \<and> ds_world (sv_disp fin) = ds_world (sv_disp sv)"
proof -
  have "server_ok (sv_preserved sv0) sv"
    unfolding assms(3) by (rule server_steps_ok [OF fresh_server_ok [OF assms(1)] assms(2)])
  with assms(4) have "g_everStarted sv" "pipe_ok sv" by (simp_all add: server_ok_def run_ok_def)
  from stranded_steps [OF stop_strands [OF assms(4) this assms(5)] assms(6), of E]
  show ?thesis by (simp add: stranded_def Let_def)
qed

text \<open>An instance: a message of the client arrives after the stop.\<close>

lemma stop_strands_clients_witness:
  "let sv = fold (server_step example_runtime) (example_setup @ [example_start]) example_server;
       fin = fold (server_step example_runtime) [IoClientMessage 0 1 ''hi'' False, FireWatch 0] (drogonR_server_stop sv)
   in g_wsClientEvents (sv_clients fin) = [ClMessage 1 ''hi'' False] \<and> map fst (g_wsClients (sv_clients fin)) = [1]
      \<and> ds_world (sv_disp fin) = ds_world (sv_disp sv)"
proof -
  let ?sv = "fold (server_step example_runtime) (example_setup @ [example_start]) example_server"
  have "g_running ?sv" and c: "sv_clients ?sv = sv_clients example_ready"
    by (simp_all only: example_run example_started)
  then show ?thesis
    using stop_strands_clients [OF example_fresh example_ops_ok refl, of example_runtime "[IoClientMessage 0 1 ''hi'' False, FireWatch 0]"]
    by (simp only: Let_def c example_ready_fields) (simp add: example_ready_fields)
qed

section \<open>Paths of WebSocket routes\<close>

lemma register_all_methods:
  assumes "m \<in> set all_methods"
  shows "\<exists>b. addCtrlBinderToRouterItem (newBinder h) [] bs m = Some b \<and> bd_handler b = h"
proof -
  have set: "m \<in> set ms \<Longrightarrow> fold (\<lambda>m bs. bs(m \<mapsto> b)) ms bs m = Some b" for ms b and bs :: "'a binders"
    by (induction ms arbitrary: bs rule: rev_induct) (auto simp del: fold_simps)
  from set [OF assms] show ?thesis by (simp add: addCtrlBinderToRouterItem_def newBinder_def)
qed

lemma registered_paths:
  assumes "path \<in> set paths" "m \<in> set all_methods"
  shows "\<exists>bs b. map_of (wsCtrlMap (fold (\<lambda>path. registerWebSocketController path h []) paths r)) (map tolower path) = Some bs
     \<and> bs m = Some b \<and> bd_handler b = h"
  using assms(1)
proof (induction paths rule: rev_induct)
  case (snoc p paths)
  show ?case
  proof (cases "map tolower p = map tolower path")
    case True
    then show ?thesis
      using register_all_methods [OF assms(2), of h] by (simp add: registerWebSocketController_def update_key_def)
  next
    case False
    with snoc show ?thesis
      by (auto simp: registerWebSocketController_def update_key_def map_of_drop_key)
  qed
qed simp

lemma wsCtrlMap_init: "map_of (wsCtrlMap (router_init r)) k = map_option init_binders (map_of (wsCtrlMap r) k)"
proof -
  have "map_of (map (apsnd f) xs) k = map_option f (map_of xs k)" for f and xs :: "('b \<times> 'c) list" and k
    by (induction xs) auto
  then show ?thesis by (simp add: router_init_def Let_def)
qed

lemma find_index_none: "path \<notin> wr_path ` set rs \<Longrightarrow> find_index path rs i = - 1"
  by (induction rs arbitrary: i) auto


text \<open>An instance: the route is \<^verbatim>\<open>/Chat\<close>, the client asks for \<^verbatim>\<open>/chat\<close>.\<close>

definition example_upgrade :: request where
  "example_upgrade = HttpRequestImpl\<lparr>rq_method := Get, rq_path := ''/chat'', rq_headers := [(''sec-websocket-key'', ''k'')]\<rparr>"


end
