(* ===== verification/TcpConnection.thy ===== *)
theory TcpConnection
  imports Prelude
begin

text \<open>
  The write side of \<^verbatim>\<open>src/src/drogon/trantor/net/inner/TcpConnectionImpl.cc\<close> with its buffer nodes, for a
  connection without TLS on Linux: direct writes, the queue of memory, file, stream and asynchronous nodes, the
  callback for a writable socket, and shutting down.  Everything runs on the connection's loop; a call from
  another thread is queued there and runs later.  The kernel's answers are a parameter.  Buffers are strings (the
  buffer class behind them is in \<^verbatim>\<open>MsgBuffer\<close>); files do not change while they are sent.
\<close>

section \<open>Buffer nodes\<close>

text \<open>
  A file node holds the bytes still to be sent; a stream node the results its callback has still to give (it ends
  with an empty one), its buffer and \<^verbatim>\<open>isDone_\<close>; an asynchronous node its identity, buffer and \<^verbatim>\<open>isDone_\<close>.
\<close>

datatype buf_node =
    MemNode string
  | FileNode string
  | StreamNode "string list" string bool
  | AsyncNode nat string bool

fun isFile :: "buf_node \<Rightarrow> bool" where
  "isFile (FileNode _) = True" | "isFile _ = False"

fun isStream :: "buf_node \<Rightarrow> bool" where
  "isStream (StreamNode _ _ _) = True" | "isStream (AsyncNode _ _ _) = True" | "isStream _ = False"

fun isAsync :: "buf_node \<Rightarrow> bool" where
  "isAsync (AsyncNode _ _ _) = True" | "isAsync _ = False"

fun available :: "buf_node \<Rightarrow> bool" where
  "available (AsyncNode _ _ d) = (\<not> d)" | "available _ = True"

fun remainingBytes :: "buf_node \<Rightarrow> nat" where
  "remainingBytes (MemNode s) = length s"
| "remainingBytes (FileNode s) = length s"
| "remainingBytes (StreamNode _ _ d) = (if d then 0 else 1)"
| "remainingBytes (AsyncNode _ s _) = length s"

fun getData :: "buf_node \<Rightarrow> string \<times> buf_node" where
  "getData (MemNode s) = (s, MemNode s)"
| "getData (FileNode s) = (s, FileNode s)"
| "getData (AsyncNode i s d) = (s, AsyncNode i s d)"
| "getData (StreamNode [] [] d) = ([], StreamNode [] [] True)"
| "getData (StreamNode (x # xs) [] d) = (x, StreamNode xs x (d \<or> x = []))"
| "getData (StreamNode xs b d) = (b, StreamNode xs b d)"

fun retrieve :: "nat \<Rightarrow> buf_node \<Rightarrow> buf_node" where
  "retrieve n (MemNode s) = MemNode (drop n s)"
| "retrieve n (FileNode s) = FileNode (drop n s)"
| "retrieve n (StreamNode xs b d) = StreamNode xs (drop n b) d"
| "retrieve n (AsyncNode i s d) = AsyncNode i (drop n s) d"

fun append_data :: "string \<Rightarrow> buf_node \<Rightarrow> buf_node" where
  "append_data t (MemNode s) = MemNode (s @ t)"
| "append_data t (AsyncNode i s d) = AsyncNode i (s @ t) d"
| "append_data t node = node"

text \<open>\<^verbatim>\<open>isDone_\<close> makes a memory or file node count as finished.\<close>

fun node_done :: "buf_node \<Rightarrow> buf_node" where
  "node_done (MemNode _) = MemNode []"
| "node_done (FileNode _) = FileNode []"
| "node_done (StreamNode xs b _) = StreamNode xs b True"
| "node_done (AsyncNode i s _) = AsyncNode i s True"

text \<open>
  The file node of \<^verbatim>\<open>sendFile\<close>: \<open>content\<close> is \<open>None\<close> when the file cannot be opened. The server only asks
  for lengths that are not negative.
\<close>

definition newFileBufferNode :: "string option \<Rightarrow> int \<Rightarrow> nat \<Rightarrow> buf_node option" where
  "newFileBufferNode content offset len =
     (if offset < 0 then None
      else case content of
             None \<Rightarrow> None
           | Some s \<Rightarrow>
               if len = 0 then (if offset \<ge> int (length s) then None else Some (FileNode (drop (nat offset) s)))
               else if int len > int (length s) - offset then None
               else Some (FileNode (take len (drop (nat offset) s))))"

section \<open>The connection\<close>

datatype ConnStatus = Disconnected | Connecting | Connected | Disconnecting

datatype kres = Took nat | Again | Refused

record tcp_conn =
  tc_status :: ConnStatus
  tc_list :: "buf_node list"     \<comment> \<open>\<^verbatim>\<open>writeBufferList_\<close>\<close>
  tc_writing :: bool             \<comment> \<open>\<^verbatim>\<open>ioChannelPtr_->isWriting()\<close>\<close>
  tc_closeOnEmpty :: bool
  tc_shut :: bool                \<comment> \<open>\<^verbatim>\<open>closeWrite()\<close> was called\<close>
  tc_wire :: string              \<comment> \<open>the bytes the kernel has taken\<close>
  tc_calls :: nat                \<comment> \<open>how many system calls have been made\<close>

text \<open>\<^verbatim>\<open>static_cast<int>(length)\<close>, and the most Linux takes in one call.\<close>

definition int_of_size :: "nat \<Rightarrow> int" where
  "int_of_size n = (let m = int n mod 2 ^ 32 in if m < 2 ^ 31 then m else m - 2 ^ 32)"

definition kMaxSendBytes :: nat where
  "kMaxSendBytes = 2147479552"

text \<open>The kernel takes at least one byte or answers that it would block; nothing is taken after \<^verbatim>\<open>closeWrite()\<close>.\<close>

definition kwrite :: "(nat \<Rightarrow> kres) \<Rightarrow> nat \<Rightarrow> tcp_conn \<Rightarrow> kres \<times> tcp_conn" where
  "kwrite K len c =
     ((if tc_shut c then Refused
       else case K (tc_calls c) of
              Took n \<Rightarrow> Took (min (Suc n) (min len kMaxSendBytes))
            | Again \<Rightarrow> Again
            | Refused \<Rightarrow> Refused),
      c\<lparr>tc_calls := Suc (tc_calls c)\<rparr>)"

definition writeRaw :: "(nat \<Rightarrow> kres) \<Rightarrow> string \<Rightarrow> tcp_conn \<Rightarrow> int \<times> tcp_conn" where
  "writeRaw K s c =
     (case kwrite K (length s) c of
        (Refused, c1) \<Rightarrow> (- 1, c1)
      | (Again, c1) \<Rightarrow> (0, if 0 < int_of_size (length s) then c1\<lparr>tc_writing := True\<rparr> else c1)
      | (Took n, c1) \<Rightarrow>
          (int n, if int n < int_of_size (length s) then c1\<lparr>tc_wire := tc_wire c1 @ take n s, tc_writing := True\<rparr>
                  else c1\<lparr>tc_wire := tc_wire c1 @ take n s\<rparr>))"

text \<open>The branch of \<^verbatim>\<open>sendNodeInLoop\<close> for files: \<^verbatim>\<open>sendfile()\<close>, whose result is returned as it is.\<close>

definition sendFileNode :: "(nat \<Rightarrow> kres) \<Rightarrow> string \<Rightarrow> tcp_conn \<Rightarrow> int \<times> buf_node \<times> tcp_conn" where
  "sendFileNode K s c =
     (if s = [] then (- 1, FileNode s, c)
      else case kwrite K (length s) c of
             (Refused, c1) \<Rightarrow> (- 1, FileNode s, c1)
           | (Again, c1) \<Rightarrow> (- 1, FileNode s, c1\<lparr>tc_writing := True\<rparr>)
           | (Took n, c1) \<Rightarrow>
               (int n, FileNode (drop n s),
                if n < length s then c1\<lparr>tc_wire := tc_wire c1 @ take n s, tc_writing := True\<rparr>
                else c1\<lparr>tc_wire := tc_wire c1 @ take n s\<rparr>))"

fun node_work :: "buf_node \<Rightarrow> nat" where
  "node_work (MemNode s) = (if s = [] then 0 else 1)"
| "node_work (FileNode s) = (if s = [] then 0 else 1)"
| "node_work (AsyncNode i s d) = (if s = [] then 0 else 1)"
| "node_work (StreamNode xs b d) = (if d then 0 else Suc (length xs) + (if b = [] then 0 else 1))"

lemma node_work_step:
  assumes "remainingBytes node \<noteq> 0" "getData node = (data, node1)" "data \<noteq> []"
  shows "node_work (retrieve (length data) node1) < node_work node"
  using assms by (cases node rule: getData.cases) (auto split: if_splits)

function sendData :: "(nat \<Rightarrow> kres) \<Rightarrow> buf_node \<Rightarrow> int \<Rightarrow> tcp_conn \<Rightarrow> int \<times> buf_node \<times> tcp_conn" where
  "sendData K node hasSent c =
     (if remainingBytes node = 0 then (hasSent, node, c)
      else case getData node of
             (data, node1) \<Rightarrow>
               if data = [] then (hasSent, node_done node1, c)
               else case writeRaw K data c of
                      (n, c1) \<Rightarrow>
                        if n < 0 then (- 1, node1, c1)
                        else if nat n < length data then (hasSent + n, retrieve (nat n) node1, c1)
                        else sendData K (retrieve (length data) node1) (hasSent + n) c1)"
  by pat_completeness auto
termination
  by (relation "measure (\<lambda>(K, node, hasSent, c). node_work node)") (auto intro: node_work_step)

declare sendData.simps [simp del]

definition sendNodeInLoop :: "(nat \<Rightarrow> kres) \<Rightarrow> buf_node \<Rightarrow> tcp_conn \<Rightarrow> int \<times> buf_node \<times> tcp_conn" where
  "sendNodeInLoop K node c = (case node of FileNode s \<Rightarrow> sendFileNode K s c | _ \<Rightarrow> sendData K node 0 c)"

definition pushNode :: "buf_node \<Rightarrow> tcp_conn \<Rightarrow> tcp_conn" where
  "pushNode node c = c\<lparr>tc_list := tc_list c @ [node]\<rparr>"

definition enqueueData :: "string \<Rightarrow> tcp_conn \<Rightarrow> tcp_conn" where
  "enqueueData s c =
     (if s \<noteq> [] \<and> tc_status c = Connected
      then let c1 = (if tc_list c = [] \<or> isFile (last (tc_list c)) \<or> isStream (last (tc_list c)) then pushNode (MemNode []) c else c)
           in c1\<lparr>tc_list := butlast (tc_list c1) @ [append_data s (last (tc_list c1))]\<rparr>
      else c)"

definition sendInLoop :: "(nat \<Rightarrow> kres) \<Rightarrow> string \<Rightarrow> tcp_conn \<Rightarrow> tcp_conn" where
  "sendInLoop K s c =
     (if tc_status c \<noteq> Connected then c
      else if \<not> tc_writing c \<and> tc_list c = [] then
        (case writeRaw K s c of (n, c1) \<Rightarrow> if n < 0 then c1 else enqueueData (drop (nat n) s) c1)
      else enqueueData s c)"

text \<open>\<^verbatim>\<open>sendFile\<close> and \<^verbatim>\<open>sendStream\<close> with their node.\<close>

definition sendNode :: "(nat \<Rightarrow> kres) \<Rightarrow> buf_node \<Rightarrow> tcp_conn \<Rightarrow> tcp_conn" where
  "sendNode K node c =
     (if tc_list c = [] then
        (case sendNodeInLoop K node c of
           (n, node1, c1) \<Rightarrow> if remainingBytes node1 > 0 \<and> n \<ge> 0 then pushNode node1 c1 else c1)
      else pushNode node c)"

definition sendFile :: "(nat \<Rightarrow> kres) \<Rightarrow> string option \<Rightarrow> int \<Rightarrow> nat \<Rightarrow> tcp_conn \<Rightarrow> tcp_conn" where
  "sendFile K content offset len c =
     (case newFileBufferNode content offset len of None \<Rightarrow> c | Some node \<Rightarrow> sendNode K node c)"

definition sendStream :: "(nat \<Rightarrow> kres) \<Rightarrow> string list \<Rightarrow> tcp_conn \<Rightarrow> tcp_conn" where
  "sendStream K chunks c = sendNode K (StreamNode chunks [] False) c"

definition sendAsyncStream :: "nat \<Rightarrow> tcp_conn \<Rightarrow> tcp_conn" where
  "sendAsyncStream i c = pushNode (AsyncNode i [] False) c"

fun is_node :: "nat \<Rightarrow> buf_node \<Rightarrow> bool" where
  "is_node i (AsyncNode j _ _) = (i = j)" | "is_node i _ = False"

definition on_node :: "nat \<Rightarrow> (buf_node \<Rightarrow> buf_node) \<Rightarrow> tcp_conn \<Rightarrow> tcp_conn" where
  "on_node i f c = c\<lparr>tc_list := map (\<lambda>node. if is_node i node then f node else node) (tc_list c)\<rparr>"

definition is_front :: "nat \<Rightarrow> tcp_conn \<Rightarrow> bool" where
  "is_front i c \<longleftrightarrow> tc_list c \<noteq> [] \<and> is_node i (hd (tc_list c))"

text \<open>\<^verbatim>\<open>sendAsyncDataInLoop\<close>, with data and with the null pointer that closes the stream.\<close>

definition sendAsyncData :: "(nat \<Rightarrow> kres) \<Rightarrow> nat \<Rightarrow> string \<Rightarrow> tcp_conn \<Rightarrow> tcp_conn" where
  "sendAsyncData K i s c =
     (if s = [] then c
      else if is_front i c \<and> remainingBytes (hd (tc_list c)) = 0 then
        (case writeRaw K s c of (n, c1) \<Rightarrow> if n < 0 then c1 else if nat n < length s then on_node i (append_data (drop (nat n) s)) c1 else c1)
      else on_node i (append_data s) c)"

definition closeAsync :: "nat \<Rightarrow> tcp_conn \<Rightarrow> tcp_conn" where
  "closeAsync i c =
     (let c1 = on_node i node_done c
      in if is_front i c1 then c1\<lparr>tc_writing := True\<rparr> else c1)"

definition tcp_shutdown :: "tcp_conn \<Rightarrow> tcp_conn" where
  "tcp_shutdown c =
     (if tc_status c = Connected then
        if tc_list c \<noteq> [] then c\<lparr>tc_closeOnEmpty := True\<rparr>
        else if \<not> tc_writing c then c\<lparr>tc_status := Disconnecting, tc_shut := True\<rparr>
        else c\<lparr>tc_status := Disconnecting\<rparr>
      else c)"

definition handleClose :: "tcp_conn \<Rightarrow> tcp_conn" where
  "handleClose c = c\<lparr>tc_status := Disconnected, tc_writing := False\<rparr>"

definition forceClose :: "tcp_conn \<Rightarrow> tcp_conn" where
  "forceClose c = (if tc_status c = Connected \<or> tc_status c = Disconnecting then handleClose c else c)"

text \<open>The loop of \<^verbatim>\<open>writeCallback\<close> over the nodes.\<close>

function write_loop :: "(nat \<Rightarrow> kres) \<Rightarrow> buf_node list \<Rightarrow> tcp_conn \<Rightarrow> tcp_conn" where
  "write_loop K [] c =
     (let c1 = c\<lparr>tc_list := [], tc_writing := False\<rparr> in if tc_closeOnEmpty c1 then tcp_shutdown c1 else c1)"
| "write_loop K (node # nodes) c =
     (if remainingBytes node = 0 then
        if \<not> isAsync node \<or> \<not> available node then write_loop K nodes c
        else c\<lparr>tc_list := node # nodes, tc_writing := False\<rparr>
      else case sendNodeInLoop K node c of
             (n, node1, c1) \<Rightarrow>
               if remainingBytes node1 > 0 \<or> n < 0 then c1\<lparr>tc_list := node1 # nodes\<rparr>
               else write_loop K (node1 # nodes) c1)"
  by pat_completeness auto
termination
  by (relation "measures [\<lambda>(K, nodes, c). length nodes, \<lambda>(K, nodes, c). if nodes = [] then 0 else remainingBytes (hd nodes)]") auto

definition writeCallback :: "(nat \<Rightarrow> kres) \<Rightarrow> tcp_conn \<Rightarrow> tcp_conn" where
  "writeCallback K c = (if tc_writing c then write_loop K (tc_list c) c else c)"

datatype tcp_op =
    OpSend string
  | OpSendFile "string option" int nat
  | OpSendStream "string list"
  | OpAsync nat
  | OpAsyncSend nat string
  | OpAsyncClose nat
  | OpWritable
  | OpShutdown
  | OpForceClose
  | OpPeerClosed

text \<open>The function behind an \<^verbatim>\<open>AsyncStream\<close> gives up unless the connection is up.\<close>

fun tcp_step :: "(nat \<Rightarrow> kres) \<Rightarrow> tcp_op \<Rightarrow> tcp_conn \<Rightarrow> tcp_conn" where
  "tcp_step K (OpSend s) c = sendInLoop K s c"
| "tcp_step K (OpSendFile content offset len) c = sendFile K content offset len c"
| "tcp_step K (OpSendStream chunks) c = sendStream K chunks c"
| "tcp_step K (OpAsync i) c = sendAsyncStream i c"
| "tcp_step K (OpAsyncSend i s) c = (if tc_status c = Connected then sendAsyncData K i s c else c)"
| "tcp_step K (OpAsyncClose i) c = (if tc_status c = Connected then closeAsync i c else c)"
| "tcp_step K OpWritable c = writeCallback K c"
| "tcp_step K OpShutdown c = tcp_shutdown c"
| "tcp_step K OpForceClose c = forceClose c"
| "tcp_step K OpPeerClosed c = handleClose c"

section \<open>What the peer is to receive\<close>

text \<open>
  The specification is the text to be received, with a hole where an asynchronous stream is still open: its
  next data goes there, whatever has been sent behind it in the meantime.
\<close>

datatype tok = B char | Hole nat

definition fill :: "nat \<Rightarrow> string \<Rightarrow> tok list \<Rightarrow> tok list" where
  "fill i s T = concat (map (\<lambda>t. if t = Hole i then map B s @ [Hole i] else [t]) T)"

definition close_hole :: "nat \<Rightarrow> tok list \<Rightarrow> tok list" where
  "close_hole i T = filter (\<lambda>t. t \<noteq> Hole i) T"

definition stream_text :: "string list \<Rightarrow> string" where
  "stream_text chunks = concat (takeWhile (\<lambda>x. x \<noteq> []) chunks)"

definition file_text :: "string option \<Rightarrow> int \<Rightarrow> nat \<Rightarrow> string" where
  "file_text content offset len = (case newFileBufferNode content offset len of Some (FileNode s) \<Rightarrow> s | _ \<Rightarrow> [])"

fun spec_step :: "tcp_op \<Rightarrow> tok list \<Rightarrow> tok list" where
  "spec_step (OpSend s) T = T @ map B s"
| "spec_step (OpSendFile content offset len) T = T @ map B (file_text content offset len)"
| "spec_step (OpSendStream chunks) T = T @ map B (stream_text chunks)"
| "spec_step (OpAsync i) T = T @ [Hole i]"
| "spec_step (OpAsyncSend i s) T = fill i s T"
| "spec_step (OpAsyncClose i) T = close_hole i T"
| "spec_step _ T = T"

text \<open>The two side by side; operations on a connection that is no longer up have no effect.\<close>

definition both_step :: "(nat \<Rightarrow> kres) \<Rightarrow> tcp_op \<Rightarrow> tcp_conn \<times> tok list \<Rightarrow> tcp_conn \<times> tok list" where
  "both_step K op x = (tcp_step K op (fst x), if tc_status (fst x) = Connected then spec_step op (snd x) else snd x)"

fun node_toks :: "buf_node \<Rightarrow> tok list" where
  "node_toks (MemNode s) = map B s"
| "node_toks (FileNode s) = map B s"
| "node_toks (StreamNode chunks b d) = (if d then [] else map B (b @ stream_text chunks))"
| "node_toks (AsyncNode i s d) = map B s @ (if d then [] else [Hole i])"

definition pending_toks :: "buf_node list \<Rightarrow> tok list" where
  "pending_toks nodes = concat (map node_toks nodes)"

lemma pending_toks_simps [simp]:
  "pending_toks [] = []" "pending_toks (x # xs) = node_toks x @ pending_toks xs"
  "pending_toks (xs @ ys) = pending_toks xs @ pending_toks ys"
  by (simp_all add: pending_toks_def)

section \<open>Writing\<close>

lemma int_of_size_le: "int_of_size n \<le> int n"
  by (auto simp: int_of_size_def Let_def) (smt (verit) zmod_le_nonneg_dividend of_nat_0_le_iff)

lemma int_of_size_small: "n < 2 ^ 31 \<Longrightarrow> int_of_size n = int n"
  by (simp add: int_of_size_def Let_def)

lemma writeRaw_spec:
  assumes "writeRaw K s c = (n, c1)" "K (tc_calls c) \<noteq> Refused" "\<not> tc_shut c"
  obtains m w where "n = int m" "m \<le> length s"
    "c1 = c\<lparr>tc_wire := tc_wire c @ take m s, tc_writing := w, tc_calls := Suc (tc_calls c)\<rparr>"
    "tc_writing c \<Longrightarrow> w" "m < length s \<Longrightarrow> length s < 2 ^ 31 \<Longrightarrow> w" "w \<Longrightarrow> tc_writing c \<or> m < length s"
proof (cases "K (tc_calls c)")
  case (Took k)
  let ?m = "min (Suc k) (min (length s) kMaxSendBytes)"
  from assms Took int_of_size_le [of "length s"] int_of_size_small [of "length s"] show thesis
    by (intro that [of ?m "tc_writing c \<or> int ?m < int_of_size (length s)"])
       (auto simp: writeRaw_def kwrite_def)
next
  case Again
  with assms int_of_size_le [of "length s"] int_of_size_small [of "length s"] show thesis
    by (intro that [of 0 "tc_writing c \<or> 0 < int_of_size (length s)"])
       (auto simp: writeRaw_def kwrite_def)
next
  case Refused
  with assms show thesis by simp
qed

text \<open>
  What sending a node does: text moves from the node to the wire, the node stays the same node, and the channel
  waits for the socket exactly when something is left (unless a length does not fit an \<^verbatim>\<open>int\<close>).
\<close>

fun chunks_fit :: "buf_node \<Rightarrow> bool" where
  "chunks_fit (StreamNode xs b d) \<longleftrightarrow> list_all (\<lambda>x. length x < 2 ^ 31) (b # xs)"
| "chunks_fit (MemNode s) \<longleftrightarrow> length s < 2 ^ 31"
| "chunks_fit (FileNode s) \<longleftrightarrow> True"
| "chunks_fit (AsyncNode i s d) \<longleftrightarrow> length s < 2 ^ 31"

fun same_node :: "buf_node \<Rightarrow> buf_node \<Rightarrow> bool" where
  "same_node (AsyncNode i s d) (AsyncNode j t e) \<longleftrightarrow> i = j \<and> d = e"
| "same_node (AsyncNode i s d) _ \<longleftrightarrow> False"
| "same_node _ (AsyncNode i s d) \<longleftrightarrow> False"
| "same_node _ _ \<longleftrightarrow> True"

definition moved :: "buf_node \<Rightarrow> tcp_conn \<Rightarrow> buf_node \<Rightarrow> tcp_conn \<Rightarrow> bool" where
  "moved node c node1 c1 \<longleftrightarrow>
     (\<exists>t w k. c1 = c\<lparr>tc_wire := tc_wire c @ t, tc_writing := w, tc_calls := k\<rparr> \<and> map B t @ node_toks node1 = node_toks node
        \<and> (tc_writing c \<longrightarrow> w) \<and> (w \<longrightarrow> tc_writing c \<or> remainingBytes node1 > 0)
        \<and> (remainingBytes node1 > 0 \<and> chunks_fit node \<longrightarrow> w)) \<and> same_node node node1"

lemma same_node_trans: "same_node a b \<Longrightarrow> same_node b c \<Longrightarrow> same_node a c"
  by (cases a; cases b; cases c) auto

lemma same_node_refl: "same_node a a"
  by (cases a) auto

lemma moved_refl: "remainingBytes node = 0 \<Longrightarrow> moved node c node c"
  unfolding moved_def
  by (intro conjI same_node_refl exI [of _ "[]"] exI [of _ "tc_writing c"] exI [of _ "tc_calls c"]) auto

lemma getData_facts:
  assumes "remainingBytes node \<noteq> 0" "getData node = (data, node1)"
  shows "same_node node node1"
    and "data = [] \<Longrightarrow> node_toks (node_done node1) = node_toks node \<and> remainingBytes (node_done node1) = 0 \<and> same_node node (node_done node1)"
    and "data \<noteq> [] \<Longrightarrow> m \<le> length data \<Longrightarrow> map B (take m data) @ node_toks (retrieve m node1) = node_toks node"
    and "data \<noteq> [] \<Longrightarrow> m < length data \<Longrightarrow> remainingBytes (retrieve m node1) > 0"
    and "chunks_fit node \<Longrightarrow> \<not> isFile node \<Longrightarrow> length data < 2 ^ 31 \<and> chunks_fit (retrieve m node1)"
    and "same_node node (retrieve m node1)" and "isFile (retrieve m node1) = isFile node"
proof -
  have cut: "map B (take m data) @ map B (drop m data @ t) = map B (data @ t)" for t
    by (metis append.assoc append_take_drop_id map_append)
  show "same_node node node1" "same_node node (retrieve m node1)" "isFile (retrieve m node1) = isFile node"
    "data = [] \<Longrightarrow> node_toks (node_done node1) = node_toks node \<and> remainingBytes (node_done node1) = 0 \<and> same_node node (node_done node1)"
    "data \<noteq> [] \<Longrightarrow> m < length data \<Longrightarrow> remainingBytes (retrieve m node1) > 0"
    "chunks_fit node \<Longrightarrow> \<not> isFile node \<Longrightarrow> length data < 2 ^ 31 \<and> chunks_fit (retrieve m node1)"
    using assms by (cases node rule: getData.cases; auto simp: stream_text_def)+
  show "data \<noteq> [] \<Longrightarrow> m \<le> length data \<Longrightarrow> map B (take m data) @ node_toks (retrieve m node1) = node_toks node"
    using assms cut by (cases node rule: getData.cases) (auto simp: stream_text_def simp flip: map_append split: if_splits)
qed

lemma moved_after_write:
  assumes "moved node2 c1 node1 c2" "c1 = c\<lparr>tc_wire := tc_wire c @ data, tc_writing := w, tc_calls := k\<rparr>"
    and "tc_writing c \<Longrightarrow> w" "w \<Longrightarrow> tc_writing c" "map B data @ node_toks node2 = node_toks node" "same_node node node2"
    and "chunks_fit node \<Longrightarrow> chunks_fit node2"
  shows "moved node c node1 c2"
proof -
  from assms(1) obtain t w' k' where t: "c2 = c1\<lparr>tc_wire := tc_wire c1 @ t, tc_writing := w', tc_calls := k'\<rparr>"
    "map B t @ node_toks node1 = node_toks node2" "tc_writing c1 \<longrightarrow> w'" "w' \<longrightarrow> tc_writing c1 \<or> remainingBytes node1 > 0"
    "remainingBytes node1 > 0 \<and> chunks_fit node2 \<longrightarrow> w'" "same_node node2 node1"
    unfolding moved_def by blast
  show ?thesis
    unfolding moved_def
  proof (intro conjI exI)
    show "c2 = c\<lparr>tc_wire := tc_wire c @ (data @ t), tc_writing := w', tc_calls := k'\<rparr>" by (simp add: t(1) assms(2))
    show "map B (data @ t) @ node_toks node1 = node_toks node" using t(2) assms(5) by simp
    show "same_node node node1" using assms(6) t(6) by (rule same_node_trans)
  qed (use t assms in \<open>auto\<close>)
qed

lemma sendData_moved:
  assumes "\<forall>k. K k \<noteq> Refused" "\<not> tc_shut c" "\<not> isFile node" "0 \<le> hasSent" "sendData K node hasSent c = (n, node1, c1)"
  shows "0 \<le> n \<and> moved node c node1 c1"
  using assms
proof (induction K node hasSent c rule: sendData.induct)
  case (1 K node hasSent c)
  obtain data node0 where d: "getData node = (data, node0)" by (metis surj_pair)
  show ?case
  proof (cases "remainingBytes node = 0 \<or> data = []")
    case True
    with 1(6) have "0 \<le> n" "remainingBytes node = 0 \<Longrightarrow> node1 = node \<and> c1 = c"
      "remainingBytes node \<noteq> 0 \<Longrightarrow> data = [] \<and> node1 = node_done node0 \<and> c1 = c"
      using 1(5) by (auto simp: sendData.simps [of K node] d split: if_splits)
    then show ?thesis
      using getData_facts(2) [OF _ d] moved_refl
      by (cases "remainingBytes node = 0") (auto simp: moved_def intro!: exI [of _ "[]"] exI [of _ "tc_writing c"] exI [of _ "tc_calls c"])
  next
    case False
    then have r: "remainingBytes node \<noteq> 0" "data \<noteq> []" by auto
    obtain n0 c0 where w0: "writeRaw K data c = (n0, c0)" by (metis surj_pair)
    obtain m w where w: "n0 = int m" "m \<le> length data"
      "c0 = c\<lparr>tc_wire := tc_wire c @ take m data, tc_writing := w, tc_calls := Suc (tc_calls c)\<rparr>"
      "tc_writing c \<Longrightarrow> w" "m < length data \<Longrightarrow> length data < 2 ^ 31 \<Longrightarrow> w" "w \<Longrightarrow> tc_writing c \<or> m < length data"
      using writeRaw_spec [OF w0] 1(2, 3) by blast
    note f = getData_facts [OF r(1) d]
    show ?thesis
    proof (cases "m < length data")
      case True
      with r w 1(6) have e: "n = hasSent + int m" "node1 = retrieve m node0" "c1 = c0"
        by (auto simp: sendData.simps [of K node] d w0)
      have "moved node c node1 c1"
        unfolding moved_def e w(3)
        using f(3) [OF r(2) w(2)] f(4) [OF r(2) True] f(5) [of m] f(6) [of m] w(4-6) True 1(4) by blast
      with e 1(5) show ?thesis by simp
    next
      case False
      with w(2) have m: "m = length data" by simp
      have rec: "sendData K (retrieve (length data) node0) (hasSent + n0) c0 = (n, node1, c1)"
        using r w m 1(6) by (simp add: sendData.simps [of K node] d w0)
      have "\<not> isFile (retrieve (length data) node0)" "\<not> tc_shut c0" "0 \<le> hasSent + n0"
        using f(7) [of "length data"] 1(3, 4, 5) w(1, 3) by simp_all
      then have IH: "0 \<le> n \<and> moved (retrieve (length data) node0) c0 node1 c1"
        using 1(1) [OF r(1) d [symmetric] r(2) w0 [symmetric]] 1(2) rec w m by simp
      have "moved node c node1 c1"
        by (rule moved_after_write [OF IH [THEN conjunct2] w(3)])
           (use w(4, 6) m f(3) [OF r(2), of "length data"] f(6) [of "length data"] f(5) [of "length data"] 1(4) in auto)
      with IH show ?thesis by simp
    qed
  qed
qed

lemma sendFileNode_moved:
  assumes "\<forall>k. K k \<noteq> Refused" "\<not> tc_shut c" "s \<noteq> []" "sendFileNode K s c = (n, node1, c1)"
  shows "moved (FileNode s) c node1 c1 \<and> (n < 0 \<longleftrightarrow> K (tc_calls c) = Again) \<and> (n < 0 \<longrightarrow> remainingBytes node1 > 0)"
proof (cases "K (tc_calls c)")
  case (Took k)
  let ?m = "min (Suc k) (min (length s) kMaxSendBytes)"
  have "map B (take ?m s) @ map B (drop ?m s) = map B s" by (simp flip: map_append)
  with Took assms(2, 3, 4) show ?thesis
    by (auto simp: sendFileNode_def kwrite_def moved_def
        intro!: exI [of _ "take ?m s"] exI [of _ "tc_writing c \<or> ?m < length s"] exI [of _ "Suc (tc_calls c)"])
next
  case Again
  with assms(2, 3, 4) show ?thesis
    by (auto simp: sendFileNode_def kwrite_def moved_def
        intro!: exI [of _ "[]"] exI [of _ True] exI [of _ "Suc (tc_calls c)"])
next
  case Refused
  with assms(1) show ?thesis by simp
qed

lemma sendNodeInLoop_moved:
  assumes "\<forall>k. K k \<noteq> Refused" "\<not> tc_shut c" "remainingBytes node \<noteq> 0" "sendNodeInLoop K node c = (n, node1, c1)"
  shows "moved node c node1 c1" "n < 0 \<Longrightarrow> remainingBytes node1 > 0"
  using assms sendData_moved [OF assms(1, 2), of node 0 n node1 c1] sendFileNode_moved [OF assms(1, 2)]
  by (cases node; fastforce simp: sendNodeInLoop_def)+

section \<open>The state between two operations\<close>

definition waiting :: "buf_node list \<Rightarrow> bool" where
  "waiting nodes \<longleftrightarrow> (\<exists>i rest. nodes = AsyncNode i [] False # rest)"

definition rest_ok :: "tcp_conn \<Rightarrow> bool" where
  "rest_ok c \<longleftrightarrow>
     (case tc_status c of
        Connected \<Rightarrow> \<not> tc_shut c \<and> (tc_list c \<noteq> [] \<longrightarrow> tc_writing c \<or> waiting (tc_list c)) \<and> (tc_writing c \<longrightarrow> tc_list c \<noteq> [])
      | Disconnecting \<Rightarrow> tc_list c = [] \<and> tc_shut c \<and> \<not> tc_writing c
      | Disconnected \<Rightarrow> \<not> tc_writing c
      | Connecting \<Rightarrow> False)"

fun node_ids :: "buf_node \<Rightarrow> nat list" where
  "node_ids (AsyncNode i s d) = [i]" | "node_ids _ = []"

definition async_ids :: "buf_node list \<Rightarrow> nat list" where
  "async_ids nodes = concat (map node_ids nodes)"

lemma async_ids_simps [simp]:
  "async_ids [] = []" "async_ids (x # xs) = node_ids x @ async_ids xs" "async_ids (xs @ ys) = async_ids xs @ async_ids ys"
  by (simp_all add: async_ids_def)

lemma same_node_ids: "same_node a b \<Longrightarrow> node_ids b = node_ids a"
  by (cases a; cases b) auto

definition agrees :: "tcp_conn \<Rightarrow> tok list \<Rightarrow> bool" where
  "agrees c T \<longleftrightarrow> map B (tc_wire c) @ pending_toks (tc_list c) = T \<and> distinct (async_ids (tc_list c)) \<and> rest_ok c"

lemma shutdown_empty:
  "agrees c T \<Longrightarrow> agrees (tcp_shutdown c) T"
  by (auto simp: agrees_def tcp_shutdown_def rest_ok_def)

lemma write_loop_agrees:
  assumes "\<forall>k. K k \<noteq> Refused" "tc_status c = Connected" "\<not> tc_shut c" "tc_writing c"
    and "map B (tc_wire c) @ pending_toks nodes = T" "distinct (async_ids nodes)"
  shows "agrees (write_loop K nodes c) T"
  using assms
proof (induction K nodes c rule: write_loop.induct)
  case (1 K c)
  then have "agrees (c\<lparr>tc_list := [], tc_writing := False\<rparr>) T" by (simp add: agrees_def rest_ok_def)
  then show ?case using shutdown_empty by (simp add: Let_def)
next
  case (2 K node nodes c)
  show ?case
  proof (cases "remainingBytes node = 0")
    case True
    then consider (pop) "\<not> isAsync node \<or> \<not> available node" "node_toks node = []" | (wait) i where "node = AsyncNode i [] False"
      by (cases node) (auto split: if_splits)
    then show ?thesis
    proof cases
      case pop
      with True 2 show ?thesis by simp
    next
      case wait
      with 2 show ?thesis by (auto simp: agrees_def rest_ok_def waiting_def)
    qed
  next
    case False
    obtain n node1 c1 where n: "sendNodeInLoop K node c = (n, node1, c1)" by (metis prod_cases3)
    note m = sendNodeInLoop_moved [OF 2(3, 5) False n]
    then obtain t w k where c1: "c1 = c\<lparr>tc_wire := tc_wire c @ t, tc_writing := w, tc_calls := k\<rparr>" "map B t @ node_toks node1 = node_toks node"
        "w" "same_node node node1"
      using 2(6) unfolding moved_def by blast
    have T: "map B (tc_wire c1) @ pending_toks (node1 # nodes) = T" "distinct (async_ids (node1 # nodes))"
      using 2(7, 8) same_node_ids [OF c1(4)] by (simp_all add: c1(1) c1(2) [symmetric])
    show ?thesis
    proof (cases "remainingBytes node1 > 0 \<or> n < 0")
      case True
      with False n T c1 2(4, 5) show ?thesis by (auto simp: agrees_def rest_ok_def)
    next
      case stop: False
      have "agrees (write_loop K (node1 # nodes) c1) T"
        by (rule 2(2) [OF False n [symmetric] refl stop 2(3) _ _ _ T]) (use c1 2(4, 5) in simp_all)
      with False n stop show ?thesis by simp
    qed
  qed
qed

section \<open>The operations\<close>

lemma fill_append [simp]: "fill i s (T @ U) = fill i s T @ fill i s U"
  by (simp add: fill_def)

lemma fill_text [simp]: "fill i s (map B t) = map B t"
  by (induction t) (simp_all add: fill_def)

lemma fill_simps [simp]: "fill i s [] = []" "fill i s [Hole j] = (if j = i then map B s @ [Hole j] else [Hole j])"
  by (simp_all add: fill_def)

lemma fill_absent: "Hole i \<notin> set T \<Longrightarrow> fill i s T = T"
  by (induction T) (auto simp: fill_def)

lemma hole_pending: "Hole i \<in> set (pending_toks nodes) \<Longrightarrow> i \<in> set (async_ids nodes)"
proof -
  have "Hole i \<in> set (node_toks node) \<Longrightarrow> i \<in> set (node_ids node)" for node
    by (cases node) (auto split: if_splits)
  then show "Hole i \<in> set (pending_toks nodes) \<Longrightarrow> ?thesis" by (induction nodes) auto
qed

text \<open>An operation on an open asynchronous node of the queue acts on the text in the queue.\<close>

fun is_open :: "nat \<Rightarrow> buf_node \<Rightarrow> bool" where
  "is_open i (AsyncNode j s d) \<longleftrightarrow> i = j \<and> \<not> d" | "is_open i _ \<longleftrightarrow> False"

definition open_in :: "nat \<Rightarrow> buf_node list \<Rightarrow> bool" where
  "open_in i nodes \<longleftrightarrow> list_ex (is_open i) nodes"

lemma open_in_iff: "open_in i nodes \<longleftrightarrow> (\<exists>s. AsyncNode i s False \<in> set nodes)"
proof -
  have "is_open i x \<longleftrightarrow> (\<exists>s. x = AsyncNode i s False)" for x by (cases x) auto
  then show ?thesis by (auto simp: open_in_def list_ex_iff)
qed

lemma only_open:
  assumes "distinct (async_ids nodes)" "open_in i nodes" "AsyncNode i s d \<in> set nodes"
  shows "\<not> d"
proof -
  have in_ids: "AsyncNode i t e \<in> set nodes \<Longrightarrow> i \<in> set (async_ids nodes)" for t e and nodes :: "buf_node list"
    by (force simp: async_ids_def)
  from assms show ?thesis
  proof (induction nodes)
    case (Cons x nodes)
    then show ?case using in_ids [where nodes = nodes] by (cases x) (auto simp: open_in_iff)
  qed simp
qed

lemma pending_append:
  assumes "\<forall>s. AsyncNode i s True \<notin> set nodes"
  shows "pending_toks (map (\<lambda>node. if is_node i node then append_data t node else node) nodes) = fill i t (pending_toks nodes)"
  using assms
proof (induction nodes)
  case (Cons x nodes)
  then have "node_toks (if is_node i x then append_data t x else x) = fill i t (node_toks x)"
    by (cases x) (auto simp flip: map_append)
  moreover have "pending_toks (map (\<lambda>node. if is_node i node then append_data t node else node) nodes) = fill i t (pending_toks nodes)"
    by (rule Cons.IH) (use Cons.prems in auto)
  ultimately show ?case by simp
qed simp

lemma pending_close:
  "pending_toks (map (\<lambda>node. if is_node i node then node_done node else node) nodes) = close_hole i (pending_toks nodes)"
proof (induction nodes)
  case (Cons x nodes)
  have "node_toks (if is_node i x then node_done x else x) = close_hole i (node_toks x)"
    by (cases x) (auto simp: close_hole_def)
  with Cons show ?case by (simp add: close_hole_def)
qed (simp add: close_hole_def)

lemma ids_map:
  assumes "\<And>node. node_ids (f node) = node_ids node"
  shows "async_ids (map (\<lambda>node. if P node then f node else node) nodes) = async_ids nodes"
  by (induction nodes) (auto simp: assms)

lemma node_ids_ops [simp]: "node_ids (append_data t node) = node_ids node" "node_ids (node_done node) = node_ids node"
  by (cases node; simp)+

lemma agrees_D:
  assumes "agrees c T" "tc_status c = Connected"
  shows "map B (tc_wire c) @ pending_toks (tc_list c) = T" "distinct (async_ids (tc_list c))" "\<not> tc_shut c"
    "tc_list c \<noteq> [] \<Longrightarrow> tc_writing c \<or> waiting (tc_list c)" "tc_writing c \<Longrightarrow> tc_list c \<noteq> []"
  using assms by (simp_all add: agrees_def rest_ok_def)

lemma agrees_I:
  assumes "tc_status c = Connected" "map B (tc_wire c) @ pending_toks (tc_list c) = T" "distinct (async_ids (tc_list c))" "\<not> tc_shut c"
    "tc_list c \<noteq> [] \<Longrightarrow> tc_writing c \<or> waiting (tc_list c)" "tc_writing c \<Longrightarrow> tc_list c \<noteq> []"
  shows "agrees c T"
  using assms by (simp add: agrees_def rest_ok_def)

lemma waiting_append: "waiting xs \<Longrightarrow> waiting (xs @ ys)"
  by (auto simp: waiting_def)

lemma waiting_snoc: "waiting (xs @ [MemNode s]) \<Longrightarrow> waiting (xs @ [x])"
  by (cases xs) (auto simp: waiting_def)

lemma enqueueData_agrees:
  assumes "tc_status c = Connected" "map B (tc_wire c) @ pending_toks (tc_list c) @ map B s = T" "distinct (async_ids (tc_list c))" "\<not> tc_shut c"
    and "tc_list c \<noteq> [] \<Longrightarrow> tc_writing c \<or> waiting (tc_list c)" "tc_writing c \<Longrightarrow> s \<noteq> [] \<or> tc_list c \<noteq> []"
    and "tc_list c = [] \<Longrightarrow> s \<noteq> [] \<Longrightarrow> tc_writing c"
  shows "agrees (enqueueData s c) T"
proof (cases "s = []")
  case True
  with assms show ?thesis by (auto simp: enqueueData_def intro: agrees_I)
next
  case False
  show ?thesis
  proof (cases "tc_list c = [] \<or> isFile (last (tc_list c)) \<or> isStream (last (tc_list c))")
    case True
    then have e: "enqueueData s c = c\<lparr>tc_list := tc_list c @ [MemNode s]\<rparr>"
      using False assms(1) by (auto simp: enqueueData_def Let_def pushNode_def)
    show ?thesis unfolding e using assms False by (intro agrees_I) (auto intro: waiting_append)
  next
    case last: False
    then obtain xs t where l: "tc_list c = xs @ [MemNode t]"
      by (cases "tc_list c" rule: rev_cases) (auto elim: isFile.elims isStream.elims)
    have e: "enqueueData s c = c\<lparr>tc_list := xs @ [MemNode (t @ s)]\<rparr>"
      using False last assms(1) by (auto simp: enqueueData_def Let_def l)
    show ?thesis unfolding e using assms l by (intro agrees_I) (auto intro: waiting_snoc)
  qed
qed

lemma send_agrees:
  assumes "\<forall>k. K k \<noteq> Refused" "agrees c T" "tc_status c = Connected" "length s < 2 ^ 31"
  shows "agrees (sendInLoop K s c) (T @ map B s)"
proof (cases "\<not> tc_writing c \<and> tc_list c = []")
  case True
  obtain n c1 where w: "writeRaw K s c = (n, c1)" by (metis surj_pair)
  note c = agrees_D [OF assms(2, 3)]
  obtain m v where m: "n = int m" "m \<le> length s" "c1 = c\<lparr>tc_wire := tc_wire c @ take m s, tc_writing := v, tc_calls := Suc (tc_calls c)\<rparr>"
    "m < length s \<Longrightarrow> length s < 2 ^ 31 \<Longrightarrow> v" "v \<Longrightarrow> tc_writing c \<or> m < length s"
    using writeRaw_spec [OF w] assms(1) c(3) by blast
  have "agrees (enqueueData (drop m s) c1) (T @ map B s)"
    by (rule enqueueData_agrees) (use True c m assms(3, 4) in \<open>auto simp flip: map_append\<close>)
  with True assms(3) m(1) show ?thesis by (simp add: sendInLoop_def w)
next
  case False
  have "agrees (enqueueData s c) (T @ map B s)"
    by (rule enqueueData_agrees) (use False agrees_D [OF assms(2, 3)] assms(3) in auto)
  with False assms(3) show ?thesis by (auto simp: sendInLoop_def)
qed

lemma sendNode_agrees:
  assumes "\<forall>k. K k \<noteq> Refused" "agrees c T" "tc_status c = Connected" "remainingBytes node \<noteq> 0" "\<not> isAsync node" "chunks_fit node"
    and "tc_list c = [] \<Longrightarrow> isFile node \<Longrightarrow> K (tc_calls c) \<noteq> Again"
  shows "agrees (sendNode K node c) (T @ node_toks node)"
proof (cases "tc_list c = []")
  case True
  obtain n node1 c1 where w: "sendNodeInLoop K node c = (n, node1, c1)" by (metis prod_cases3)
  note c = agrees_D [OF assms(2, 3)]
  have m: "moved node c node1 c1" using sendNodeInLoop_moved [OF assms(1) c(3) assms(4) w] by simp
  have "\<not> n < 0"
    using w assms(1, 4, 7) c(3) True sendFileNode_moved [OF assms(1) c(3)] sendData_moved [OF assms(1) c(3), of node 0]
    by (cases node) (auto simp: sendNodeInLoop_def)
  then have n: "0 \<le> n" by simp
  from m obtain t v k where t: "c1 = c\<lparr>tc_wire := tc_wire c @ t, tc_writing := v, tc_calls := k\<rparr>" "map B t @ node_toks node1 = node_toks node"
    "v \<longrightarrow> tc_writing c \<or> remainingBytes node1 > 0" "remainingBytes node1 > 0 \<longrightarrow> v" "same_node node node1"
    using assms(6) unfolding moved_def by blast
  have nt: "remainingBytes node1 = 0 \<Longrightarrow> node_toks node1 = []" "node_ids node1 = []"
    using t(5) assms(5) by (cases node; cases node1; auto split: if_splits)+
  have "tc_writing c = False" using True c(5) by blast
  with True c t nt n assms(3) show ?thesis
    by (auto simp: sendNode_def w pushNode_def simp flip: append_assoc t(2) intro!: agrees_I)
next
  case False
  have "node_ids node = []" using assms(5) by (cases node) auto
  with False agrees_D [OF assms(2, 3)] assms(3) show ?thesis
    by (auto simp: sendNode_def pushNode_def intro!: agrees_I waiting_append)
qed

lemma async_send_agrees:
  assumes "\<forall>k. K k \<noteq> Refused" "agrees c T" "tc_status c = Connected" "length s < 2 ^ 31" "open_in i (tc_list c)"
  shows "agrees (sendAsyncData K i s c) (fill i s T)"
proof -
  note c = agrees_D [OF assms(2, 3)]
  have u: "\<forall>t. AsyncNode i t True \<notin> set (tc_list c)"
    using only_open [OF c(2) assms(5)] by blast
  have T: "fill i s T = map B (tc_wire c) @ fill i s (pending_toks (tc_list c))" using c(1) by (auto simp flip: c(1))
  have ids: "async_ids (map (\<lambda>node. if is_node i node then append_data t node else node) (tc_list c)) = async_ids (tc_list c)" for t
    by (rule ids_map) simp
  consider (empty) "s = []" | (direct) "s \<noteq> []" "is_front i c" "remainingBytes (hd (tc_list c)) = 0"
    | (queue) "s \<noteq> []" "\<not> (is_front i c \<and> remainingBytes (hd (tc_list c)) = 0)" by metis
  then show ?thesis
  proof cases
    case empty
    have "fill i [] U = U" for U by (induction U) (auto simp: fill_def)
    with empty assms(2) show ?thesis by (simp add: sendAsyncData_def)
  next
    case direct
    obtain rest where l: "tc_list c = AsyncNode i [] False # rest"
      using direct u by (cases "tc_list c"; cases "hd (tc_list c)") (auto simp: is_front_def)
    have rest: "Hole i \<notin> set (pending_toks rest)" using c(2) hole_pending [of i rest] by (auto simp: l)
    obtain n c1 where w: "writeRaw K s c = (n, c1)" by (metis surj_pair)
    obtain m v where m: "n = int m" "m \<le> length s" "c1 = c\<lparr>tc_wire := tc_wire c @ take m s, tc_writing := v, tc_calls := Suc (tc_calls c)\<rparr>"
      "tc_writing c \<Longrightarrow> v" "m < length s \<Longrightarrow> length s < 2 ^ 31 \<Longrightarrow> v" "v \<Longrightarrow> tc_writing c \<or> m < length s"
      using writeRaw_spec [OF w] assms(1) c(3) by blast
    define c2 where "c2 = c1\<lparr>tc_list := AsyncNode i (drop m s) False # rest\<rparr>"
    have nodes: "map (\<lambda>node. if is_node i node then append_data t node else node) rest = rest" for t
    proof (rule map_idI)
      fix x assume "x \<in> set rest"
      with c(2) l show "(if is_node i x then append_data t x else x) = x" by (cases x) (force simp: async_ids_def)+
    qed
    have e: "sendAsyncData K i s c = c2"
      using direct m l nodes by (auto simp: sendAsyncData_def w on_node_def c2_def)
    have "fill i s T = map B (tc_wire c) @ map B s @ Hole i # pending_toks rest"
      using T rest fill_append [of i s "[Hole i]" "pending_toks rest"] by (simp add: l fill_absent)
    moreover have "map B (take m s) @ map B (drop m s) @ U = map B s @ U" for U
      by (metis append.assoc append_take_drop_id map_append)
    ultimately have "agrees c2 (fill i s T)"
      by (intro agrees_I) (use c m l assms(3, 4) in \<open>auto simp: c2_def waiting_def\<close>)
    with e show ?thesis by simp
  next
    case queue
    then have e: "sendAsyncData K i s c = c\<lparr>tc_list := map (\<lambda>node. if is_node i node then append_data s node else node) (tc_list c)\<rparr>"
      by (auto simp: sendAsyncData_def on_node_def)
    have w: "waiting (tc_list c) \<Longrightarrow> waiting (map (\<lambda>node. if is_node i node then append_data s node else node) (tc_list c))"
      using queue(2) by (auto simp: waiting_def is_front_def)
    show ?thesis
      unfolding e by (rule agrees_I) (use T c u w assms(3) in \<open>auto simp: ids pending_append\<close>)
  qed
qed

lemma async_close_agrees:
  assumes "agrees c T" "tc_status c = Connected"
  shows "agrees (closeAsync i c) (close_hole i T)"
proof -
  note c = agrees_D [OF assms]
  let ?l = "map (\<lambda>node. if is_node i node then node_done node else node) (tc_list c)"
  have ids: "async_ids ?l = async_ids (tc_list c)" by (rule ids_map) simp
  have "close_hole i (map B t) = map B t" for t by (induction t) (simp_all add: close_hole_def)
  then have T: "close_hole i T = map B (tc_wire c) @ pending_toks ?l"
    unfolding pending_close c(1) [symmetric] by (simp add: close_hole_def)
  have w: "waiting (tc_list c) \<Longrightarrow> waiting ?l \<or> is_front i (c\<lparr>tc_list := ?l\<rparr>)"
  proof -
    assume "waiting (tc_list c)"
    then obtain j rest where "tc_list c = AsyncNode j [] False # rest" by (auto simp: waiting_def)
    then show ?thesis by (cases "j = i") (auto simp: waiting_def is_front_def)
  qed
  have e: "closeAsync i c = (if is_front i (c\<lparr>tc_list := ?l\<rparr>) then c\<lparr>tc_list := ?l, tc_writing := True\<rparr> else c\<lparr>tc_list := ?l\<rparr>)"
    by (simp add: closeAsync_def on_node_def Let_def)
  show ?thesis
    unfolding e by (rule agrees_I) (use c T w assms(2) in \<open>auto simp: ids is_front_def split: if_splits\<close>)
qed

section \<open>Properties\<close>

text \<open>
  How the server uses a connection: messages and chunks shorter than \<^verbatim>\<open>INT_MAX\<close> bytes, fresh asynchronous
  streams that are used until they are closed, and files whose first \<^verbatim>\<open>sendfile()\<close> does not find the socket full.
\<close>

fun fits :: "(nat \<Rightarrow> kres) \<Rightarrow> tcp_op \<Rightarrow> tcp_conn \<Rightarrow> bool" where
  "fits K (OpSend s) c \<longleftrightarrow> length s < 2 ^ 31"
| "fits K (OpSendFile content offset len) c \<longleftrightarrow> tc_status c = Connected \<and> (tc_list c = [] \<longrightarrow> K (tc_calls c) \<noteq> Again)"
| "fits K (OpSendStream chunks) c \<longleftrightarrow> tc_status c = Connected \<and> list_all (\<lambda>x. length x < 2 ^ 31) chunks"
| "fits K (OpAsync i) c \<longleftrightarrow> tc_status c = Connected \<and> i \<notin> set (async_ids (tc_list c))"
| "fits K (OpAsyncSend i s) c \<longleftrightarrow> tc_status c = Connected \<longrightarrow> length s < 2 ^ 31 \<and> open_in i (tc_list c)"
| "fits K _ c \<longleftrightarrow> True"

fun all_fit :: "(nat \<Rightarrow> kres) \<Rightarrow> tcp_op list \<Rightarrow> tcp_conn \<Rightarrow> bool" where
  "all_fit K [] c \<longleftrightarrow> True"
| "all_fit K (op # ops) c \<longleftrightarrow> fits K op c \<and> all_fit K ops (tcp_step K op c)"

lemma file_node: "newFileBufferNode content offset len = Some node \<Longrightarrow> \<exists>s. node = FileNode s \<and> s \<noteq> []"
proof -
  assume a: "newFileBufferNode content offset len = Some node"
  then obtain t where t: "content = Some t" "0 \<le> offset"
    by (cases content) (simp_all add: newFileBufferNode_def split: if_splits)
  show ?thesis
  proof (cases "len = 0")
    case True
    with a t have "node = FileNode (drop (nat offset) t)" "\<not> offset \<ge> int (length t)"
      by (simp_all add: newFileBufferNode_def split: if_splits)
    moreover from this t(2) have "nat offset < length t" by linarith
    ultimately show ?thesis by simp
  next
    case False
    with a t have "node = FileNode (take len (drop (nat offset) t))" "\<not> int len > int (length t) - offset"
      by (simp_all add: newFileBufferNode_def split: if_splits)
    moreover from this t(2) False have "nat offset < length t" by linarith
    ultimately show ?thesis using False by simp
  qed
qed

lemma down_step:
  assumes "agrees c T" "tc_status c \<noteq> Connected" "fits K op c"
  shows "agrees (tcp_step K op c) T"
  using assms
  by (cases op)
     (auto simp: agrees_def rest_ok_def sendInLoop_def writeCallback_def tcp_shutdown_def forceClose_def handleClose_def
       split: ConnStatus.splits)

lemma step_agrees:
  assumes K: "\<forall>k. K k \<noteq> Refused" and "agrees c T" "fits K op c"
  shows "agrees (tcp_step K op c) (if tc_status c = Connected then spec_step op T else T)"
proof (cases "tc_status c = Connected")
  case True
  note c = agrees_D [OF assms(2) True]
  show ?thesis
  proof (cases op)
    case (OpSendFile content offset len)
    show ?thesis
    proof (cases "newFileBufferNode content offset len")
      case None
      with assms True OpSendFile show ?thesis by (simp add: sendFile_def file_text_def)
    next
      case (Some node)
      with file_node obtain s where s: "node = FileNode s" "s \<noteq> []" by blast
      have "agrees (sendNode K node c) (T @ node_toks node)"
        by (rule sendNode_agrees [OF K assms(2) True]) (use s assms(3) OpSendFile in auto)
      with True OpSendFile Some s show ?thesis by (simp add: sendFile_def file_text_def)
    qed
  next
    case (OpSendStream chunks)
    have "agrees (sendNode K (StreamNode chunks [] False) c) (T @ node_toks (StreamNode chunks [] False))"
      by (rule sendNode_agrees [OF K assms(2) True]) (use assms(3) OpSendStream in auto)
    with True OpSendStream show ?thesis by (simp add: sendStream_def)
  next
    case (OpAsync i)
    have "tc_writing c \<or> waiting (tc_list c @ [AsyncNode i [] False])"
      using c(4) waiting_append by (cases "tc_list c = []") (auto simp: waiting_def)
    then have "agrees (c\<lparr>tc_list := tc_list c @ [AsyncNode i [] False]\<rparr>) (T @ [Hole i])"
      by (intro agrees_I) (use True c assms(3) OpAsync in auto)
    with True OpAsync show ?thesis by (simp add: sendAsyncStream_def pushNode_def)
  next
    case (OpSend s)
    with send_agrees [OF K assms(2) True, of s] assms(3) True show ?thesis by simp
  next
    case (OpAsyncSend i s)
    with async_send_agrees [OF K assms(2) True, of s i] assms(3) True show ?thesis by simp
  next
    case (OpAsyncClose i)
    with async_close_agrees [OF assms(2) True] True show ?thesis by simp
  next
    case OpShutdown
    with shutdown_empty [OF assms(2)] True show ?thesis by simp
  next
    case OpWritable
    with True c assms(2) show ?thesis
      by (auto simp: writeCallback_def intro: write_loop_agrees [OF K])
  qed (use True assms(2) in \<open>simp_all add: forceClose_def handleClose_def agrees_def rest_ok_def\<close>)
next
  case False
  with down_step assms(2, 3) show ?thesis by simp
qed

lemma steps_agree:
  assumes "\<forall>k. K k \<noteq> Refused" "agrees c T" "all_fit K ops c" "fold (both_step K) ops (c, T) = (c', T')"
  shows "agrees c' T'"
  using assms(2-)
proof (induction ops arbitrary: c T)
  case (Cons op ops)
  then have "agrees (tcp_step K op c) (if tc_status c = Connected then spec_step op T else T)"
    by (intro step_agrees [OF assms(1)]) auto
  moreover have "fold (both_step K) ops (tcp_step K op c, if tc_status c = Connected then spec_step op T else T) = (c', T')"
    using Cons.prems(3) by (simp add: both_step_def [of K op] split: if_splits)
  moreover have "all_fit K ops (tcp_step K op c)" using Cons.prems(2) by simp
  ultimately show ?case using Cons.IH by blast
qed simp

definition new_conn :: "tcp_conn \<Rightarrow> bool" where
  "new_conn c \<longleftrightarrow> tc_status c = Connected \<and> tc_list c = [] \<and> \<not> tc_writing c \<and> \<not> tc_closeOnEmpty c \<and> \<not> tc_shut c \<and> tc_wire c = []"


definition example_conn :: tcp_conn where
  "example_conn = \<lparr>tc_status = Connected, tc_list = [], tc_writing = False, tc_closeOnEmpty = False, tc_shut = False, tc_wire = [], tc_calls = 0\<rparr>"

text \<open>An instance: the kernel takes one byte and then nothing; the stream is filled after the message behind it was sent.\<close>

definition example_kernel :: "nat \<Rightarrow> kres" where
  "example_kernel k = (if k = 0 then Took 0 else if k = 1 then Again else Took 100)"

definition example_ops :: "tcp_op list" where
  "example_ops = [OpSend ''ab'', OpAsync 7, OpSend ''c'', OpAsyncSend 7 ''xy'', OpSendFile (Some ''file'') 1 2, OpWritable]"

lemmas tcp_eval =
  example_kernel_def example_ops_def example_conn_def sendInLoop_def writeRaw_def kwrite_def enqueueData_def pushNode_def
  sendAsyncStream_def sendAsyncData_def sendFile_def sendNode_def newFileBufferNode_def is_front_def on_node_def
  open_in_def kMaxSendBytes_def int_of_size_def


text \<open>
  (C39) A file whose first \<^verbatim>\<open>sendfile()\<close> finds the socket full is lost. The call returns -1 with \<^verbatim>\<open>EAGAIN\<close>, the same
  value as for an error, and \<^verbatim>\<open>sendFile\<close> drops the node: nothing of the file is queued or sent, and the next message is
  written where the file should be, although the header before it announced the file's length.
\<close>

theorem sendfile_full_drops_file:
  assumes "tc_status c = Connected" "tc_list c = []" "\<not> tc_closeOnEmpty c" "\<not> tc_shut c"
    and "K (tc_calls c) = Again" "K (Suc (tc_calls c)) = Took n" "length t \<le> Suc n" "length t \<le> kMaxSendBytes"
    and "file_text content offset len \<noteq> []"
  shows "let c1 = writeCallback K (sendFile K content offset len c)
    in tc_wire c1 = tc_wire c \<and> tc_list c1 = [] \<and> tc_status c1 = Connected \<and> \<not> tc_writing c1
       \<and> tc_wire (sendInLoop K t c1) = tc_wire c @ t"
proof -
  obtain s where s: "newFileBufferNode content offset len = Some (FileNode s)" "s \<noteq> []"
    using assms(9) by (auto simp: file_text_def split: option.splits buf_node.splits)
  have "sendFile K content offset len c = c\<lparr>tc_calls := Suc (tc_calls c), tc_writing := True\<rparr>"
    using assms s by (simp add: sendFile_def sendNode_def sendNodeInLoop_def sendFileNode_def kwrite_def)
  then have c1: "writeCallback K (sendFile K content offset len c) = c\<lparr>tc_list := [], tc_calls := Suc (tc_calls c), tc_writing := False\<rparr>"
    using assms by (simp add: writeCallback_def Let_def)
  have "min (Suc n) (min (length t) kMaxSendBytes) = length t" using assms(7, 8) by simp
  then show ?thesis
    using assms by (auto simp: Let_def c1 sendInLoop_def writeRaw_def kwrite_def enqueueData_def split: if_splits)
qed

text \<open>An instance: a header has been written, the socket is full, then drains.\<close>

lemma sendfile_full_drops_file_witness:
  "let c = sendInLoop (\<lambda>k. if k = 1 then Again else Took 1000) ''header'' example_conn;
       c1 = writeCallback (\<lambda>k. if k = 1 then Again else Took 1000) (sendFile (\<lambda>k. if k = 1 then Again else Took 1000) (Some ''file'') 0 0 c)
   in tc_wire (sendInLoop (\<lambda>k. if k = 1 then Again else Took 1000) ''next'' c1) = ''headernext''"
proof -
  let ?K = "\<lambda>k. if k = 1 then Again else Took 1000 :: kres"
  let ?c = "sendInLoop ?K ''header'' example_conn"
  have c: "?c = example_conn\<lparr>tc_wire := ''header'', tc_calls := 1\<rparr>"
    by (simp add: sendInLoop_def example_conn_def writeRaw_def kwrite_def kMaxSendBytes_def int_of_size_def enqueueData_def)
  have "file_text (Some ''file'') 0 0 \<noteq> []" by code_simp
  with sendfile_full_drops_file [of ?c ?K 1000 "''next''" "Some ''file''" 0 0] show ?thesis
    unfolding c by (simp add: example_conn_def Let_def kMaxSendBytes_def)
qed

text \<open>Operations that do not close the connection.\<close>

fun stays_up :: "tcp_op \<Rightarrow> bool" where
  "stays_up OpForceClose \<longleftrightarrow> False" | "stays_up OpPeerClosed \<longleftrightarrow> False" | "stays_up _ \<longleftrightarrow> True"

definition stalled :: "string \<Rightarrow> tcp_conn \<Rightarrow> bool" where
  "stalled w c \<longleftrightarrow> tc_status c = Connected \<and> \<not> tc_writing c \<and> tc_wire c = w \<and> (\<exists>t rest. tc_list c = MemNode t # rest)"

lemma stalled_front:
  assumes "\<exists>t rest. xs = MemNode t # rest"
  shows "\<exists>t rest. butlast xs @ [append_data s (last xs)] = MemNode t # rest"
    and "\<exists>t rest. map (\<lambda>x. if is_node i x then f x else x) xs = MemNode t # rest"
    and "\<not> is_node i (hd xs)" "xs \<noteq> []"
  using assms by (auto simp: neq_Nil_conv)

lemma stalled_step:
  assumes "stalled w c" "stays_up op"
  shows "stalled w (tcp_step K op c)"
proof -
  have f: "\<exists>t rest. tc_list c = MemNode t # rest" and u: "tc_status c = Connected" "\<not> tc_writing c" "tc_wire c = w"
    using assms(1) by (auto simp: stalled_def)
  note g = stalled_front [OF f]
  have push: "stalled w (pushNode node c)" for node
    using f u by (auto simp: stalled_def pushNode_def)
  have enq: "stalled w (enqueueData s c)" for s
    using g(1) [of s] stalled_front(1) [of "tc_list c @ [MemNode []]" s] f u
    by (auto simp: stalled_def enqueueData_def pushNode_def Let_def)
  show ?thesis
    using assms(2) push enq g u f
    by (cases op)
       (auto simp: sendInLoop_def sendFile_def sendStream_def sendNode_def sendAsyncStream_def sendAsyncData_def closeAsync_def
          is_front_def on_node_def writeCallback_def tcp_shutdown_def stalled_def Let_def split: option.split)
qed

lemma stalled_steps: "stalled w c \<Longrightarrow> list_all stays_up ops \<Longrightarrow> stalled w (fold (tcp_step K) ops c)"
  by (induction ops arbitrary: c) (auto intro: stalled_step)


definition example_big :: string where
  "example_big = replicate (2 ^ 31) CHR ''a''"

lemma example_big_length: "2 ^ 31 \<le> length example_big" "length example_big < 2 ^ 32"
  by (simp_all only: example_big_def length_replicate) simp_all


section \<open>The work of a writable event\<close>

lemma writeRaw_calls: "writeRaw K s c = (n, c1) \<Longrightarrow> tc_calls c1 = Suc (tc_calls c)"
  by (auto simp: writeRaw_def kwrite_def split: prod.splits kres.splits if_splits)

lemma sendData_calls: "sendData K node hasSent c = (n, node1, c1) \<Longrightarrow> tc_calls c1 \<le> tc_calls c + node_work node"
proof (induction K node hasSent c rule: sendData.induct)
  case (1 K node hasSent c)
  obtain data node0 where d: "getData node = (data, node0)" by (metis surj_pair)
  obtain n0 c0 where w: "writeRaw K data c = (n0, c0)" by (metis surj_pair)
  note calls = writeRaw_calls [OF w]
  consider (stop) "remainingBytes node = 0 \<or> data = []" | (go) "remainingBytes node \<noteq> 0" "data \<noteq> []" by blast
  then show ?case
  proof cases
    case stop
    with 1(2) show ?thesis by (auto simp: sendData.simps [of K node] d split: if_splits)
  next
    case go
    have less: "node_work (retrieve (length data) node0) < node_work node" by (rule node_work_step [OF go(1) d go(2)])
    show ?thesis
    proof (cases "n0 < 0 \<or> nat n0 < length data")
      case True
      with 1(2) go less calls show ?thesis by (auto simp: sendData.simps [of K node] d w split: if_splits)
    next
      case False
      then have "sendData K (retrieve (length data) node0) (hasSent + n0) c0 = (n, node1, c1)"
        using 1(2) go by (simp add: sendData.simps [of K node] d w)
      with 1(1) [OF go(1) d [symmetric] go(2) w [symmetric]] False
      have "tc_calls c1 \<le> tc_calls c0 + node_work (retrieve (length data) node0)" by simp
      with less calls show ?thesis by simp
    qed
  qed
qed

lemma sendNodeInLoop_calls:
  assumes "sendNodeInLoop K node c = (n, node1, c1)"
  shows "tc_calls c1 \<le> tc_calls c + node_work node"
proof (cases "isFile node")
  case True
  with assms show ?thesis
    by (cases node) (auto simp: sendNodeInLoop_def sendFileNode_def kwrite_def split: prod.splits kres.splits if_splits)
next
  case False
  with assms have "sendData K node 0 c = (n, node1, c1)" by (cases node) (simp_all add: sendNodeInLoop_def)
  then show ?thesis by (rule sendData_calls)
qed

lemma no_work: "remainingBytes node = 0 \<Longrightarrow> node_work node = 0"
  by (cases node) (auto split: if_splits)

lemma write_loop_calls: "tc_calls (write_loop K nodes c) \<le> tc_calls c + sum_list (map node_work nodes)"
proof (induction K nodes c rule: write_loop.induct)
  case (1 K c)
  show ?case by (simp add: Let_def tcp_shutdown_def)
next
  case (2 K node nodes c)
  obtain n node1 c1 where s: "sendNodeInLoop K node c = (n, node1, c1)" by (metis prod_cases3)
  note calls = sendNodeInLoop_calls [OF s]
  consider (empty) "remainingBytes node = 0" | (part) "remainingBytes node \<noteq> 0" "remainingBytes node1 > 0 \<or> n < 0"
    | (sent) "remainingBytes node \<noteq> 0" "\<not> (remainingBytes node1 > 0 \<or> n < 0)" by blast
  then show ?case
  proof cases
    case empty
    with 2(1) no_work show ?thesis by (cases "\<not> isAsync node \<or> \<not> available node") auto
  next
    case part
    with calls s show ?thesis by auto
  next
    case sent
    with 2(2) [OF sent(1) s [symmetric] refl sent(2)] calls s no_work [of node1] show ?thesis by auto
  qed
qed

text \<open>
  (C33) The callback for a writable socket always returns, and its work is bounded: whatever the kernel answers, it makes
  at most one system call for each memory, file and asynchronous node of the queue with data, and for each stream node one
  for each chunk its callback has still to give and two more.
\<close>

theorem write_callback_bounded:
  "tc_calls (writeCallback K c) \<le> tc_calls c + sum_list (map node_work (tc_list c))"
  by (simp add: writeCallback_def write_loop_calls)

end
