(* ===== verification/Spec2Isabelle.thy ===== *)
theory Spec2Isabelle
  imports RequestQueue RateLimits JsonWriter StaticFiles HttpConnection CppRoutes WsFrame WsClient StaticRouter Server TcpConnection
begin

text \<open>
  \<^bold>\<open>A verification of drogonR.\<close> The repository is an R package that runs the C++ web framework Drogon (vendored under
  \<^verbatim>\<open>src/src/drogon\<close>, with its network library trantor) inside an R process.  Drogon's event loops run on threads of
  their own and must never touch R; handlers written in R run on the main thread.  The package is the bridge: requests
  and WebSocket events are copied into queues, a byte in a pipe wakes the main thread, a dispatcher drains the queues and
  calls R, and the answers go back to the loops.

  \<^bold>\<open>How the program is modelled.\<close>  Every component is a theory with its state as a record, its data as datatypes
  and one function for each operation.  Machine integers are words, or integers with the wrap-around written out, where
  the width matters.  Errors are values; undefined behaviour of C++ is an outcome of its own (\<open>None\<close>, or a result left
  open by a parameter).  R's evaluator and hooks, the regular expression engine, the file system, the clock and the
  kernel's answers are parameters.  Threads are interleavings of the atomic steps that the locks of the code and the order
  of functions queued on a loop leave: step relations, or lists of operations in any order.

  \<^bold>\<open>The theories, from the wire to R and back.\<close>
  \<^item> \<open>Prelude\<close>: lemmas and C library functions shared by all, and two interfaces: \<open>bridge_queue\<close> (a queue between threads) and
    \<open>id_table\<close> (a table of sessions under fresh ids).  Each is interpreted by the components that provide it, like
    \<open>byte_buffer\<close> in \<open>MsgBuffer\<close> and \<open>rate_limiter\<close> in \<open>Limiters\<close>.
  \<^item> \<open>TcpConnection\<close>: the write side of \<^verbatim>\<open>TcpConnectionImpl.cc\<close> and its buffer nodes.  The wire carries exactly what was sent,
    nothing stalls, shutting down waits for the queue, a writable event does bounded work; a file is lost when the socket
    is full at its first \<^verbatim>\<open>sendfile()\<close>, and a message of 2 GiB stalls the connection.
  \<^item> \<open>MsgBuffer\<close>: \<^verbatim>\<open>MsgBuffer.cc\<close>, which behaves as a byte string and stays inside its array.
  \<^item> \<open>HttpUtils\<close>, \<open>HttpMessage\<close>, \<open>HttpRequest\<close>, \<open>Codecs\<close>: content types, responses and how they are rendered, requests and
    their parameters, percent, Base64 and hexadecimal coding (\<^verbatim>\<open>HttpUtils.cc\<close>, \<^verbatim>\<open>HttpResponseImpl\<close>, \<^verbatim>\<open>HttpRequestImpl\<close>,
    \<^verbatim>\<open>Utilities.cc\<close>): framing and round trips.
  \<^item> \<open>HttpRequestParser\<close>, \<open>HttpConnection\<close>: \<^verbatim>\<open>HttpRequestParser.cc\<close> and \<^verbatim>\<open>HttpServer::onMessage\<close>.  The result does not depend
    on how the bytes arrive; bodies keep to the limit, unless a chunk length is negative.
  \<^item> \<open>Pipelining\<close>, \<open>SendResponse\<close>: the order of responses on a connection, and the batches in which they are sent.
  \<^item> \<open>Router\<close>, \<open>RangeParser\<close>, \<open>FsPath\<close>, \<open>StaticFiles\<close>, \<open>StaticRouter\<close>: which handler serves a request
    (\<^verbatim>\<open>HttpControllersRouter.cc\<close>), Range headers, the mounts of \<^verbatim>\<open>dr_static\<close> and the files Drogon serves for requests no
    route matches; containment in the directories, and the NUL byte that defeats the type check.
  \<^item> \<open>Limiters\<close>, \<open>RateLimits\<close>: the three rate limiters, and the rules that attach them to routes.
  \<^item> \<open>RequestQueue\<close>: \<^verbatim>\<open>request_queue.cpp\<close> and the wake pipe.  No wakeup is lost, nothing is lost, doubled or reordered,
    and the queue keeps to its maximum.
  \<^item> \<open>RValue\<close>, \<open>FmtDouble\<close>, \<open>JsonWriter\<close>: R values, decimal printing of doubles, and \<^verbatim>\<open>json_writer.cpp\<close>, whose output
    every JSON reader reads back.
  \<^item> \<open>Dispatcher\<close>: \<^verbatim>\<open>r_dispatcher.cpp\<close>.  Every request is answered once, the R handler sees the request, and the
    response carries what it returned.
  \<^item> \<open>StreamSession\<close>, \<open>CppRoutes\<close>: responses streamed from R (\<^verbatim>\<open>stream_session.cpp\<close>) and by native backends.
  \<^item> \<open>WsFrame\<close>, \<open>WsSession\<close>, \<open>WsDelivery\<close>, \<open>WsClient\<close>: WebSocket frames (\<^verbatim>\<open>WebSocketConnectionImpl.cc\<close>), sessions with their
    limits, rooms and events (\<^verbatim>\<open>ws_session.cpp\<close>), and clients (\<^verbatim>\<open>ws_client.cpp\<close>).
  \<^item> \<open>Server\<close>: \<^verbatim>\<open>drogon_server.cpp\<close> and the rest of \<^verbatim>\<open>r_dispatcher.cpp\<close>: registration, starting, stopping, and the
    dispatcher over all queues, on the states of the other components.  The properties that span components are there.

  \<^bold>\<open>Which definitions model which state.\<close>  The globals of a translation unit are the fields of one record under their
  own names: \<open>reqqueue\<close> (\<^verbatim>\<open>g_queue\<close>), \<open>streams\<close> (\<^verbatim>\<open>g_streams\<close>), \<open>wsys\<close> (\<^verbatim>\<open>g_wsSessions\<close>, \<^verbatim>\<open>g_wsRooms\<close>), \<open>wcsys\<close>
  (\<^verbatim>\<open>g_wsClients\<close>), \<open>server\<close> (\<^verbatim>\<open>g_routes\<close>, \<^verbatim>\<open>g_running\<close>, \<^verbatim>\<open>g_wakePipe\<close>); so are the members of a class: \<open>msgbuf\<close>,
  \<open>request\<close>, \<open>response\<close>, \<open>router\<close>, \<open>tcp_conn\<close>.  Functions keep the names of the code.  What R preserves from
  garbage collection is a multiset; fields marked as ghosts record history and are not read by the code.

  \<^bold>\<open>Loops and bounds.\<close>  No model of the code uses fuel; the JSON reader that specifies the writer in \<open>JsonWriter\<close>
  does, and takes the length of the text, which its lemmas prove enough.  Loops over input are structural, or have a termination proof: the
  parser and \<^verbatim>\<open>onMessage\<close> consume bytes or leave a state, the range parser advances its iterator, the write loop counts
  nodes and chunks.  Ids are 64 bit words; a wrapped counter is a ghost flag where a property needs ids to be fresh.

  \<^bold>\<open>Findings.\<close>  The properties of kind error, and some of kind liveness and bounds, show behaviour that the code or its
  documentation does not mean: the negative chunk length, the length test of unmasked WebSocket frames, the file of the
  working directory behind \<^verbatim>\<open>/p%00.txt\<close>, clients stranded by \<^verbatim>\<open>dr_stop\<close>, paths that differ in case, files dropped on a
  full socket, and messages of 2 GiB.  Others are plain lemmas: the stream that never opens and is pumped for ever, the null
  state given to R's evaluator, the ping between fragments.

  \<^bold>\<open>Not modelled.\<close>
  \<^item> The R code of the package: it checks arguments and calls the entry points modelled here; its meaning is that of R's
    evaluator, a parameter.  HTTP handlers do not call back into the package in \<open>Server\<close>; WebSocket hooks do.
  \<^item> Forking of worker processes, but for the flags it resets.
  \<^item> Event loops, sockets, timers and name resolution: system calls and callbacks around them.  The models rely on one
    property of them, that functions queued on a loop run one at a time in order.
  \<^item> TLS (the server listens without it), logging, dates and hash functions.
  \<^item> Drogon's application object beyond registration, its HTTP client, configuration, plugins, sessions and filters,
    databases, multipart bodies and the JSON library: no path of the package reaches them, or only through the calls
    modelled.
  \<^item> The high water mark and idle timeouts of connections, and caching of rendered responses.
\<close>

end
